(* ===== verification/Prelude.thy ===== *)
theory Prelude
  imports Main "HOL-Library.Word"
begin

text \<open>
  Shared vocabulary of the development: the machine integers and byte strings of the Go
  code, the result type of a Go call (value, error or run-time panic), the state-passing
  form of it, slice and index expressions with their bounds checks, and the fixed-width
  big-endian codec of package \<^verbatim>\<open>encoding/binary\<close> with its round trips.
\<close>

named_theorems go_simps
named_theorems codec_simps

type_synonym byte = "8 word"
type_synonym bytes = "byte list"
type_synonym u16 = "16 word"
type_synonym u32 = "32 word"
type_synonym u64 = "64 word"

section \<open>Results of Go calls\<close>

text \<open>
  The sentinel errors of the modelled packages. Error texts, and the context strings that
  some callers append, are not modelled: the code under verification only compares
  sentinels and tests for \<^verbatim>\<open>nil\<close>.
\<close>

datatype rlp_error =
    EOL | ErrExpectedString | ErrExpectedList | ErrCanonInt | ErrCanonSize
  | ErrElemTooLarge | ErrValueTooLarge | ErrMoreThanOneValue | ErrNotInList | ErrNotAtEOL
  | ErrUintOverflow | IoEOF | IoErrUnexpectedEOF | TooFewElements | InputStringTooLong
  | InputStringTooShort | InvalidBoolean | NegativeBigInt

datatype op_error =
    ErrBadDataLen | ErrNoPubKey | ErrNoInitTxHash | ErrNoCreatorAddress
  | ErrNoWithdrawalAddress | ErrNoSignature | ErrNoAmount | ErrNoBalance | ErrRawDataShort
  | ErrPrefixNotValid | ErrOpNotValid | ErrOpBadVersion | ErrNoExitRoles
  | ErrNoWithdrawalRoles | ErrBadProfitShare | ErrBadStakeShare | ErrDelegateForkRequire
  | ErrInvalidDepositSig | DelegatingStakeNilValBin

datatype store_error =
    ErrInvalidValidatorsFilter | ErrNoStateValidatorInfo | ErrNoSubnetValidators
  | ErrNoEraValidators | ErrBadBinaryData | InvalidValidatorVersion
  | SubtractMoreThanStake | NoStakeForAddress | EpochNotFound | TransitionTimeout

datatype chain_error =
    SlotMulOverflow | SlotAddOverflow | SlotCalcOverflow | ErrCheckpointInvalid
  | ErrHandleEraFailed | ShuffleListTooBig | RevisionNotFound | EnterNextEraFailed

datatype proc_error =
    ErrTooLowDepositValue | ErrInsufficientFundsForOp | ErrInvalidFromAddresses
  | ErrUnknownValidator | ErrNoWithdrawalCred | ErrMismatchPulicKey
  | ErrNotActivatedValidator | ErrValidatorActivated | ErrValidatorIsOut
  | ErrInvalidToAddress | ErrNoSavedValSyncOp | ErrValSyncTxExists | ErrValOpBlocked
  | ErrNoActiveWithdrawalOp | ErrMismatchValSyncOp | ErrInvalidOpEpoch | ErrTxNF
  | ErrReceiptNF | ErrInvalidReceiptStatus | ErrInvalidOpCode | ErrInvalidCreator
  | ErrInvalidAmount | ErrMismatchDelegateData | ErrSenderRejByDelegate
  | DepositAlreadyActivated | DepositMismatchPubKey | DepositMismatchWithdrawal
  | InitTxReceiptNF | InitTxReceiptFailed

datatype hex_error =
    ErrEmptyString | ErrSyntax | ErrMissingPrefix | ErrOddLength | ErrEmptyNumber
  | ErrLeadingZero | ErrUint64Range | ErrBig256Range

datatype dag_error =
    ErrBadCheckpointLen | ErrNilLogData | ErrNilBlock | ErrNilHeader | ErrBlockNotFound | ErrBadSequence

datatype goerr =
    RlpErr rlp_error | OpErr op_error | StoreErr store_error | ChainErr chain_error
  | ProcErr proc_error | HexErr hex_error | DagErr dag_error
  | Msg string

text \<open>A call returns a value, returns a non-nil error, or panics.\<close>

datatype 'a res = Ok 'a | Err goerr | Panic

definition rbind :: "'a res \<Rightarrow> ('a \<Rightarrow> 'b res) \<Rightarrow> 'b res" where
  "rbind m f = (case m of Ok a \<Rightarrow> f a | Err e \<Rightarrow> Err e | Panic \<Rightarrow> Panic)"

definition guard :: "bool \<Rightarrow> goerr \<Rightarrow> unit res" where
  "guard b e = (if b then Ok () else Err e)"

lemma rbind_simps [simp]:
  "rbind (Ok a) f = f a" "rbind (Err e) f = Err e" "rbind Panic f = Panic"
  by (simp_all add: rbind_def)

lemma rbind_eq_Ok: "rbind m f = Ok b \<longleftrightarrow> (\<exists>a. m = Ok a \<and> f a = Ok b)"
  by (cases m) auto

lemma rbind_eq_Panic: "rbind m f = Panic \<longleftrightarrow> m = Panic \<or> (\<exists>a. m = Ok a \<and> f a = Panic)"
  by (cases m) auto

lemma rbind_assoc: "rbind (rbind m f) g = rbind m (\<lambda>a. rbind (f a) g)"
  by (cases m) auto

lemma guard_eq_Ok [simp]: "guard b e = Ok u \<longleftrightarrow> b"
  by (cases u) (simp add: guard_def)

lemma guard_True [simp]: "guard True e = Ok ()"
  by (simp add: guard_def)

lemma guard_False [simp]: "guard False e = Err e"
  by (simp add: guard_def)

primrec rmap :: "('a \<Rightarrow> 'b res) \<Rightarrow> 'a list \<Rightarrow> 'b list res" where
  "rmap f [] = Ok []"
| "rmap f (x # xs) = rbind (f x) (\<lambda>y. rbind (rmap f xs) (\<lambda>ys. Ok (y # ys)))"

lemma rmap_Ok: "(\<And>x. x \<in> set xs \<Longrightarrow> f x = Ok (g x)) \<Longrightarrow> rmap f xs = Ok (map g xs)"
  by (induction xs) auto

lemma rmap_length: "rmap f xs = Ok ys \<Longrightarrow> length ys = length xs"
  by (induction xs arbitrary: ys) (auto simp: rbind_eq_Ok)

primrec is_Ok :: "'a res \<Rightarrow> bool" where
  "is_Ok (Ok a) = True"
| "is_Ok (Err e) = False"
| "is_Ok Panic = False"

lemma is_Ok_iff: "is_Ok m \<longleftrightarrow> (\<exists>a. m = Ok a)"
  by (cases m) auto

section \<open>State-passing calls\<close>

text \<open>A method that mutates its receiver returns the result and the new receiver; an error
  keeps the mutations made before it.\<close>

type_synonym ('s, 'a) call = "'s \<Rightarrow> 'a res \<times> 's"

definition sbind :: "('s, 'a) call \<Rightarrow> ('a \<Rightarrow> ('s, 'b) call) \<Rightarrow> ('s, 'b) call" where
  "sbind m f s = (case m s of
      (Ok a, s') \<Rightarrow> f a s'
    | (Err e, s') \<Rightarrow> (Err e, s')
    | (Panic, s') \<Rightarrow> (Panic, s'))"

definition sret :: "'a \<Rightarrow> ('s, 'a) call" where
  "sret a s = (Ok a, s)"

definition slift :: "'a res \<Rightarrow> ('s, 'a) call" where
  "slift r s = (r, s)"

definition sguard :: "bool \<Rightarrow> goerr \<Rightarrow> ('s, unit) call" where
  "sguard b e s = (if b then (Ok (), s) else (Err e, s))"

lemma sbind_Ok: "m s = (Ok a, s') \<Longrightarrow> sbind m f s = f a s'"
  by (simp add: sbind_def)

lemma sbind_Err: "m s = (Err e, s') \<Longrightarrow> sbind m f s = (Err e, s')"
  by (simp add: sbind_def)

lemma sbind_eq_Ok:
  "sbind m f s = (Ok b, s2) \<longleftrightarrow> (\<exists>a s1. m s = (Ok a, s1) \<and> f a s1 = (Ok b, s2))"
  by (auto simp: sbind_def split: prod.splits res.splits)

lemma sret_eq [simp]: "sret a s = (r, s') \<longleftrightarrow> r = Ok a \<and> s' = s"
  by (auto simp: sret_def)

lemma slift_eq [simp]: "slift m s = (r, s') \<longleftrightarrow> r = m \<and> s' = s"
  by (auto simp: slift_def)

lemma sguard_eq_Ok [simp]: "sguard b e s = (Ok u, s') \<longleftrightarrow> b \<and> s' = s"
  by (cases u) (auto simp: sguard_def)

section \<open>Slices and indices\<close>

text \<open>
  \<^verbatim>\<open>b[i:j]\<close> panics unless \<open>i \<le> j \<le> cap(b)\<close>. Every buffer of the modelled code is made
  to size (by \<^verbatim>\<open>make([]byte, n)\<close> or a copy), so capacity and length agree.
\<close>

definition go_slice :: "'a list \<Rightarrow> nat \<Rightarrow> nat \<Rightarrow> 'a list res" where
  "go_slice b i j = (if i \<le> j \<and> j \<le> length b then Ok (take (j - i) (drop i b)) else Panic)"

definition go_from :: "'a list \<Rightarrow> nat \<Rightarrow> 'a list res" where
  "go_from b i = go_slice b i (length b)"

definition go_index :: "'a list \<Rightarrow> nat \<Rightarrow> 'a res" where
  "go_index b i = (if i < length b then Ok (b ! i) else Panic)"

lemma go_slice_append [simp]:
  "length xs = i \<Longrightarrow> j = i + length ys \<Longrightarrow> go_slice (xs @ ys @ zs) i j = Ok ys"
  by (simp add: go_slice_def)

lemma go_slice_prefix [simp]:
  "j = length ys \<Longrightarrow> go_slice (ys @ zs) 0 j = Ok ys"
  by (simp add: go_slice_def)

lemma go_from_append [simp]: "length xs = i \<Longrightarrow> go_from (xs @ ys) i = Ok ys"
  by (simp add: go_from_def go_slice_def)

lemma go_slice_eq_Ok:
  "go_slice b i j = Ok c \<longleftrightarrow> i \<le> j \<and> j \<le> length b \<and> c = take (j - i) (drop i b)"
  by (auto simp: go_slice_def)

lemma go_from_eq_Ok: "go_from b i = Ok c \<longleftrightarrow> i \<le> length b \<and> c = drop i b"
  by (auto simp: go_from_def go_slice_def)

section \<open>Fixed-width big-endian integers\<close>

lemma unat_u64_less [simp]: "unat (i :: u64) < 2 ^ 64"
  using unsigned_less[of i, where ?'a = nat] by simp

lemma unat_u64_power: "k < 64 \<Longrightarrow> unat (2 ^ k :: u64) = 2 ^ k"
proof -
  assume "k < 64"
  then have "(2::nat) ^ k < 2 ^ 64" by (rule power_strict_increasing) simp
  then show ?thesis using unat_of_nat[of "2 ^ k", where ?'a = 64] by (simp del: numeral_power_eq_of_nat_cancel_iff)
qed

lemma unat_of_nat_u64 [simp]: "n < 2 ^ 64 \<Longrightarrow> unat (word_of_nat n :: u64) = n"
  by (simp add: unat_of_nat)

primrec of_be :: "bytes \<Rightarrow> nat" where
  "of_be [] = 0"
| "of_be (b # bs) = unat b * 256 ^ length bs + of_be bs"

primrec to_be :: "nat \<Rightarrow> nat \<Rightarrow> bytes" where
  "to_be 0 x = []"
| "to_be (Suc n) x = word_of_nat (x div 256 ^ n) # to_be n x"

lemma length_to_be [simp]: "length (to_be n x) = n"
  by (induction n) auto

lemma to_be_numeral [codec_simps]:
  "to_be (numeral k) x = word_of_nat (x div 256 ^ pred_numeral k) # to_be (pred_numeral k) x"
  by (simp add: numeral_eq_Suc)

lemma to_be_1 [codec_simps]: "to_be 1 x = [word_of_nat x]"
  by simp

lemma byte_less_256 [simp]: "unat (b :: byte) < 256"
  using unsigned_less[of b, where ?'a = nat] by simp

lemma of_be_less: "of_be bs < 256 ^ length bs"
proof (induction bs)
  case (Cons b bs)
  have "unat b * 256 ^ length bs + of_be bs < (unat b + 1) * 256 ^ length bs"
    using Cons.IH by simp
  also have "\<dots> \<le> 256 * 256 ^ length bs"
    by (rule mult_right_mono) (use byte_less_256[of b] in linarith, simp)
  finally show ?case by simp
qed simp

lemma of_be_append: "of_be (xs @ ys) = of_be xs * 256 ^ length ys + of_be ys"
  by (induction xs) (simp_all add: power_add algebra_simps)

lemma unat_byte_of_nat: "unat (word_of_nat x :: byte) = x mod 256"
  by (simp add: unat_of_nat)

lemma of_be_to_be [simp]: "of_be (to_be n x) = x mod 256 ^ n"
proof (induction n)
  case (Suc n)
  have "x mod 256 ^ Suc n = x mod (256 ^ n * 256)" by (simp add: mult.commute)
  also have "\<dots> = 256 ^ n * (x div 256 ^ n mod 256) + x mod 256 ^ n"
    by (rule mod_mult2_eq)
  finally show ?case
    using Suc.IH by (simp add: unat_byte_of_nat mult.commute)
qed simp

lemma of_be_to_be_small: "x < 256 ^ n \<Longrightarrow> of_be (to_be n x) = x"
  by simp

lemma to_be_mod: "m \<ge> n \<Longrightarrow> to_be n (x mod 256 ^ m) = to_be n x"
proof (induction n)
  case (Suc n)
  obtain k where m: "m = n + Suc k"
    using Suc.prems by (metis add_Suc_right less_iff_Suc_add Suc_le_eq)
  have "x mod 256 ^ m div 256 ^ n = (x div 256 ^ n) mod 256 ^ Suc k"
    by (simp only: m power_add mod_mult2_eq) simp
  then have "(word_of_nat (x mod 256 ^ m div 256 ^ n) :: byte) = word_of_nat (x div 256 ^ n)"
    by (intro word_unat_eq_iff[THEN iffD2]) (simp add: unat_byte_of_nat mod_mod_cancel)
  then show ?case using Suc by simp
qed simp

lemma to_be_of_be [simp]: "to_be (length bs) (of_be bs) = bs"
proof (induction bs)
  case (Cons b bs)
  have d: "of_be (b # bs) div 256 ^ length bs = unat b"
    using of_be_less[of bs] by simp
  have "to_be (length bs) (of_be (b # bs)) = to_be (length bs) (of_be (b # bs) mod 256 ^ length bs)"
    by (rule to_be_mod[symmetric]) simp
  also have "of_be (b # bs) mod 256 ^ length bs = of_be bs"
    using of_be_less[of bs] by simp
  finally show ?case using Cons.IH d by simp
qed simp

lemma of_be_inject: "length xs = length ys \<Longrightarrow> of_be xs = of_be ys \<longleftrightarrow> xs = ys"
  by (metis to_be_of_be)

lemma to_be_add: "to_be (a + b) x = to_be a (x div 256 ^ b) @ to_be b x"
  by (induction a) (simp_all add: power_add mult.commute flip: div_mult2_eq)

lemma to_be_zero [simp]: "to_be n 0 = replicate n 0"
  by (induction n) simp_all

lemma to_be_cong: "x mod 256 ^ n = y mod 256 ^ n \<Longrightarrow> to_be n x = to_be n y"
  by (metis to_be_mod order_refl)

end
