(* ===== verification/Common.thy ===== *)
theory Common
  imports Prelude "HOL-Library.AList"
begin

text \<open>
  Package \<^verbatim>\<open>common\<close> and the small shared types: fixed-size byte arrays
  (\<^verbatim>\<open>src/common/types.go\<close>, \<^verbatim>\<open>types_bls.go\<close>), little-endian integers (\<^verbatim>\<open>bytes.go\<close>), hash arrays,
  the slot clock \<^verbatim>\<open>SlotInfo\<close> (\<^verbatim>\<open>src/core/types/block_dag.go\<close>), the chain configuration
  (\<^verbatim>\<open>src/params/config.go\<close>) and the validator sync record (\<^verbatim>\<open>src/core/types/dag.go\<close>).
  Arrays \<^verbatim>\<open>[n]byte\<close> are byte lists of that length.
\<close>

section \<open>Fixed-size arrays\<close>

type_synonym address = bytes
type_synonym hash = bytes
type_synonym pubkey = bytes
type_synonym blssig = bytes

definition setBytes :: "nat \<Rightarrow> bytes \<Rightarrow> bytes" where
  "setBytes n b =
     (let b' = (if length b > n then drop (length b - n) b else b)
      in replicate (n - length b') 0 @ b')"

definition BytesToHash :: "bytes \<Rightarrow> hash" where
  "BytesToHash b = setBytes 32 b"

definition BytesToAddress :: "bytes \<Rightarrow> address" where
  "BytesToAddress b = setBytes 20 b"

definition BytesToBlsPubKey :: "bytes \<Rightarrow> pubkey" where
  "BytesToBlsPubKey b = setBytes 48 b"

definition BytesToBlsSig :: "bytes \<Rightarrow> blssig" where
  "BytesToBlsSig b = setBytes 96 b"

abbreviation zero_array :: "nat \<Rightarrow> bytes" where
  "zero_array n \<equiv> replicate n 0"

text \<open>\<^verbatim>\<open>copy(dst, src)\<close> overwrites a prefix of \<open>dst\<close>.\<close>

definition go_copy :: "'a list \<Rightarrow> 'a list \<Rightarrow> 'a list" where
  "go_copy dst src = take (length dst) src @ drop (length src) dst"

lemma length_setBytes [simp]: "length (setBytes n b) = n"
  by (simp add: setBytes_def Let_def)

lemma setBytes_id [simp]: "length b = n \<Longrightarrow> setBytes n b = b"
  by (simp add: setBytes_def)

lemma array_conversions [simp]:
  "length (BytesToHash b) = 32" "length (BytesToAddress b) = 20"
  "length (BytesToBlsPubKey b) = 48" "length (BytesToBlsSig b) = 96"
  "length b = 32 \<Longrightarrow> BytesToHash b = b" "length b = 20 \<Longrightarrow> BytesToAddress b = b"
  "length b = 48 \<Longrightarrow> BytesToBlsPubKey b = b" "length b = 96 \<Longrightarrow> BytesToBlsSig b = b"
  by (simp_all add: BytesToHash_def BytesToAddress_def BytesToBlsPubKey_def BytesToBlsSig_def)

lemma go_copy_same [simp]: "length src = length dst \<Longrightarrow> go_copy dst src = src"
  by (simp add: go_copy_def)

lemma length_go_copy [simp]: "length (go_copy dst src) = length dst"
  by (simp add: go_copy_def min_def)

section \<open>Little-endian integers\<close>

definition Uint64ToBytes :: "u64 \<Rightarrow> bytes" where
  "Uint64ToBytes u = rev (to_be 8 (unat u))"

definition BytesToUint64 :: "bytes \<Rightarrow> u64 res" where
  "BytesToUint64 b = (if length b < 8 then Panic else Ok (word_of_nat (of_be (rev (take 8 b)))))"

lemma length_Uint64ToBytes [simp]: "length (Uint64ToBytes u) = 8"
  by (simp add: Uint64ToBytes_def)

lemma unat_u64_mod [simp]: "unat (u :: u64) mod 18446744073709551616 = unat u"
  using unat_u64_less[of u] by simp

lemma of_be_to_be_u64: "of_be (to_be 8 (unat (u :: u64))) = unat u"
  by simp

lemma BytesToUint64_inverse [simp]: "BytesToUint64 (Uint64ToBytes u @ rest) = Ok u"
  by (simp add: BytesToUint64_def Uint64ToBytes_def)

text \<open>\<^verbatim>\<open>binary.BigEndian\<close>: \<open>Uint64\<close> and \<open>Uint32\<close> read a prefix and panic on short input.\<close>

definition beUint64 :: "bytes \<Rightarrow> u64 res" where
  "beUint64 b = (if length b < 8 then Panic else Ok (word_of_nat (of_be (take 8 b))))"

definition beUint32 :: "bytes \<Rightarrow> nat res" where
  "beUint32 b = (if length b < 4 then Panic else Ok (of_be (take 4 b)))"

definition bePut64 :: "u64 \<Rightarrow> bytes" where
  "bePut64 u = to_be 8 (unat u)"

definition bePut32 :: "nat \<Rightarrow> bytes" where
  "bePut32 n = to_be 4 n"

lemma be_codec [simp]:
  "length (bePut64 u) = 8" "length (bePut32 n) = 4"
  "beUint64 (bePut64 u @ rest) = Ok u" "beUint64 (bePut64 u) = Ok u"
  by (simp_all add: bePut64_def bePut32_def beUint64_def)

lemma beUint32_bePut32 [simp]: "n < 2 ^ 32 \<Longrightarrow> beUint32 (bePut32 n @ rest) = Ok n"
  by (simp add: beUint32_def bePut32_def)

section \<open>Hash arrays\<close>

fun HashArrayFromBytes_loop :: "nat \<Rightarrow> bytes \<Rightarrow> hash list" where
  "HashArrayFromBytes_loop 0 data = []"
| "HashArrayFromBytes_loop (Suc n) data =
     BytesToHash (take 32 data) # HashArrayFromBytes_loop n (drop 32 data)"

definition HashArrayFromBytes :: "bytes \<Rightarrow> hash list" where
  "HashArrayFromBytes data = HashArrayFromBytes_loop (length data div 32) data"

fun ha_ToBytes :: "hash list \<Rightarrow> bytes" where
  "ha_ToBytes [] = []"
| "ha_ToBytes (h # hs) = h @ ha_ToBytes hs"

text \<open>\<^verbatim>\<open>Intersection\<close> and \<^verbatim>\<open>Difference\<close> fill a Go map with one array, of which only the keys matter,
  and append the items of the other array that are, or are not, among them.\<close>

definition map_keys :: "hash list \<Rightarrow> hash list" where
  "map_keys ha = foldl (\<lambda>m item. item # m) [] ha"

fun intersection_loop :: "hash list \<Rightarrow> hash list \<Rightarrow> hash list \<Rightarrow> hash list" where
  "intersection_loop m c [] = c"
| "intersection_loop m c (item # items) =
     (if item \<in> set m then intersection_loop m (c @ [item]) items else intersection_loop m c items)"

definition ha_Intersection :: "hash list \<Rightarrow> hash list \<Rightarrow> hash list" where
  "ha_Intersection ha hashArray = intersection_loop (map_keys ha) [] hashArray"

fun ha_IndexOf_from :: "nat \<Rightarrow> hash list \<Rightarrow> hash \<Rightarrow> int" where
  "ha_IndexOf_from i [] h = -1"
| "ha_IndexOf_from i (x # xs) h = (if x = h then int i else ha_IndexOf_from (Suc i) xs h)"

definition ha_IndexOf :: "hash list \<Rightarrow> hash \<Rightarrow> int" where
  "ha_IndexOf ha h = ha_IndexOf_from 0 ha h"

fun ha_Has :: "hash list \<Rightarrow> hash \<Rightarrow> bool" where
  "ha_Has [] h = False"
| "ha_Has (x # xs) h = (if x = h then True else ha_Has xs h)"

fun seqInter_loop :: "hash list \<Rightarrow> int \<Rightarrow> hash list \<Rightarrow> hash list" where
  "seqInter_loop hb index [] = []"
| "seqInter_loop hb index (item # items) =
     (let i = ha_IndexOf hb item in
      if index = -1 \<and> i \<ge> 0 then item # seqInter_loop hb (i + 1) items
      else if index \<ge> 0 \<and> index = i then item # seqInter_loop hb (i + 1) items
      else if index \<ge> 0 \<and> index \<noteq> i then []
      else seqInter_loop hb index items)"

definition ha_SequenceIntersection :: "hash list \<Rightarrow> hash list \<Rightarrow> hash list" where
  "ha_SequenceIntersection ha hb = seqInter_loop hb (-1) ha"

fun difference_loop :: "hash list \<Rightarrow> hash list \<Rightarrow> hash list \<Rightarrow> hash list" where
  "difference_loop mb diff [] = diff"
| "difference_loop mb diff (x # xs) =
     (if x \<notin> set mb then difference_loop mb (diff @ [x]) xs else difference_loop mb diff xs)"

definition ha_Difference :: "hash list \<Rightarrow> hash list \<Rightarrow> hash list" where
  "ha_Difference ha hashArray = difference_loop (map_keys hashArray) [] ha"

fun uniq_loop :: "hash list \<Rightarrow> hash list \<Rightarrow> hash list \<Rightarrow> hash list" where
  "uniq_loop m c [] = c"
| "uniq_loop m c (item # items) =
     (if item \<in> set m then uniq_loop m c items else uniq_loop (item # m) (c @ [item]) items)"

definition ha_Uniq :: "hash list \<Rightarrow> hash list" where
  "ha_Uniq ha = uniq_loop [] [] ha"

text \<open>\<open>Deduplicate\<close> writes into the array it ranges over: \<open>j\<close> is the write index, \<open>i\<close> the
  read index.\<close>

function dedup_loop :: "hash list \<Rightarrow> nat \<Rightarrow> nat \<Rightarrow> hash list \<Rightarrow> hash list" where
  "dedup_loop m j i ha =
     (if i < length ha then
        (let item = ha ! i in
         if item \<in> set m then dedup_loop m j (Suc i) ha
         else dedup_loop (item # m) (Suc j) (Suc i) (ha[j := item]))
      else take j ha)"
  by pat_completeness auto
termination
  by (relation "measure (\<lambda>(m, j, i, ha). length ha - i)") auto

declare dedup_loop.simps [simp del]

definition ha_Deduplicate :: "hash list \<Rightarrow> hash list" where
  "ha_Deduplicate ha = dedup_loop [] 0 0 ha"

definition ha_IsUniq :: "hash list \<Rightarrow> bool" where
  "ha_IsUniq ha \<longleftrightarrow> length ha = length (ha_Uniq ha)"

fun isEqual_loop :: "hash list \<Rightarrow> hash list \<Rightarrow> bool" where
  "isEqual_loop (x # xs) (y # ys) = (if x \<noteq> y then False else isEqual_loop xs ys)"
| "isEqual_loop _ _ = True"

definition ha_IsEqualTo :: "hash list \<Rightarrow> hash list \<Rightarrow> bool" where
  "ha_IsEqualTo ha hb = (if length ha \<noteq> length hb then False else isEqual_loop ha hb)"

function reverse_loop :: "int \<Rightarrow> int \<Rightarrow> hash list \<Rightarrow> hash list" where
  "reverse_loop i j cpy =
     (if i < j then
        reverse_loop (i + 1) (j - 1) (cpy[nat i := cpy ! nat j, nat j := cpy ! nat i])
      else cpy)"
  by pat_completeness auto
termination
  by (relation "measure (\<lambda>(i, j, c). nat (j - i))") auto

declare reverse_loop.simps [simp del]

definition ha_Reverse :: "hash list \<Rightarrow> hash list" where
  "ha_Reverse ha = reverse_loop 0 (int (length ha) - 1) ha"

section \<open>The slot clock\<close>

record SlotInfo =
  GenesisTime :: u64
  SecondsPerSlot :: u64
  SlotsPerEpoch :: u64

text \<open>\<^verbatim>\<open>bits.Mul64\<close> and \<^verbatim>\<open>bits.Add64\<close>: high word or carry, and the wrapped result.\<close>

definition Mul64 :: "u64 \<Rightarrow> u64 \<Rightarrow> u64 \<times> u64" where
  "Mul64 x y = (word_of_nat (unat x * unat y div 2 ^ 64), x * y)"

definition Add64 :: "u64 \<Rightarrow> u64 \<Rightarrow> u64 \<times> u64" where
  "Add64 x y = (word_of_nat ((unat x + unat y) div 2 ^ 64), x + y)"

definition StartSlotTime :: "SlotInfo \<Rightarrow> u64 \<Rightarrow> u64 res" where
  "StartSlotTime si slot =
     (let (overflows, timeSinceGenesis) = Mul64 slot (SecondsPerSlot si) in
      if overflows > 0 then Err (ChainErr SlotMulOverflow)
      else let (carry, sTime) = Add64 timeSinceGenesis (GenesisTime si) in
           if carry > 0 then Err (ChainErr SlotAddOverflow) else Ok sTime)"

text \<open>The wall clock is an argument (seconds since the epoch, a signed 64-bit integer).\<close>

definition CurrentSlot :: "SlotInfo \<Rightarrow> int \<Rightarrow> u64 res" where
  "CurrentSlot si now =
     (let genesis = sint (GenesisTime si) in
      if now < genesis then Ok 0
      else if SecondsPerSlot si = 0 then Panic
      else Ok (word_of_int (now - genesis) div SecondsPerSlot si))"

definition SlotInEpoch :: "SlotInfo \<Rightarrow> u64 \<Rightarrow> u64 res" where
  "SlotInEpoch si slot = (if SlotsPerEpoch si = 0 then Panic else Ok (slot mod SlotsPerEpoch si))"

definition IsEpochStart :: "SlotInfo \<Rightarrow> u64 \<Rightarrow> bool res" where
  "IsEpochStart si slot =
     (if SlotsPerEpoch si = 0 then Panic else Ok (slot mod SlotsPerEpoch si = 0))"

definition IsEpochEnd :: "SlotInfo \<Rightarrow> u64 \<Rightarrow> bool res" where
  "IsEpochEnd si slot = IsEpochStart si (slot + 1)"

definition SlotToEpoch :: "SlotInfo \<Rightarrow> u64 \<Rightarrow> u64 res" where
  "SlotToEpoch si slot = (if SlotsPerEpoch si = 0 then Panic else Ok (slot div SlotsPerEpoch si))"

definition SlotOfEpochStart :: "SlotInfo \<Rightarrow> u64 \<Rightarrow> u64 res" where
  "SlotOfEpochStart si epoch =
     (let (overflows, slot) = Mul64 (SlotsPerEpoch si) epoch in
      if overflows > 0 then Err (ChainErr SlotCalcOverflow) else Ok slot)"

definition SlotOfEpochEnd :: "SlotInfo \<Rightarrow> u64 \<Rightarrow> u64 res" where
  "SlotOfEpochEnd si epoch =
     (if epoch = - 1 then Err (ChainErr SlotCalcOverflow)
      else rbind (SlotOfEpochStart si (epoch + 1)) (\<lambda>slot. Ok (slot - 1)))"

section \<open>Chain configuration\<close>

record ChainConfig =
  cfg_SlotsPerEpoch :: u64
  EpochsPerEra :: u64
  TransitionPeriod :: u64
  ValidatorsStateAddress :: address
  ValidatorsPerSlot :: u64
  EffectiveBalance :: int
  ValidatorOpExpireSlots :: u64
  ForkSlotSubNet1 :: u64
  ForkSlotDelegate :: u64
  ForkSlotPrefixFin :: u64
  ForkSlotValOpTracking :: u64
  ForkSlotReduceBaseFee :: u64
  ForkSlotValSyncProc :: u64
  StartEpochsPerEra :: u64

definition IsForkSlotSubNet1 :: "ChainConfig \<Rightarrow> u64 \<Rightarrow> bool" where
  "IsForkSlotSubNet1 c slot \<longleftrightarrow> slot \<ge> ForkSlotSubNet1 c"

definition IsForkSlotDelegate :: "ChainConfig \<Rightarrow> u64 \<Rightarrow> bool" where
  "IsForkSlotDelegate c slot \<longleftrightarrow> slot \<ge> ForkSlotDelegate c"

definition IsForkSlotPrefixFin :: "ChainConfig \<Rightarrow> u64 \<Rightarrow> bool" where
  "IsForkSlotPrefixFin c slot \<longleftrightarrow> slot \<ge> ForkSlotPrefixFin c"

definition IsForkSlotValOpTracking :: "ChainConfig \<Rightarrow> u64 \<Rightarrow> bool" where
  "IsForkSlotValOpTracking c slot \<longleftrightarrow> slot \<ge> ForkSlotValOpTracking c"

definition IsForkSlotReduceBaseFee :: "ChainConfig \<Rightarrow> u64 \<Rightarrow> bool" where
  "IsForkSlotReduceBaseFee c slot \<longleftrightarrow> slot \<ge> ForkSlotReduceBaseFee c"

definition IsForkSlotValSyncProc :: "ChainConfig \<Rightarrow> u64 \<Rightarrow> bool" where
  "IsForkSlotValSyncProc c slot \<longleftrightarrow> slot \<ge> ForkSlotValSyncProc c"

section \<open>Validator sync records\<close>

text \<open>\<^verbatim>\<open>ValidatorSyncOp\<close> is a \<^verbatim>\<open>uint64\<close>; the three named values are 0, 1 and 2.\<close>

abbreviation Activate :: u64 where "Activate \<equiv> 0"
abbreviation Deactivate :: u64 where "Deactivate \<equiv> 1"
abbreviation UpdateBalance :: u64 where "UpdateBalance \<equiv> 2"

record ValidatorSync =
  vs_InitTxHash :: hash
  vs_OpType :: u64
  vs_ProcEpoch :: u64
  vs_Index :: u64
  vs_Creator :: address
  vs_Amount :: "int option"
  vs_TxHash :: "hash option"
  vs_Balance :: "int option"

definition BnCanCastToUint64 :: "int option \<Rightarrow> bool" where
  "BnCanCastToUint64 bn = (case bn of None \<Rightarrow> False | Some n \<Rightarrow> 0 \<le> n \<and> n \<le> 2 ^ 64 - 1)"

section \<open>Laws of hash arrays\<close>

lemma uniq_loop_spec:
  "set m = set c \<Longrightarrow> distinct c \<Longrightarrow>
   distinct (uniq_loop m c ha) \<and> set (uniq_loop m c ha) = set c \<union> set ha"
  by (induction m c ha rule: uniq_loop.induct) auto

lemma uniq_loop_prefix: "\<exists>xs. uniq_loop m c ha = c @ xs \<and> length xs \<le> length ha"
proof (induction m c ha rule: uniq_loop.induct)
  case (2 m c item items)
  show ?case
  proof (cases "item \<in> set m")
    case True
    then show ?thesis using 2(1) by fastforce
  next
    case False
    then show ?thesis using 2(2) by fastforce
  qed
qed simp

lemma uniq_distinct: "distinct (ha_Uniq ha)" "set (ha_Uniq ha) = set ha"
  using uniq_loop_spec[of "[]" "[]" ha] by (simp_all add: ha_Uniq_def)

lemma uniq_loop_id: "distinct ha \<Longrightarrow> set m \<inter> set ha = {} \<Longrightarrow> uniq_loop m c ha = c @ ha"
  by (induction m c ha rule: uniq_loop.induct) auto

lemma ha_IsUniq_distinct: "ha_IsUniq ha \<longleftrightarrow> distinct ha"
proof
  assume "ha_IsUniq ha"
  then have "card (set ha) = length ha"
    using distinct_card[OF uniq_distinct(1)[of ha]] uniq_distinct(2)[of ha] by (simp add: ha_IsUniq_def)
  then show "distinct ha" by (rule card_distinct)
next
  assume "distinct ha"
  then show "ha_IsUniq ha" by (simp add: ha_IsUniq_def ha_Uniq_def uniq_loop_id)
qed

lemma dedup_loop_uniq:
  "j \<le> i \<Longrightarrow> i \<le> length ha \<Longrightarrow> dedup_loop m j i ha = uniq_loop m (take j ha) (drop i ha)"
proof (induction m j i ha rule: dedup_loop.induct)
  case (1 m j i ha)
  show ?case
  proof (cases "i < length ha")
    case True
    then have d: "drop i ha = ha ! i # drop (Suc i) ha" by (simp add: Cons_nth_drop_Suc)
    show ?thesis
    proof (cases "ha ! i \<in> set m")
      case True
      then show ?thesis using "1.IH"(1)[OF \<open>i < length ha\<close> refl] "1.prems" \<open>i < length ha\<close> d
        by (simp add: dedup_loop.simps[of m j i ha])
    next
      case False
      let ?h = "ha[j := ha ! i]"
      have t: "take (Suc j) ?h = take j ha @ [ha ! i]"
        using True "1.prems" by (simp add: take_Suc_conv_app_nth)
      have r: "drop (Suc i) ?h = drop (Suc i) ha" using "1.prems" by simp
      show ?thesis using "1.IH"(2)[OF True refl False] "1.prems" True False d t r
        by (simp add: dedup_loop.simps[of m j i ha] Let_def)
    qed
  qed (use "1.prems" in \<open>subst dedup_loop.simps, simp\<close>)
qed

lemma ha_Deduplicate_Uniq: "ha_Deduplicate ha = ha_Uniq ha"
  by (simp add: ha_Deduplicate_def ha_Uniq_def dedup_loop_uniq)

lemma map_keys_set: "set (map_keys ha) = set ha"
proof -
  have "set (foldl (\<lambda>m item. item # m) m ha) = set m \<union> set ha" for m
    by (induction ha arbitrary: m) auto
  then show ?thesis by (simp add: map_keys_def)
qed

lemma ha_Intersection_filter: "ha_Intersection ha hb = filter (\<lambda>h. h \<in> set ha) hb"
proof -
  have "intersection_loop m c hb = c @ filter (\<lambda>h. h \<in> set m) hb" for m c
    by (induction m c hb rule: intersection_loop.induct) auto
  then show ?thesis by (simp add: ha_Intersection_def map_keys_set)
qed

lemma ha_Difference_filter: "ha_Difference ha hb = filter (\<lambda>h. h \<notin> set hb) ha"
proof -
  have "difference_loop mb d ha = d @ filter (\<lambda>h. h \<notin> set mb) ha" for mb d
    by (induction mb d ha rule: difference_loop.induct) auto
  then show ?thesis by (simp add: ha_Difference_def map_keys_set)
qed

lemma uniq_loop_snoc:
  "set m = set c \<Longrightarrow> uniq_loop m c (xs @ [x]) =
     (if x \<in> set (uniq_loop m c xs) then uniq_loop m c xs else uniq_loop m c xs @ [x])"
  by (induction m c xs rule: uniq_loop.induct) auto

text \<open>Of equal hashes the first is kept.\<close>

lemma ha_Uniq_firsts: "ha_Uniq ha = rev (remdups (rev ha))"
proof (induction ha rule: rev_induct)
  case (snoc x xs)
  then show ?case using uniq_loop_snoc[of "[]" "[]" xs x] uniq_distinct(2)[of xs] by (simp add: ha_Uniq_def)
qed (simp add: ha_Uniq_def)

lemma ha_Has_set: "ha_Has ha h \<longleftrightarrow> h \<in> set ha"
  by (induction ha h rule: ha_Has.induct) auto

lemma ha_IsEqualTo_eq: "ha_IsEqualTo ha hb \<longleftrightarrow> ha = hb"
proof -
  have "length ha = length hb \<Longrightarrow> isEqual_loop ha hb \<longleftrightarrow> ha = hb"
    by (induction ha hb rule: isEqual_loop.induct) auto
  then show ?thesis by (auto simp: ha_IsEqualTo_def)
qed

lemma length_ha_ToBytes: "list_all (\<lambda>h. length h = 32) hs \<Longrightarrow> length (ha_ToBytes hs) = 32 * length hs"
  by (induction hs) auto

lemma HashArrayFromBytes_inverse:
  "list_all (\<lambda>h. length h = 32) hs \<Longrightarrow> HashArrayFromBytes (ha_ToBytes hs) = hs"
proof -
  assume a: "list_all (\<lambda>h. length h = 32) hs"
  then have "HashArrayFromBytes_loop (length hs) (ha_ToBytes hs) = hs" by (induction hs) auto
  then show ?thesis using length_ha_ToBytes[OF a] by (simp add: HashArrayFromBytes_def)
qed

lemma reverse_loop_rev:
  "0 \<le> i \<Longrightarrow> i + j = int (length xs + length ys + length zs) - 1 \<Longrightarrow> i = int (length xs) \<Longrightarrow>
   length xs = length zs \<Longrightarrow> reverse_loop i j (xs @ ys @ zs) = xs @ rev ys @ zs"
proof (induction "length ys" arbitrary: i j xs ys zs rule: less_induct)
  case less
  have j: "j = int (length xs + length ys) - 1" using less.prems by simp
  show ?case
  proof (cases "i < j")
    case False
    then have "length ys \<le> 1" using j less.prems by simp
    then have "rev ys = ys" by (cases ys) auto
    with False show ?thesis by (simp add: reverse_loop.simps[of i j])
  next
    case True
    then have l: "2 \<le> length ys" using j less.prems by simp
    then obtain a ys1 where ya: "ys = a # ys1" "ys1 \<noteq> []" by (cases ys; cases "tl ys") auto
    obtain ms b where yb: "ys1 = ms @ [b]" using ya(2) by (metis append_butlast_last_id)
    let ?c = "xs @ ys @ zs"
    have ni: "nat i = length xs" "nat j = length xs + Suc (length ms)"
      using less.prems j ya yb by simp_all
    have "?c[nat i := ?c ! nat j, nat j := ?c ! nat i] = (xs @ [b]) @ ms @ (a # zs)"
      unfolding ni by (simp add: ya yb nth_append list_update_append)
    then have "reverse_loop i j ?c = reverse_loop (i + 1) (j - 1) ((xs @ [b]) @ ms @ (a # zs))"
      using True by (simp add: reverse_loop.simps[of i j])
    also have "\<dots> = (xs @ [b]) @ rev ms @ (a # zs)"
      by (rule less.hyps) (use ya yb less.prems in auto)
    finally show ?thesis by (simp add: ya yb)
  qed
qed

lemma ha_Reverse_rev: "ha_Reverse ha = rev ha"
  using reverse_loop_rev[of 0 "int (length ha) - 1" "[]" ha "[]"] by (simp add: ha_Reverse_def)

section \<open>Laws of the slot clock\<close>

lemma Mul64_overflow: "fst (Mul64 x y) > 0 \<longleftrightarrow> 2 ^ 64 \<le> unat x * unat y"
proof -
  have "unat x * unat y < 2 ^ 64 * 2 ^ 64" by (rule mult_strict_mono) (simp_all del: power_numeral)
  then have "unat x * unat y div 2 ^ 64 < 2 ^ 64" by (simp add: div_less_iff_less_mult)
  then have "unat (fst (Mul64 x y)) = unat x * unat y div 2 ^ 64" by (simp add: Mul64_def)
  then have "fst (Mul64 x y) > 0 \<longleftrightarrow> 0 < unat x * unat y div 2 ^ 64" by (simp only: word_less_nat_alt unsigned_0)
  then show ?thesis by (simp add: div_greater_zero_iff)
qed

lemma Mul64_exact: "unat x * unat y < 2 ^ 64 \<Longrightarrow> unat (snd (Mul64 x y)) = unat x * unat y"
  by (simp add: Mul64_def unat_word_ariths)

lemma SlotOfEpochStart_Ok:
  "SlotOfEpochStart si e = Ok s \<longleftrightarrow>
     unat (SlotsPerEpoch si) * unat e < 2 ^ 64 \<and> s = SlotsPerEpoch si * e"
  using Mul64_overflow[of "SlotsPerEpoch si" e]
  by (auto simp: SlotOfEpochStart_def case_prod_beta not_le) (simp_all add: Mul64_def)

lemma epoch_of_start:
  assumes "SlotOfEpochStart si e = Ok s" "SlotsPerEpoch si \<noteq> 0"
  shows "SlotToEpoch si s = Ok e" "IsEpochStart si s = Ok True" "SlotInEpoch si s = Ok 0"
proof -
  let ?n = "SlotsPerEpoch si"
  have s: "s = ?n * e" "unat ?n * unat e < 2 ^ 64" using assms(1) by (simp_all add: SlotOfEpochStart_Ok)
  then have u: "unat s = unat ?n * unat e" by (simp add: unat_word_ariths)
  have "0 < unat ?n" using assms(2) by (simp add: unat_gt_0)
  then have "unat (s div ?n) = unat e" "unat (s mod ?n) = 0" by (simp_all add: unat_div unat_mod u)
  then have "s div ?n = e" "s mod ?n = 0" by (simp_all only: word_unat_eq_iff unsigned_0)
  then show "SlotToEpoch si s = Ok e" "IsEpochStart si s = Ok True" "SlotInEpoch si s = Ok 0"
    using assms(2) by (simp_all add: SlotToEpoch_def IsEpochStart_def SlotInEpoch_def)
qed

lemma epoch_of_end:
  assumes "SlotOfEpochEnd si e = Ok s" "SlotsPerEpoch si \<noteq> 0"
  shows "SlotToEpoch si s = Ok e" "IsEpochEnd si s = Ok True"
proof -
  let ?n = "SlotsPerEpoch si"
  obtain s' where s': "SlotOfEpochStart si (e + 1) = Ok s'" "s = s' - 1" and e: "e \<noteq> - 1"
    using assms(1) by (auto simp: SlotOfEpochEnd_def rbind_eq_Ok split: if_splits)
  then show "IsEpochEnd si s = Ok True" using epoch_of_start[OF s'(1) assms(2)] by (simp add: IsEpochEnd_def)
  have n: "0 < unat ?n" using assms(2) by (simp add: unat_gt_0)
  have "unat e \<noteq> unat (- 1 :: u64)" using e by (simp only: word_unat_eq_iff not_False_eq_True)
  then have "unat e + 1 < 2 ^ 64" using unat_u64_less[of e] by (simp add: unsigned_minus_1_eq_mask mask_eq_exp_minus_1)
  then have e1: "unat (e + 1) = unat e + 1" by (simp add: unat_word_ariths(1))
  have m: "s' = ?n * (e + 1)" "unat ?n * unat (e + 1) < 2 ^ 64" using s'(1) by (simp_all add: SlotOfEpochStart_Ok)
  then have u': "unat s' = unat ?n * (unat e + 1)" by (simp add: unat_word_ariths(2) e1)
  then have "1 \<le> unat s'" using n by (simp add: Suc_le_eq)
  then have u: "unat s = unat ?n * (unat e + 1) - 1" unfolding s'(2) using u' by (subst unat_sub) (simp_all add: word_le_nat_alt)
  have "unat (s div ?n) = (unat ?n * unat e + (unat ?n - 1)) div unat ?n"
    unfolding unat_div u using n by (simp add: algebra_simps)
  also have "\<dots> = unat e" using n by (subst div_mult_self4) simp_all
  finally have "s div ?n = e" by (simp only: word_unat_eq_iff)
  then show "SlotToEpoch si s = Ok e" using assms(2) by (simp add: SlotToEpoch_def)
qed

section \<open>Properties\<close>

text \<open>C21. The slot clock is consistent: the first slot of an epoch, when it does not
  overflow, belongs to that epoch and starts it; the last slot belongs to it and ends it; and
  the computation reports an error exactly when the product does not fit in 64 bits.\<close>

theorem epoch_boundaries:
  assumes "SlotsPerEpoch si \<noteq> 0"
  shows "(SlotOfEpochStart si e = Ok s \<longrightarrow> SlotToEpoch si s = Ok e \<and> IsEpochStart si s = Ok True) \<and>
    (SlotOfEpochEnd si e = Ok s \<longrightarrow> SlotToEpoch si s = Ok e \<and> IsEpochEnd si s = Ok True) \<and>
    ((\<exists>r. SlotOfEpochStart si e = Ok r) \<longleftrightarrow> unat (SlotsPerEpoch si) * unat e < 2 ^ 64)"
  using epoch_of_start[OF _ assms] epoch_of_end[OF _ assms] by (simp add: SlotOfEpochStart_Ok)

theorem epoch_boundaries_witness:
  "SlotToEpoch \<lparr>GenesisTime = 0, SecondsPerSlot = 4, SlotsPerEpoch = 32\<rparr> 96 = Ok 3 \<and>
   IsEpochStart \<lparr>GenesisTime = 0, SecondsPerSlot = 4, SlotsPerEpoch = 32\<rparr> 96 = Ok True"
proof -
  let ?si = "\<lparr>GenesisTime = 0, SecondsPerSlot = 4, SlotsPerEpoch = 32\<rparr>"
  have "SlotOfEpochStart ?si 3 = Ok 96" by (simp add: SlotOfEpochStart_Ok)
  then show ?thesis using epoch_boundaries[of ?si 3 96] by simp
qed

text \<open>C22. Hash arrays: in-place deduplication gives the same array as \<^verbatim>\<open>Uniq\<close>, which keeps
  every hash exactly once, at its first place; \<^verbatim>\<open>Intersection\<close> gives the items of the argument that
  are in the array and \<^verbatim>\<open>Difference\<close> the items of the array that are not in the argument, both in
  order and with their repetitions; \<^verbatim>\<open>IsUniq\<close>, \<^verbatim>\<open>IsEqualTo\<close>, \<^verbatim>\<open>Has\<close> and \<^verbatim>\<open>Reverse\<close> compute
  distinctness, equality, membership and reversal.\<close>

theorem hash_array_laws:
  "ha_Deduplicate ha = ha_Uniq ha \<and> distinct (ha_Uniq ha) \<and> set (ha_Uniq ha) = set ha \<and>
   ha_Uniq ha = rev (remdups (rev ha)) \<and>
   ha_Intersection ha hb = filter (\<lambda>h. h \<in> set ha) hb \<and> set (ha_Intersection ha hb) = set ha \<inter> set hb \<and>
   ha_Difference ha hb = filter (\<lambda>h. h \<notin> set hb) ha \<and> set (ha_Difference ha hb) = set ha - set hb \<and>
   (ha_IsUniq ha \<longleftrightarrow> distinct ha) \<and> (ha_IsEqualTo ha hb \<longleftrightarrow> ha = hb) \<and>
   (ha_Has ha h \<longleftrightarrow> h \<in> set ha) \<and> ha_Reverse ha = rev ha"
  by (auto simp: ha_Deduplicate_Uniq uniq_distinct ha_Uniq_firsts[symmetric] ha_Intersection_filter ha_Difference_filter
      ha_IsUniq_distinct ha_IsEqualTo_eq ha_Has_set ha_Reverse_rev)

end
