(* ===== verification/Access_List.thy ===== *)
theory Access_List
  imports Common
begin

text \<open>
  The per-transaction access list (\<^verbatim>\<open>src/core/state/access_list.go\<close>): a map from addresses to
  an index into a list of slot sets, \<open>-1\<close> for an address without slots. It refines a pair of
  sets, and deletions performed in reverse order undo additions exactly.
\<close>

section \<open>The list and its operations\<close>

record accessList =
  al_addresses :: "address \<rightharpoonup> int"
  al_slots :: "hash set list"

definition newAccessList :: accessList where
  "newAccessList = \<lparr>al_addresses = Map.empty, al_slots = []\<rparr>"

definition ContainsAddress :: "accessList \<Rightarrow> address \<Rightarrow> bool" where
  "ContainsAddress al a \<longleftrightarrow> al_addresses al a \<noteq> None"

definition slot_map :: "accessList \<Rightarrow> int \<Rightarrow> hash set res" where
  "slot_map al idx = (if 0 \<le> idx then go_index (al_slots al) (nat idx) else Panic)"

definition Contains :: "accessList \<Rightarrow> address \<Rightarrow> hash \<Rightarrow> (bool \<times> bool) res" where
  "Contains al a slot =
     (case al_addresses al a of
        None \<Rightarrow> Ok (False, False)
      | Some idx \<Rightarrow>
          if idx = -1 then Ok (True, False)
          else rbind (slot_map al idx) (\<lambda>m. Ok (True, slot \<in> m)))"

definition AddAddress :: "accessList \<Rightarrow> address \<Rightarrow> bool \<times> accessList" where
  "AddAddress al a =
     (if al_addresses al a \<noteq> None then (False, al)
      else (True, al\<lparr>al_addresses := (al_addresses al)(a \<mapsto> -1)\<rparr>))"

definition AddSlot :: "accessList \<Rightarrow> address \<Rightarrow> hash \<Rightarrow> ((bool \<times> bool) \<times> accessList) res" where
  "AddSlot al a slot =
     (let fresh = \<lambda>present. Ok ((\<not> present, True),
            al\<lparr>al_addresses := (al_addresses al)(a \<mapsto> int (length (al_slots al))),
               al_slots := al_slots al @ [{slot}]\<rparr>)
      in case al_addresses al a of
           None \<Rightarrow> fresh False
         | Some idx \<Rightarrow>
             if idx = -1 then fresh True
             else rbind (slot_map al idx) (\<lambda>m.
               if slot \<notin> m
               then Ok ((False, True), al\<lparr>al_slots := (al_slots al)[nat idx := insert slot m]\<rparr>)
               else Ok ((False, False), al)))"

definition DeleteSlot :: "accessList \<Rightarrow> address \<Rightarrow> hash \<Rightarrow> accessList res" where
  "DeleteSlot al a slot =
     (case al_addresses al a of
        None \<Rightarrow> Panic
      | Some idx \<Rightarrow> rbind (slot_map al idx) (\<lambda>m.
          (let m' = m - {slot} in
           if m' = {}
           then rbind (go_slice (al_slots al) 0 (nat idx)) (\<lambda>s.
                  Ok (al\<lparr>al_slots := s, al_addresses := (al_addresses al)(a \<mapsto> -1)\<rparr>))
           else Ok (al\<lparr>al_slots := (al_slots al)[nat idx := m']\<rparr>))))"

definition DeleteAddress :: "accessList \<Rightarrow> address \<Rightarrow> accessList" where
  "DeleteAddress al a = al\<lparr>al_addresses := (al_addresses al)(a := None)\<rparr>"

section \<open>Representation invariant and the sets it represents\<close>

definition al_inv :: "accessList \<Rightarrow> bool" where
  "al_inv al \<longleftrightarrow>
     (\<forall>a i. al_addresses al a = Some i \<longrightarrow> i = -1 \<or> 0 \<le> i \<and> i < int (length (al_slots al))) \<and>
     (\<forall>a b i. al_addresses al a = Some i \<and> al_addresses al b = Some i \<and> i \<noteq> -1 \<longrightarrow> a = b) \<and>
     {} \<notin> set (al_slots al)"

definition al_pairs :: "accessList \<Rightarrow> (address \<times> hash) set" where
  "al_pairs al = {(a, s). \<exists>i. al_addresses al a = Some (int i) \<and> i < length (al_slots al) \<and> s \<in> al_slots al ! i}"

lemma slot_map_int [simp]: "slot_map al (int i) = (if i < length (al_slots al) then Ok (al_slots al ! i) else Panic)"
  by (simp add: slot_map_def go_index_def)

lemma al_inv_new: "al_inv newAccessList"
  by (simp add: al_inv_def newAccessList_def)

lemma al_inv_cases:
  assumes "al_inv al"
  obtains (absent) "al_addresses al a = None"
    | (bare) "al_addresses al a = Some (-1)"
    | (slots) i where "al_addresses al a = Some (int i)" "i < length (al_slots al)" "al_slots al ! i \<noteq> {}"
proof (cases "al_addresses al a")
  case (Some i)
  then have "i = -1 \<or> 0 \<le> i \<and> i < int (length (al_slots al))" using assms by (auto simp: al_inv_def)
  then show ?thesis
  proof
    assume i: "0 \<le> i \<and> i < int (length (al_slots al))"
    then have "nat i < length (al_slots al)" by linarith
    moreover from this have "al_slots al ! nat i \<noteq> {}" using assms by (metis al_inv_def nth_mem)
    ultimately show ?thesis using slots[of "nat i"] Some i by simp
  qed (use Some bare in simp)
qed (rule absent)

lemma Contains_pairs:
  assumes "al_inv al"
  shows "Contains al a s = Ok (ContainsAddress al a, (a, s) \<in> al_pairs al)"
  by (rule al_inv_cases[OF assms, of a]) (auto simp: Contains_def ContainsAddress_def al_pairs_def)

lemma AddAddress_inv: "al_inv al \<Longrightarrow> al_inv (snd (AddAddress al a))"
  by (auto simp: AddAddress_def al_inv_def)

lemma AddSlot_fresh_inv:
  assumes "al_inv al"
  shows "al_inv (al\<lparr>al_addresses := (al_addresses al)(a \<mapsto> int (length (al_slots al))),
      al_slots := al_slots al @ [{s}]\<rparr>)"
  using assms unfolding al_inv_def by (fastforce split: if_splits)

lemma AddSlot_old_inv:
  assumes "al_inv al" "i < length (al_slots al)"
  shows "al_inv (al\<lparr>al_slots := (al_slots al)[i := insert s m]\<rparr>)"
  using assms by (auto simp: al_inv_def dest!: set_update_subset_insert[THEN subsetD])

lemma pairs_fresh:
  assumes "al_inv al" "al_addresses al a = None \<or> al_addresses al a = Some (-1)"
  shows "al_pairs (al\<lparr>al_addresses := (al_addresses al)(a \<mapsto> int (length (al_slots al))),
      al_slots := al_slots al @ [{s}]\<rparr>) = insert (a, s) (al_pairs al)"
proof -
  have "(a, t) \<notin> al_pairs al" for t using assms(2) by (auto simp: al_pairs_def)
  moreover have "i < length (al_slots al)" if "al_addresses al b = Some (int i)" for b i
    using assms(1) that unfolding al_inv_def by fastforce
  ultimately show ?thesis by (auto simp: al_pairs_def nth_append)
qed

lemma pairs_old:
  assumes "al_inv al" "al_addresses al a = Some (int i)" "i < length (al_slots al)"
  shows "al_pairs (al\<lparr>al_slots := (al_slots al)[i := insert s (al_slots al ! i)]\<rparr>) = insert (a, s) (al_pairs al)"
proof -
  have u: "b = a" if "al_addresses al b = Some (int i)" for b
  proof -
    have "int i \<noteq> -1" by simp
    then show ?thesis using assms(1,2) that unfolding al_inv_def by blast
  qed
  show ?thesis using assms(2,3) by (auto simp: al_pairs_def nth_list_update dest: u split: if_splits)
qed

definition al_undo_slot :: "accessList \<Rightarrow> address \<Rightarrow> accessList" where
  "al_undo_slot al a = (if ContainsAddress al a then al else al\<lparr>al_addresses := (al_addresses al)(a \<mapsto> -1)\<rparr>)"

lemma accessList_eqI:
  "al_addresses x = al_addresses y \<Longrightarrow> al_slots x = al_slots y \<Longrightarrow> x = (y :: accessList)"
  by simp

lemma AddSlot_spec:
  assumes inv: "al_inv al"
  obtains al' where "AddSlot al a s = Ok ((\<not> ContainsAddress al a, (a, s) \<notin> al_pairs al), al')"
    "al_inv al'" "al_pairs al' = insert (a, s) (al_pairs al)"
    "\<forall>b. ContainsAddress al' b \<longleftrightarrow> b = a \<or> ContainsAddress al b"
    "(a, s) \<in> al_pairs al \<longrightarrow> al' = al"
    "(a, s) \<notin> al_pairs al \<longrightarrow> DeleteSlot al' a s = Ok (al_undo_slot al a)"
proof -
  note result = that
  let ?n = "al\<lparr>al_addresses := (al_addresses al)(a \<mapsto> int (length (al_slots al))), al_slots := al_slots al @ [{s}]\<rparr>"
  have del: "DeleteSlot ?n a s = Ok (al\<lparr>al_addresses := (al_addresses al)(a \<mapsto> -1)\<rparr>)"
    by (simp add: DeleteSlot_def Let_def go_slice_def)
  have fresh: thesis if n: "al_addresses al a = None \<or> al_addresses al a = Some (-1)"
  proof (rule result[of ?n])
    have np: "(a, s) \<notin> al_pairs al" using n by (auto simp: al_pairs_def)
    show "AddSlot al a s = Ok ((\<not> ContainsAddress al a, (a, s) \<notin> al_pairs al), ?n)"
      using n np by (auto simp: AddSlot_def ContainsAddress_def)
    show "al_inv ?n" by (rule AddSlot_fresh_inv[OF inv])
    show "al_pairs ?n = insert (a, s) (al_pairs al)" by (rule pairs_fresh[OF inv n])
    show "(a, s) \<notin> al_pairs al \<longrightarrow> DeleteSlot ?n a s = Ok (al_undo_slot al a)"
      using n del by (auto simp: al_undo_slot_def ContainsAddress_def intro!: accessList_eqI)
  qed (use n in \<open>auto simp: ContainsAddress_def al_pairs_def\<close>)
  show thesis
  proof (rule al_inv_cases[OF inv, of a])
    fix i assume i: "al_addresses al a = Some (int i)" "i < length (al_slots al)" "al_slots al ! i \<noteq> {}"
    have p: "(a, s) \<in> al_pairs al \<longleftrightarrow> s \<in> al_slots al ! i" using i by (auto simp: al_pairs_def)
    let ?o = "al\<lparr>al_slots := (al_slots al)[i := insert s (al_slots al ! i)]\<rparr>"
    show thesis
    proof (rule result[of ?o])
      have same: "s \<in> al_slots al ! i \<Longrightarrow> ?o = al" by (simp add: insert_absorb)
      then show "AddSlot al a s = Ok ((\<not> ContainsAddress al a, (a, s) \<notin> al_pairs al), ?o)"
        using i p by (simp add: AddSlot_def ContainsAddress_def)
      show "al_inv ?o" by (rule AddSlot_old_inv[OF inv i(2)])
      show "al_pairs ?o = insert (a, s) (al_pairs al)" by (rule pairs_old[OF inv i(1,2)])
      show "(a, s) \<in> al_pairs al \<longrightarrow> ?o = al" using same p by blast
      show "(a, s) \<notin> al_pairs al \<longrightarrow> DeleteSlot ?o a s = Ok (al_undo_slot al a)"
      proof
        assume np: "(a, s) \<notin> al_pairs al"
        have "\<not> al_slots al ! i \<subseteq> {s}" using i(3) p np by blast
        then show "DeleteSlot ?o a s = Ok (al_undo_slot al a)" using i p np by (simp add: DeleteSlot_def Let_def al_undo_slot_def ContainsAddress_def)
      qed
    qed (use i in \<open>auto simp: ContainsAddress_def\<close>)
  qed (simp_all add: fresh)
qed

lemma AddAddress_spec:
  "fst (AddAddress al a) \<longleftrightarrow> \<not> ContainsAddress al a"
  "al_pairs (snd (AddAddress al a)) = al_pairs al"
  "ContainsAddress (snd (AddAddress al a)) b \<longleftrightarrow> b = a \<or> ContainsAddress al b"
  by (auto simp: AddAddress_def ContainsAddress_def al_pairs_def split: if_splits)

lemma DeleteAddress_undo:
  "\<not> ContainsAddress al a \<Longrightarrow> DeleteAddress (snd (AddAddress al a)) a = al"
  "\<not> ContainsAddress al a \<Longrightarrow> DeleteAddress (al_undo_slot al a) a = al"
  by (auto simp: DeleteAddress_def AddAddress_def ContainsAddress_def al_undo_slot_def fun_upd_idem)

end
