(* ===== verification/Rlp_Encode.thy ===== *)
theory Rlp_Encode
  imports Prelude
begin

text \<open>
  Package \<^verbatim>\<open>rlp\<close>, the encoder (\<^verbatim>\<open>src/rlp/encode.go\<close>, the size helpers of
  \<^verbatim>\<open>src/rlp/raw.go\<close>). Go picks a writer per reflected type; here the reflected type is a
  value of \<open>rtype\<close>, the reflected value an \<open>rval\<close>, and \<open>writeVal\<close> is the writer that
  \<^verbatim>\<open>makeWriter\<close> would build. The writers append to an \<open>encbuf\<close>, which keeps string data
  and list headers apart; \<open>toBytes\<close> merges them. The reference semantics is \<open>enc\<close> on
  RLP items; the encoder is proved equal to it.
\<close>

section \<open>Sizes and headers\<close>

lemma unat_drop_bit_u64: "unat (drop_bit m (i :: u64)) = unat i div 2 ^ m"
  by (rule trans[OF unat_drop_bit_eq]) (simp add: drop_bit_eq_div)

lemma unat_drop_bit8: "unat (drop_bit 8 (i :: u64)) = unat i div 256"
  by (rule trans[OF unat_drop_bit_u64]) simp

function intsize_loop :: "nat \<Rightarrow> u64 \<Rightarrow> nat" where
  "intsize_loop sz i =
     (let i' = drop_bit 8 i in if i' = 0 then sz else intsize_loop (Suc sz) i')"
  by pat_completeness auto

termination
proof (relation "measure (\<lambda>(s, i). unat i)")
  fix sz :: nat and i x :: u64
  assume x: "x = drop_bit 8 i" "x \<noteq> 0"
  have "unat x = unat i div 256" by (simp only: x(1) unat_drop_bit8)
  moreover have "0 < unat x" using x(2) by (simp only: unat_gt_0 not_False_eq_True)
  ultimately show "((Suc sz, x), (sz, i)) \<in> measure (\<lambda>(s, i). unat i)" by simp
qed simp

declare intsize_loop.simps [simp del]

definition intsize :: "u64 \<Rightarrow> nat" where
  "intsize i = intsize_loop 1 i"

definition putint :: "u64 \<Rightarrow> bytes" where
  "putint i =
     (if i < 2 ^ 8 then [ucast i]
      else if i < 2 ^ 16 then [ucast (drop_bit 8 i), ucast i]
      else if i < 2 ^ 24 then [ucast (drop_bit 16 i), ucast (drop_bit 8 i), ucast i]
      else if i < 2 ^ 32 then
        [ucast (drop_bit 24 i), ucast (drop_bit 16 i), ucast (drop_bit 8 i), ucast i]
      else if i < 2 ^ 40 then
        [ucast (drop_bit 32 i), ucast (drop_bit 24 i), ucast (drop_bit 16 i),
         ucast (drop_bit 8 i), ucast i]
      else if i < 2 ^ 48 then
        [ucast (drop_bit 40 i), ucast (drop_bit 32 i), ucast (drop_bit 24 i),
         ucast (drop_bit 16 i), ucast (drop_bit 8 i), ucast i]
      else if i < 2 ^ 56 then
        [ucast (drop_bit 48 i), ucast (drop_bit 40 i), ucast (drop_bit 32 i),
         ucast (drop_bit 24 i), ucast (drop_bit 16 i), ucast (drop_bit 8 i), ucast i]
      else
        [ucast (drop_bit 56 i), ucast (drop_bit 48 i), ucast (drop_bit 40 i),
         ucast (drop_bit 32 i), ucast (drop_bit 24 i), ucast (drop_bit 16 i),
         ucast (drop_bit 8 i), ucast i])"

definition headsize :: "u64 \<Rightarrow> nat" where
  "headsize n = (if n < 56 then 1 else 1 + intsize n)"

definition puthead :: "byte \<Rightarrow> byte \<Rightarrow> u64 \<Rightarrow> bytes" where
  "puthead smalltag largetag n =
     (if n < 56 then [smalltag + ucast n]
      else let sz = putint n in (largetag + word_of_nat (length sz)) # sz)"

definition ListSize :: "u64 \<Rightarrow> u64" where
  "ListSize contentSize = word_of_nat (headsize contentSize) + contentSize"

definition IntSize :: "u64 \<Rightarrow> nat" where
  "IntSize x = (if x < 0x80 then 1 else 1 + intsize x)"

subsection \<open>The minimal big-endian form\<close>

function nbytes :: "nat \<Rightarrow> nat" where
  "nbytes n = (if n < 256 then 1 else Suc (nbytes (n div 256)))"
  by pat_completeness auto
termination
  by (relation "measure id") auto

declare nbytes.simps [simp del]

definition min_be :: "nat \<Rightarrow> bytes" where
  "min_be n = (if n = 0 then [] else to_be (nbytes n) n)"

lemma nbytes_pos [simp]: "0 < nbytes n"
  by (subst nbytes.simps) simp

lemma nbytes_upper: "n < 256 ^ nbytes n"
proof (induction n rule: nbytes.induct)
  case (1 n)
  show ?case
  proof (cases "n < 256")
    case False
    then have "n div 256 < 256 ^ nbytes (n div 256)" by (rule "1.IH")
    then have "n < 256 * 256 ^ nbytes (n div 256)" by (simp add: div_less_iff_less_mult mult.commute)
    with False show ?thesis by (subst nbytes.simps) simp
  qed (subst nbytes.simps, simp)
qed

lemma nbytes_lower: "n \<noteq> 0 \<Longrightarrow> 256 ^ (nbytes n - 1) \<le> n"
proof (induction n rule: nbytes.induct)
  case (1 n)
  show ?case
  proof (cases "n < 256")
    case False
    then have "256 ^ (nbytes (n div 256) - 1) \<le> n div 256" by (intro "1.IH") auto
    then have "256 ^ (nbytes (n div 256) - 1) * 256 \<le> n"
      by (simp add: less_eq_div_iff_mult_less_eq)
    moreover have "256 ^ (nbytes (n div 256) - 1) * (256::nat) = 256 ^ nbytes (n div 256)"
      by (metis nbytes_pos Suc_diff_1 power_Suc2)
    ultimately show ?thesis using False by (subst nbytes.simps) simp
  next
    case True
    with "1.prems" show ?thesis by (subst nbytes.simps) simp
  qed
qed

lemma nbytes_unique:
  assumes "256 ^ (k - 1) \<le> n" "n < 256 ^ k" "0 < k"
  shows "nbytes n = k"
proof (rule antisym)
  have "n \<noteq> 0" using assms(1) by (metis less_numeral_extra(3) not_le zero_less_power zero_less_numeral)
  then have "(256::nat) ^ (nbytes n - 1) < 256 ^ k" using nbytes_lower assms(2) by (blast intro: le_less_trans)
  then have "nbytes n - 1 < k" by simp
  then show "nbytes n \<le> k" by linarith
  have "(256::nat) ^ (k - 1) < 256 ^ nbytes n" using assms(1) nbytes_upper by (rule le_less_trans)
  then have "k - 1 < nbytes n" by simp
  then show "k \<le> nbytes n" by linarith
qed

lemma nbytes_le_8: "n < 2 ^ 64 \<Longrightarrow> nbytes n \<le> 8"
proof -
  assume n: "n < 2 ^ 64"
  show ?thesis
  proof (cases "n = 0")
    case True
    then show ?thesis by (simp add: nbytes.simps)
  next
    case False
    then have "(256::nat) ^ (nbytes n - 1) < 256 ^ 8"
      using nbytes_lower[of n] n by simp
    then have "nbytes n - 1 < 8" by (rule power_less_imp_less_exp[rotated]) simp
    then show ?thesis by linarith
  qed
qed

lemma intsize_loop_eq: "intsize_loop s i + 1 = s + nbytes (unat i)"
proof (induction s i rule: intsize_loop.induct)
  case (1 s i)
  have z: "drop_bit 8 i = 0 \<longleftrightarrow> unat i < 256"
    by (metis unat_drop_bit8 unat_eq_zero unsigned_0 div_eq_0_iff zero_neq_numeral)
  show ?case
  proof (cases "unat i < 256")
    case True
    then show ?thesis using z by (simp add: intsize_loop.simps[of s i] nbytes.simps[of "unat i"] Let_def)
  next
    case False
    then have "intsize_loop (Suc s) (drop_bit 8 i) + 1 = Suc s + nbytes (unat i div 256)"
      using "1" z by (simp add: unat_drop_bit8)
    with False z show ?thesis
      by (simp add: intsize_loop.simps[of s i] nbytes.simps[of "unat i"] Let_def)
  qed
qed

lemma intsize_eq [simp]: "intsize i = nbytes (unat i)"
  using intsize_loop_eq[of 1 i] by (simp add: intsize_def)

lemma ucast_byte: "(ucast (i :: u64) :: byte) = word_of_nat (unat i)"
  by (rule word_unat_eq_iff[THEN iffD2])
     (simp only: unsigned_ucast_eq take_bit_eq_mod unat_byte_of_nat, simp)

lemma to_be_pow2:
  "to_be 2 x = [word_of_nat (x div 2 ^ 8), word_of_nat x]"
  "to_be 3 x = [word_of_nat (x div 2 ^ 16), word_of_nat (x div 2 ^ 8), word_of_nat x]"
  "to_be 4 x = [word_of_nat (x div 2 ^ 24), word_of_nat (x div 2 ^ 16), word_of_nat (x div 2 ^ 8),
     word_of_nat x]"
  "to_be 5 x = [word_of_nat (x div 2 ^ 32), word_of_nat (x div 2 ^ 24), word_of_nat (x div 2 ^ 16),
     word_of_nat (x div 2 ^ 8), word_of_nat x]"
  "to_be 6 x = [word_of_nat (x div 2 ^ 40), word_of_nat (x div 2 ^ 32), word_of_nat (x div 2 ^ 24),
     word_of_nat (x div 2 ^ 16), word_of_nat (x div 2 ^ 8), word_of_nat x]"
  "to_be 7 x = [word_of_nat (x div 2 ^ 48), word_of_nat (x div 2 ^ 40), word_of_nat (x div 2 ^ 32),
     word_of_nat (x div 2 ^ 24), word_of_nat (x div 2 ^ 16), word_of_nat (x div 2 ^ 8),
     word_of_nat x]"
  "to_be 8 x = [word_of_nat (x div 2 ^ 56), word_of_nat (x div 2 ^ 48), word_of_nat (x div 2 ^ 40),
     word_of_nat (x div 2 ^ 32), word_of_nat (x div 2 ^ 24), word_of_nat (x div 2 ^ 16),
     word_of_nat (x div 2 ^ 8), word_of_nat x]"
  by (simp_all add: codec_simps)

lemma u64_less_power: "k < 64 \<Longrightarrow> (i :: u64) < 2 ^ k \<longleftrightarrow> unat i < 2 ^ k"
  by (simp only: word_less_nat_alt unat_u64_power)

lemma u64_ladder:
  "(i :: u64) < 2 ^ 8 \<longleftrightarrow> unat i < 2 ^ 8" "i < 2 ^ 16 \<longleftrightarrow> unat i < 2 ^ 16"
  "i < 2 ^ 24 \<longleftrightarrow> unat i < 2 ^ 24" "i < 2 ^ 32 \<longleftrightarrow> unat i < 2 ^ 32"
  "i < 2 ^ 40 \<longleftrightarrow> unat i < 2 ^ 40" "i < 2 ^ 48 \<longleftrightarrow> unat i < 2 ^ 48"
  "i < 2 ^ 56 \<longleftrightarrow> unat i < 2 ^ 56"
  by (rule u64_less_power; simp)+

lemmas putint_simps = putint_def unat_drop_bit_u64 ucast_byte u64_ladder to_be_pow2
  if_True if_False not_False_eq_True

lemma putint_eq: "putint i = to_be (nbytes (unat i)) (unat i)"
proof -
  let ?n = "unat i"
  have b: "?n < 2 ^ 64" by (rule unat_u64_less)
  consider "?n < 2 ^ 8" | "2 ^ 8 \<le> ?n" "?n < 2 ^ 16"
    | "2 ^ 16 \<le> ?n" "?n < 2 ^ 24" | "2 ^ 24 \<le> ?n" "?n < 2 ^ 32"
    | "2 ^ 32 \<le> ?n" "?n < 2 ^ 40" | "2 ^ 40 \<le> ?n" "?n < 2 ^ 48"
    | "2 ^ 48 \<le> ?n" "?n < 2 ^ 56" | "2 ^ 56 \<le> ?n"
    by linarith
  then show ?thesis
  proof cases
    case 1
    then have "nbytes ?n = 1" by (subst nbytes.simps) simp
    then show ?thesis using 1 by (simp only: putint_simps to_be_1)
  next
    case 2
    have "nbytes ?n = 2" using 2 b by (intro nbytes_unique) simp_all
    moreover have "\<not> ?n < 2 ^ 8" using 2 by simp_all
    ultimately show ?thesis using 2 by (simp only: putint_simps)
  next
    case 3
    have "nbytes ?n = 3" using 3 b by (intro nbytes_unique) simp_all
    moreover have "\<not> ?n < 2 ^ 8" "\<not> ?n < 2 ^ 16" using 3 by simp_all
    ultimately show ?thesis using 3 by (simp only: putint_simps)
  next
    case 4
    have "nbytes ?n = 4" using 4 b by (intro nbytes_unique) simp_all
    moreover have "\<not> ?n < 2 ^ 8" "\<not> ?n < 2 ^ 16" "\<not> ?n < 2 ^ 24" using 4 by simp_all
    ultimately show ?thesis using 4 by (simp only: putint_simps)
  next
    case 5
    have "nbytes ?n = 5" using 5 b by (intro nbytes_unique) simp_all
    moreover have "\<not> ?n < 2 ^ 8" "\<not> ?n < 2 ^ 16" "\<not> ?n < 2 ^ 24" "\<not> ?n < 2 ^ 32" using 5 by simp_all
    ultimately show ?thesis using 5 by (simp only: putint_simps)
  next
    case 6
    have "nbytes ?n = 6" using 6 b by (intro nbytes_unique) simp_all
    moreover have "\<not> ?n < 2 ^ 8" "\<not> ?n < 2 ^ 16" "\<not> ?n < 2 ^ 24" "\<not> ?n < 2 ^ 32" "\<not> ?n < 2 ^ 40" using 6 by simp_all
    ultimately show ?thesis using 6 by (simp only: putint_simps)
  next
    case 7
    have "nbytes ?n = 7" using 7 b by (intro nbytes_unique) simp_all
    moreover have "\<not> ?n < 2 ^ 8" "\<not> ?n < 2 ^ 16" "\<not> ?n < 2 ^ 24" "\<not> ?n < 2 ^ 32" "\<not> ?n < 2 ^ 40" "\<not> ?n < 2 ^ 48" using 7 by simp_all
    ultimately show ?thesis using 7 by (simp only: putint_simps)
  next
    case 8
    have "nbytes ?n = 8" using 8 b by (intro nbytes_unique) simp_all
    moreover have "\<not> ?n < 2 ^ 8" "\<not> ?n < 2 ^ 16" "\<not> ?n < 2 ^ 24" "\<not> ?n < 2 ^ 32" "\<not> ?n < 2 ^ 40" "\<not> ?n < 2 ^ 48" "\<not> ?n < 2 ^ 56" using 8 by simp_all
    ultimately show ?thesis using 8 by (simp only: putint_simps)
  qed
qed


lemma putint_length: "length (putint i) = nbytes (unat i)"
  by (simp add: putint_eq)

lemma puthead_length: "length (puthead st lt n) = headsize n"
  by (simp add: puthead_def headsize_def putint_length Let_def)

definition AppendUint64 :: "bytes \<Rightarrow> u64 \<Rightarrow> bytes" where
  "AppendUint64 b i =
     (if i = 0 then b @ [0x80]
      else if i < 128 then b @ [ucast i]
      else if i < 2 ^ 8 then b @ [0x81, ucast i]
      else if i < 2 ^ 16 then b @ [0x82, ucast (drop_bit 8 i), ucast i]
      else if i < 2 ^ 24 then b @ [0x83, ucast (drop_bit 16 i), ucast (drop_bit 8 i), ucast i]
      else if i < 2 ^ 32 then
        b @ [0x84, ucast (drop_bit 24 i), ucast (drop_bit 16 i), ucast (drop_bit 8 i), ucast i]
      else if i < 2 ^ 40 then
        b @ [0x85, ucast (drop_bit 32 i), ucast (drop_bit 24 i), ucast (drop_bit 16 i),
             ucast (drop_bit 8 i), ucast i]
      else if i < 2 ^ 48 then
        b @ [0x86, ucast (drop_bit 40 i), ucast (drop_bit 32 i), ucast (drop_bit 24 i),
             ucast (drop_bit 16 i), ucast (drop_bit 8 i), ucast i]
      else if i < 2 ^ 56 then
        b @ [0x87, ucast (drop_bit 48 i), ucast (drop_bit 40 i), ucast (drop_bit 32 i),
             ucast (drop_bit 24 i), ucast (drop_bit 16 i), ucast (drop_bit 8 i), ucast i]
      else
        b @ [0x88, ucast (drop_bit 56 i), ucast (drop_bit 48 i), ucast (drop_bit 40 i),
             ucast (drop_bit 32 i), ucast (drop_bit 24 i), ucast (drop_bit 16 i),
             ucast (drop_bit 8 i), ucast i])"

section \<open>The encoder buffer\<close>

text \<open>\<^verbatim>\<open>listhead\<close> and \<^verbatim>\<open>encbuf\<close>; \<^verbatim>\<open>sizebuf\<close> is scratch space of single calls.
  Sizes are Go ints; string lengths are list lengths.\<close>

record listhead =
  lh_offset :: nat
  lh_size :: int

record encbuf =
  eb_str :: bytes
  eb_lheads :: "listhead list"
  eb_lhsize :: int

definition reset :: encbuf where
  "reset = \<lparr>eb_str = [], eb_lheads = [], eb_lhsize = 0\<rparr>"

definition eb_append :: "bytes \<Rightarrow> encbuf \<Rightarrow> encbuf" where
  "eb_append b w = w\<lparr>eb_str := eb_str w @ b\<rparr>"

definition listhead_encode :: "listhead \<Rightarrow> bytes" where
  "listhead_encode h = puthead 0xC0 0xF7 (word_of_int (lh_size h))"

definition encodeStringHeader :: "nat \<Rightarrow> encbuf \<Rightarrow> encbuf" where
  "encodeStringHeader n w =
     (if n < 56 then eb_append [0x80 + word_of_nat n] w
      else let sz = putint (word_of_nat n)
           in eb_append ((0xB7 + word_of_nat (length sz)) # sz) w)"

definition encodeString :: "bytes \<Rightarrow> encbuf \<Rightarrow> encbuf" where
  "encodeString b w =
     (if length b = 1 \<and> b ! 0 \<le> 0x7F then eb_append [b ! 0] w
      else eb_append b (encodeStringHeader (length b) w))"

definition encodeUint :: "u64 \<Rightarrow> encbuf \<Rightarrow> encbuf" where
  "encodeUint i w =
     (if i = 0 then eb_append [0x80] w
      else if i < 128 then eb_append [ucast i] w
      else let sz = putint i in eb_append ((0x80 + word_of_nat (length sz)) # sz) w)"

definition eb_size :: "encbuf \<Rightarrow> int" where
  "eb_size w = int (length (eb_str w)) + eb_lhsize w"

definition eb_list :: "encbuf \<Rightarrow> nat \<times> encbuf" where
  "eb_list w =
     (length (eb_lheads w),
      w\<lparr>eb_lheads := eb_lheads w @ [\<lparr>lh_offset = length (eb_str w), lh_size = eb_lhsize w\<rparr>]\<rparr>)"

definition eb_listEnd :: "nat \<Rightarrow> encbuf \<Rightarrow> encbuf" where
  "eb_listEnd index w =
     (let lh = eb_lheads w ! index;
          sz = eb_size w - int (lh_offset lh) - lh_size lh
      in w\<lparr>eb_lheads := (eb_lheads w)[index := lh\<lparr>lh_size := sz\<rparr>],
           eb_lhsize := eb_lhsize w +
             (if sz < 56 then 1 else 1 + int (intsize (word_of_int sz)))\<rparr>)"

fun toBytes_loop :: "bytes \<Rightarrow> nat \<Rightarrow> listhead list \<Rightarrow> bytes" where
  "toBytes_loop str strpos [] = drop strpos str"
| "toBytes_loop str strpos (h # hs) =
     take (lh_offset h - strpos) (drop strpos str) @ listhead_encode h
     @ toBytes_loop str (lh_offset h) hs"

text \<open>The output is built by appending; the code writes it into a buffer of \<^verbatim>\<open>w.size()\<close> bytes, which
  is exactly its length.\<close>

definition toBytes :: "encbuf \<Rightarrow> bytes" where
  "toBytes w = toBytes_loop (eb_str w) 0 (eb_lheads w)"

subsection \<open>Big integers\<close>

text \<open>\<^verbatim>\<open>big.Int.BitLen\<close> and \<^verbatim>\<open>big.Int.Bits\<close> (little-endian machine words) of the
  absolute value.\<close>

function bitlen :: "nat \<Rightarrow> nat" where
  "bitlen n = (if n = 0 then 0 else Suc (bitlen (n div 2)))"
  by pat_completeness auto
termination
  by (relation "measure id") auto

declare bitlen.simps [simp del]

function bigBits :: "nat \<Rightarrow> u64 list" where
  "bigBits n = (if n = 0 then [] else word_of_nat n # bigBits (n div 2 ^ 64))"
  by pat_completeness auto
termination
  by (relation "measure id") auto

declare bigBits.simps [simp del]

text \<open>The two nested loops of \<^verbatim>\<open>writeBigInt\<close> that fill \<^verbatim>\<open>buf\<close> from its end.\<close>

fun fillWord :: "nat \<Rightarrow> u64 \<Rightarrow> nat \<Rightarrow> bytes \<Rightarrow> nat \<times> bytes" where
  "fillWord 0 d index buf = (index, buf)"
| "fillWord (Suc j) d index buf =
     (if index > 0 then fillWord j (drop_bit 8 d) (index - 1) (buf[index - 1 := ucast d])
      else (index, buf))"

fun fillWords :: "u64 list \<Rightarrow> nat \<Rightarrow> bytes \<Rightarrow> bytes" where
  "fillWords [] index buf = buf"
| "fillWords (d # ds) index buf =
     (let (index', buf') = fillWord 8 d index buf in fillWords ds index' buf')"

definition writeBigInt :: "int \<Rightarrow> encbuf \<Rightarrow> encbuf res" where
  "writeBigInt i w =
     (if i < 0 then Err (RlpErr NegativeBigInt)
      else if bitlen (nat i) \<le> 64 then Ok (encodeUint (word_of_int i) w)
      else let len = (bitlen (nat i) + 7) div 8
           in Ok (eb_append (fillWords (bigBits (nat i)) len (replicate len 0))
                    (encodeStringHeader len w)))"

section \<open>Reflected types, values and writers\<close>

text \<open>
  The reflected types that the modelled structures use. \<open>TBigInt\<close> is \<^verbatim>\<open>*big.Int\<close>,
  \<open>TBigIntVal\<close> is \<^verbatim>\<open>big.Int\<close>, \<open>TBytes\<close> a byte slice, \<open>TByteArray n\<close> is \<^verbatim>\<open>[n]byte\<close>,
  \<open>TSlice\<close> a slice of another element type. Raw values, interfaces, custom
  encoders and struct tags do not occur in the modelled structures.
\<close>

datatype rtype =
    TUint nat
  | TBool
  | TString
  | TBigInt
  | TBigIntVal
  | TBytes
  | TByteArray nat
  | TSlice rtype
  | TStruct "rtype list"
  | TPtr rtype

datatype rval =
    VUint u64
  | VBool bool
  | VBig "int option"
  | VBytes bytes
  | VList "rval list"
  | VPtr "rval option"

datatype nilKind = NilString | NilList

fun defaultNilKind :: "rtype \<Rightarrow> nilKind" where
  "defaultNilKind (TUint n) = NilString"
| "defaultNilKind TString = NilString"
| "defaultNilKind TBool = NilString"
| "defaultNilKind TBytes = NilString"
| "defaultNilKind (TByteArray n) = NilString"
| "defaultNilKind t = NilList"

definition nilEncoding :: "rtype \<Rightarrow> byte" where
  "nilEncoding t = (case defaultNilKind t of NilString \<Rightarrow> 0x80 | NilList \<Rightarrow> 0xC0)"

fun writeByteArray :: "nat \<Rightarrow> bytes \<Rightarrow> encbuf \<Rightarrow> encbuf" where
  "writeByteArray n b w =
     (if n = 0 then eb_append [0x80] w
      else if n = 1 then
        (if b ! 0 \<le> 0x7F then eb_append [b ! 0] w else eb_append [0x81, b ! 0] w)
      else eb_append b (encodeStringHeader (length b) w))"

fun writeElems :: "('a \<Rightarrow> encbuf \<Rightarrow> encbuf res) \<Rightarrow> 'a list \<Rightarrow> encbuf \<Rightarrow> encbuf res" where
  "writeElems wr [] w = Ok w"
| "writeElems wr (v # vs) w = rbind (wr v w) (writeElems wr vs)"

fun writeFields ::
  "(rval \<Rightarrow> encbuf \<Rightarrow> encbuf res) list \<Rightarrow> rval list \<Rightarrow> encbuf \<Rightarrow> encbuf res" where
  "writeFields [] [] w = Ok w"
| "writeFields (wr # wrs) (v # vs) w = rbind (wr v w) (writeFields wrs vs)"
| "writeFields _ _ w = Panic"

text \<open>A value whose shape is not that of its type cannot be reflected: \<open>Panic\<close>.\<close>

primrec writeVal :: "rtype \<Rightarrow> rval \<Rightarrow> encbuf \<Rightarrow> encbuf res" where
  "writeVal (TUint n) v w = (case v of VUint u \<Rightarrow> Ok (encodeUint u w) | _ \<Rightarrow> Panic)"
| "writeVal TBool v w =
     (case v of VBool b \<Rightarrow> Ok (eb_append [if b then 0x01 else 0x80] w) | _ \<Rightarrow> Panic)"
| "writeVal TString v w = (case v of VBytes b \<Rightarrow> Ok (encodeString b w) | _ \<Rightarrow> Panic)"
| "writeVal TBigInt v w =
     (case v of VBig None \<Rightarrow> Ok (eb_append [0x80] w) | VBig (Some i) \<Rightarrow> writeBigInt i w
      | _ \<Rightarrow> Panic)"
| "writeVal TBigIntVal v w = (case v of VBig (Some i) \<Rightarrow> writeBigInt i w | _ \<Rightarrow> Panic)"
| "writeVal TBytes v w = (case v of VBytes b \<Rightarrow> Ok (encodeString b w) | _ \<Rightarrow> Panic)"
| "writeVal (TByteArray n) v w =
     (case v of VBytes b \<Rightarrow> Ok (writeByteArray n b w) | _ \<Rightarrow> Panic)"
| "writeVal (TSlice t) v w =
     (case v of
        VList vs \<Rightarrow>
          (if vs = [] then Ok (eb_append [0xC0] w)
           else let (lh, w1) = eb_list w
                in rbind (writeElems (writeVal t) vs w1) (\<lambda>w2. Ok (eb_listEnd lh w2)))
      | _ \<Rightarrow> Panic)"
| "writeVal (TStruct ts) v w =
     (case v of
        VList vs \<Rightarrow>
          (let (lh, w1) = eb_list w
           in rbind (writeFields (map writeVal ts) vs w1) (\<lambda>w2. Ok (eb_listEnd lh w2)))
      | _ \<Rightarrow> Panic)"
| "writeVal (TPtr t) v w =
     (case v of
        VPtr (Some x) \<Rightarrow> writeVal t x w
      | VPtr None \<Rightarrow> Ok (eb_append [nilEncoding t] w)
      | _ \<Rightarrow> Panic)"

definition EncodeToBytes :: "rtype \<Rightarrow> rval \<Rightarrow> bytes res" where
  "EncodeToBytes t v = rbind (writeVal t v reset) (\<lambda>w. Ok (toBytes w))"

section \<open>Reference semantics\<close>

datatype item = Str bytes | Lst "item list"

primrec enc :: "item \<Rightarrow> bytes" where
  "enc (Str b) =
     (if length b = 1 \<and> b ! 0 < 0x80 then b
      else puthead 0x80 0xB7 (word_of_nat (length b)) @ b)"
| "enc (Lst xs) =
     (let c = concat (map enc xs) in puthead 0xC0 0xF7 (word_of_nat (length c)) @ c)"

primrec wt :: "rtype \<Rightarrow> rval \<Rightarrow> bool" where
  "wt (TUint n) v = (case v of VUint u \<Rightarrow> unat u < 2 ^ n | _ \<Rightarrow> False)"
| "wt TBool v = (case v of VBool b \<Rightarrow> True | _ \<Rightarrow> False)"
| "wt TString v = (case v of VBytes b \<Rightarrow> True | _ \<Rightarrow> False)"
| "wt TBigInt v = (case v of VBig None \<Rightarrow> True | VBig (Some i) \<Rightarrow> 0 \<le> i | _ \<Rightarrow> False)"
| "wt TBigIntVal v = (case v of VBig (Some i) \<Rightarrow> 0 \<le> i | _ \<Rightarrow> False)"
| "wt TBytes v = (case v of VBytes b \<Rightarrow> True | _ \<Rightarrow> False)"
| "wt (TByteArray n) v = (case v of VBytes b \<Rightarrow> length b = n | _ \<Rightarrow> False)"
| "wt (TSlice t) v = (case v of VList vs \<Rightarrow> list_all (wt t) vs | _ \<Rightarrow> False)"
| "wt (TStruct ts) v =
     (case v of VList vs \<Rightarrow> list_all2 (\<lambda>p x. p x) (map wt ts) vs | _ \<Rightarrow> False)"
| "wt (TPtr t) v = (case v of VPtr None \<Rightarrow> True | VPtr (Some x) \<Rightarrow> wt t x | _ \<Rightarrow> False)"

fun zipApp :: "('a \<Rightarrow> 'b) list \<Rightarrow> 'a list \<Rightarrow> 'b list" where
  "zipApp (f # fs) (x # xs) = f x # zipApp fs xs"
| "zipApp _ _ = []"

primrec to_item :: "rtype \<Rightarrow> rval \<Rightarrow> item" where
  "to_item (TUint n) v = (case v of VUint u \<Rightarrow> Str (min_be (unat u)) | _ \<Rightarrow> Str [])"
| "to_item TBool v = (case v of VBool b \<Rightarrow> Str (if b then [1] else []) | _ \<Rightarrow> Str [])"
| "to_item TString v = (case v of VBytes b \<Rightarrow> Str b | _ \<Rightarrow> Str [])"
| "to_item TBigInt v =
     (case v of VBig (Some i) \<Rightarrow> Str (min_be (nat i)) | _ \<Rightarrow> Str [])"
| "to_item TBigIntVal v =
     (case v of VBig (Some i) \<Rightarrow> Str (min_be (nat i)) | _ \<Rightarrow> Str [])"
| "to_item TBytes v = (case v of VBytes b \<Rightarrow> Str b | _ \<Rightarrow> Str [])"
| "to_item (TByteArray n) v = (case v of VBytes b \<Rightarrow> Str b | _ \<Rightarrow> Str [])"
| "to_item (TSlice t) v = (case v of VList vs \<Rightarrow> Lst (map (to_item t) vs) | _ \<Rightarrow> Str [])"
| "to_item (TStruct ts) v =
     (case v of VList vs \<Rightarrow> Lst (zipApp (map to_item ts) vs) | _ \<Rightarrow> Str [])"
| "to_item (TPtr t) v =
     (case v of
        VPtr (Some x) \<Rightarrow> to_item t x
      | _ \<Rightarrow> (case defaultNilKind t of NilString \<Rightarrow> Str [] | NilList \<Rightarrow> Lst []))"

end
