(* ===== verification/Rlp_Encode_Correct.thy ===== *)
theory Rlp_Encode_Correct
  imports Rlp_Encode
begin

text \<open>
  The encoder of package \<^verbatim>\<open>rlp\<close> computes the reference encoding \<open>enc\<close>. The two streams of
  an \<open>encbuf\<close> (string data, list headers with offsets) are related to one byte string by
  \<open>emits\<close>: a writer extends the buffer by data and shifted headers that \<open>toBytes\<close>
  merges into exactly the bytes of the item.
\<close>

section \<open>Integers\<close>

lemma bitlen_bounds: "n \<noteq> 0 \<Longrightarrow> 2 ^ (bitlen n - 1) \<le> n \<and> n < 2 ^ bitlen n"
proof (induction n rule: bitlen.induct)
  case (1 n)
  show ?case
  proof (cases "n div 2 = 0")
    case True
    with "1.prems" have "n = 1" by linarith
    then show ?thesis by (simp add: bitlen.simps)
  next
    case False
    with "1" have IH: "2 ^ (bitlen (n div 2) - 1) \<le> n div 2" "n div 2 < 2 ^ bitlen (n div 2)" by auto
    have b: "bitlen n = Suc (bitlen (n div 2))" using "1.prems" by (simp add: bitlen.simps[of n])
    have pos: "0 < bitlen (n div 2)" using False by (subst bitlen.simps) simp
    have "(2::nat) ^ bitlen (n div 2) = 2 * 2 ^ (bitlen (n div 2) - 1)"
      using pos by (metis Suc_diff_1 power_Suc)
    moreover have "2 ^ (bitlen n - 1) = (2::nat) ^ bitlen (n div 2)" "(2::nat) ^ bitlen n = 2 * 2 ^ bitlen (n div 2)"
      by (simp_all add: b)
    ultimately show ?thesis using IH by linarith
  qed
qed

lemma bitlen_le_64: "bitlen n \<le> 64 \<longleftrightarrow> n < 2 ^ 64"
proof (cases "n = 0")
  case False
  note b = bitlen_bounds[OF False]
  show ?thesis
  proof
    assume "bitlen n \<le> 64"
    then have "(2::nat) ^ bitlen n \<le> 2 ^ 64" by (rule power_increasing) simp
    then show "n < 2 ^ 64" using b by linarith
  next
    assume "n < 2 ^ 64"
    then have "(2::nat) ^ (bitlen n - 1) < 2 ^ 64" using b by linarith
    then have "bitlen n - 1 < 64" by (rule power_less_imp_less_exp[rotated]) simp
    then show "bitlen n \<le> 64" by linarith
  qed
qed (simp add: bitlen.simps)

lemma bitlen_bytes: "n \<noteq> 0 \<Longrightarrow> (bitlen n + 7) div 8 = nbytes n"
proof -
  assume n: "n \<noteq> 0"
  define k where "k = (bitlen n + 7) div 8"
  have pos: "0 < bitlen n" using n by (subst bitlen.simps) simp
  have k: "0 < k" "8 * (k - 1) \<le> bitlen n - 1" "bitlen n \<le> 8 * k"
    unfolding k_def using pos by linarith+
  have "(256::nat) ^ (k - 1) = 2 ^ (8 * (k - 1))" "(256::nat) ^ k = 2 ^ (8 * k)"
    by (simp_all add: power_mult)
  moreover have "(2::nat) ^ (8 * (k - 1)) \<le> 2 ^ (bitlen n - 1)" "(2::nat) ^ bitlen n \<le> 2 ^ (8 * k)"
    using k by (auto intro: power_increasing)
  ultimately have "256 ^ (k - 1) \<le> n" "n < 256 ^ k" using bitlen_bounds[OF n] by linarith+
  from nbytes_unique[OF this k(1)] show ?thesis by (simp add: k_def)
qed

lemma fillWord_eq:
  "index \<le> length buf \<Longrightarrow>
   fillWord j d index buf =
     (index - j, take (index - j) buf @ to_be (min j index) (unat d) @ drop index buf)"
proof (induction j arbitrary: d index buf)
  case (Suc j)
  show ?case
  proof (cases "0 < index")
    case True
    let ?b = "buf[index - 1 := ucast d]"
    have IH: "fillWord j (drop_bit 8 d) (index - 1) ?b =
        (index - 1 - j, take (index - 1 - j) ?b @ to_be (min j (index - 1)) (unat (drop_bit 8 d))
           @ drop (index - 1) ?b)"
      using Suc.prems True by (intro Suc.IH) simp
    have d: "drop (index - 1) ?b = ucast d # drop index buf"
      using True Suc.prems Cons_nth_drop_Suc[of "index - 1" ?b] by simp
    have m: "min (Suc j) index = min j (index - 1) + 1" using True by linarith
    have t: "to_be (min (Suc j) index) (unat d) =
        to_be (min j (index - 1)) (unat d div 256) @ [ucast d]"
      by (simp only: m to_be_add) (simp add: ucast_byte[symmetric])
    have tk: "take (index - 1 - j) ?b = take (index - Suc j) buf" using True by simp
    show ?thesis using True IH by (simp only: fillWord.simps if_True d t tk unat_drop_bit8) simp
  qed simp
qed simp

lemma fillWords_eq:
  "len \<le> length buf \<Longrightarrow> take len buf = replicate len 0 \<Longrightarrow>
   fillWords (bigBits n) len buf = to_be len n @ drop len buf"
proof (induction n arbitrary: len buf rule: bigBits.induct)
  case (1 n)
  show ?case
  proof (cases "n = 0")
    case True
    then show ?thesis using "1.prems" by (simp add: bigBits.simps) (metis append_take_drop_id)
  next
    case False
    define buf' where
      "buf' = take (len - 8) buf @ to_be (min 8 len) (unat (word_of_nat n :: u64)) @ drop len buf"
    have low: "to_be (min 8 len) (unat (word_of_nat n :: u64)) = to_be (min 8 len) n"
    proof (rule to_be_cong)
      have "(256::nat) ^ min 8 len dvd 2 ^ 64" using le_imp_power_dvd[of "min 8 len" 8 "256::nat"] by simp
      from this show "unat (word_of_nat n :: u64) mod 256 ^ min 8 len = n mod 256 ^ min 8 len"
        by (simp add: unat_of_nat mod_mod_cancel)
    qed
    have l: "length (take (len - 8) buf) = len - 8" using "1.prems"(1) by simp
    have pre: "len - 8 \<le> length buf'" "take (len - 8) buf' = replicate (len - 8) 0"
      using l "1.prems" by (simp_all add: buf'_def)
         (metis diff_le_self min_def take_replicate take_take)
    have dr: "drop (len - 8) buf' = to_be (min 8 len) n @ drop len buf"
      using l by (simp add: buf'_def low)
    have "fillWords (bigBits n) len buf = fillWords (bigBits (n div 2 ^ 64)) (len - 8) buf'"
      using False "1.prems" by (simp add: bigBits.simps[of n] fillWord_eq buf'_def)
    also have "\<dots> = to_be (len - 8) (n div 2 ^ 64) @ to_be (min 8 len) n @ drop len buf"
      using "1.IH"[OF False pre] dr by simp
    also have "\<dots> = to_be len n @ drop len buf"
    proof (cases "len \<ge> 8")
      case True
      then show ?thesis using to_be_add[of "len - 8" 8 n] by simp
    qed simp
    finally show ?thesis .
  qed
qed

lemma fillWords_to_be: "fillWords (bigBits n) len (replicate len 0) = to_be len n"
  using fillWords_eq[of len "replicate len 0" n] by simp

lemma of_be_min_be [simp]: "of_be (min_be n) = n"
  using nbytes_upper[of n] by (simp add: min_be_def)

lemma length_min_be: "length (min_be n) = (if n = 0 then 0 else nbytes n)"
  by (simp add: min_be_def)

section \<open>Merging data and headers\<close>

definition shift_head :: "nat \<Rightarrow> listhead \<Rightarrow> listhead" where
  "shift_head k h = h\<lparr>lh_offset := lh_offset h + k\<rparr>"

lemma shift_head_simps [simp]:
  "lh_offset (shift_head k h) = lh_offset h + k" "lh_size (shift_head k h) = lh_size h"
  "listhead_encode (shift_head k h) = listhead_encode h"
  by (simp_all add: shift_head_def listhead_encode_def)

lemma shift_head_add: "shift_head k (shift_head j h) = shift_head (j + k) h"
  by (simp add: shift_head_def add.assoc)

fun heads_ok :: "nat \<Rightarrow> nat \<Rightarrow> listhead list \<Rightarrow> bool" where
  "heads_ok lo hi [] = (lo \<le> hi)"
| "heads_ok lo hi (h # hs) = (lo \<le> lh_offset h \<and> heads_ok (lh_offset h) hi hs)"

lemma heads_ok_le: "heads_ok lo hi hs \<Longrightarrow> lo \<le> hi"
  by (induction hs arbitrary: lo) (auto intro: order_trans)

lemma heads_ok_shift: "heads_ok lo hi hs \<Longrightarrow> heads_ok (lo + k) (hi + k) (map (shift_head k) hs)"
  by (induction hs arbitrary: lo) auto

lemma heads_ok_append:
  "heads_ok lo mid xs \<Longrightarrow> heads_ok mid hi ys \<Longrightarrow> heads_ok lo hi (xs @ ys)"
  by (induction xs arbitrary: lo)
     (auto intro: order_trans, metis heads_ok.elims(2) heads_ok.simps order_trans)

lemma toBytes_loop_shift:
  "toBytes_loop (xs @ ys) (p + length xs) (map (shift_head (length xs)) hs) = toBytes_loop ys p hs"
  by (induction hs arbitrary: p) auto

lemma toBytes_loop_suffix:
  "p \<le> length xs \<Longrightarrow>
   toBytes_loop (xs @ ys) p (map (shift_head (length xs)) hs) = drop p xs @ toBytes_loop ys 0 hs"
  by (cases hs) (simp_all add: toBytes_loop_shift)

lemma toBytes_loop_append:
  "heads_ok p (length xs) hs1 \<Longrightarrow>
   toBytes_loop (xs @ ys) p (hs1 @ map (shift_head (length xs)) hs2)
     = toBytes_loop xs p hs1 @ toBytes_loop ys 0 hs2"
proof (induction hs1 arbitrary: p)
  case (Cons h hs1)
  then have "lh_offset h \<le> length xs" by (auto dest: heads_ok_le)
  then show ?case using Cons by simp
qed (simp add: toBytes_loop_suffix)

definition emits :: "encbuf \<Rightarrow> encbuf \<Rightarrow> bytes \<Rightarrow> bool" where
  "emits w w' out \<longleftrightarrow> (\<exists>s hs.
      eb_str w' = eb_str w @ s \<and>
      eb_lheads w' = eb_lheads w @ map (shift_head (length (eb_str w))) hs \<and>
      eb_lhsize w' = eb_lhsize w + (int (length out) - int (length s)) \<and>
      heads_ok 0 (length s) hs \<and>
      toBytes_loop s 0 hs = out)"

lemma emits_refl [simp]: "emits w w []"
  by (simp add: emits_def exI[of _ "[]"])

lemma emits_data: "emits w (eb_append b w) b"
  unfolding emits_def by (intro exI[of _ b] exI[of _ "[]"]) (simp add: eb_append_def)

lemma emits_trans: "emits w w1 b1 \<Longrightarrow> emits w1 w2 b2 \<Longrightarrow> emits w w2 (b1 @ b2)"
proof -
  assume "emits w w1 b1" "emits w1 w2 b2"
  then obtain s1 hs1 s2 hs2 where
    1: "eb_str w1 = eb_str w @ s1"
       "eb_lheads w1 = eb_lheads w @ map (shift_head (length (eb_str w))) hs1"
       "eb_lhsize w1 = eb_lhsize w + (int (length b1) - int (length s1))"
       "heads_ok 0 (length s1) hs1" "toBytes_loop s1 0 hs1 = b1" and
    2: "eb_str w2 = eb_str w1 @ s2"
       "eb_lheads w2 = eb_lheads w1 @ map (shift_head (length (eb_str w1))) hs2"
       "eb_lhsize w2 = eb_lhsize w1 + (int (length b2) - int (length s2))"
       "heads_ok 0 (length s2) hs2" "toBytes_loop s2 0 hs2 = b2"
    unfolding emits_def by blast
  let ?hs = "hs1 @ map (shift_head (length s1)) hs2"
  have "heads_ok 0 (length (s1 @ s2)) ?hs"
    using 1(4) heads_ok_shift[OF 2(4), of "length s1"] by (auto intro: heads_ok_append simp: add.commute)
  moreover have "toBytes_loop (s1 @ s2) 0 ?hs = b1 @ b2"
    using toBytes_loop_append[OF 1(4)] 1(5) 2(5) by simp
  moreover have "eb_lheads w2 = eb_lheads w @ map (shift_head (length (eb_str w))) ?hs"
    using 1 2 by (simp add: shift_head_add add.commute)
  ultimately show ?thesis
    unfolding emits_def using 1 2 by (intro exI[of _ "s1 @ s2"] exI[of _ ?hs]) simp
qed

lemma emits_toBytes: "emits reset w b \<Longrightarrow> toBytes w = b"
proof -
  assume "emits reset w b"
  then obtain s hs where "eb_str w = s" "eb_lheads w = map (shift_head 0) hs" "toBytes_loop s 0 hs = b"
    by (auto simp: emits_def reset_def)
  moreover have "map (shift_head 0) hs = hs" by (rule map_idI) (simp add: shift_head_def)
  ultimately show ?thesis by (simp add: toBytes_def)
qed

text \<open>The buffer that \<^verbatim>\<open>toBytes\<close> makes is as long as the bytes written into it.\<close>

lemma emits_size: "emits reset w b \<Longrightarrow> eb_size w = int (length b)"
  by (auto simp: emits_def reset_def eb_size_def)

lemma emits_list:
  assumes "eb_list w = (k, w1)" "emits w1 w2 c" "length c < 2 ^ 64"
  shows "emits w (eb_listEnd k w2) (puthead 0xC0 0xF7 (word_of_nat (length c)) @ c)"
proof -
  let ?n = "length (eb_lheads w)" and ?l = "length (eb_str w)"
  let ?pre = "\<lparr>lh_offset = ?l, lh_size = eb_lhsize w\<rparr>"
  let ?h = "\<lparr>lh_offset = ?l, lh_size = int (length c)\<rparr>"
  let ?out = "puthead 0xC0 0xF7 (word_of_nat (length c)) @ c"
  obtain s hs where
    2: "eb_str w2 = eb_str w @ s" "eb_lheads w2 = eb_lheads w @ ?pre # map (shift_head ?l) hs"
       "eb_lhsize w2 = eb_lhsize w + (int (length c) - int (length s))"
       "heads_ok 0 (length s) hs" "toBytes_loop s 0 hs = c" and k: "k = ?n"
    using assms(1,2) by (auto simp: emits_def eb_list_def)
  have sz: "eb_size w2 - int ?l - eb_lhsize w = int (length c)" by (simp add: eb_size_def 2)
  have u: "unat (word_of_nat (length c) :: u64) = length c" using assms(3) by simp
  have small: "(word_of_nat (length c) :: u64) < 56 \<longleftrightarrow> length c < 56"
    using u by (simp add: word_less_nat_alt)
  let ?hs = "\<lparr>lh_offset = 0, lh_size = int (length c)\<rparr> # hs"
  have e: "eb_listEnd k w2 =
      w2\<lparr>eb_lheads := eb_lheads w @ ?h # map (shift_head ?l) hs,
         eb_lhsize := eb_lhsize w2 + (int (length ?out) - int (length c))\<rparr>"
    using sz by (simp add: eb_listEnd_def k 2(2) nth_append Let_def puthead_length headsize_def small)
  show ?thesis unfolding emits_def
  proof (intro exI[of _ s] exI[of _ ?hs] conjI)
    show "toBytes_loop s 0 ?hs = ?out" by (simp add: listhead_encode_def 2)
  qed (simp_all add: e 2 shift_head_def)
qed

section \<open>Writers\<close>

lemma u64_of_nat_less: "n < 2 ^ 64 \<Longrightarrow> (word_of_nat n :: u64) < 56 \<longleftrightarrow> n < 56"
  by (simp add: word_less_nat_alt)

lemma emits_stringHeader:
  "n < 2 ^ 64 \<Longrightarrow> emits w (encodeStringHeader n w) (puthead 0x80 0xB7 (word_of_nat n))"
proof -
  assume n: "n < 2 ^ 64"
  then have "(ucast (word_of_nat n :: u64) :: byte) = word_of_nat n" by (simp add: ucast_byte)
  then show ?thesis
    using n u64_of_nat_less[OF n]
    by (cases "n < 56") (simp_all add: encodeStringHeader_def puthead_def emits_data Let_def)
qed

lemma byte_le_7F: "(b :: byte) \<le> 0x7F \<longleftrightarrow> b < 0x80"
  by (simp add: word_less_nat_alt word_le_nat_alt less_Suc_eq_le flip: less_eq_Suc_le) linarith

lemma list_length_1: "length b = 1 \<Longrightarrow> [b ! 0] = b"
  by (cases b) auto

lemma emits_string:
  "length b < 2 ^ 64 \<Longrightarrow> emits w (encodeString b w) (enc (Str b))"
  using emits_data[of w b] emits_trans[OF emits_stringHeader emits_data, of "length b" w b]
  by (simp add: encodeString_def byte_le_7F list_length_1)

lemma emits_byteArray:
  assumes "length b = n" "n < 2 ^ 64"
  shows "emits w (writeByteArray n b w) (enc (Str b))"
proof -
  consider "n = 0" | x where "n = 1" "b = [x]" | "n \<ge> 2"
    using assms(1) by (cases b; cases "tl b") auto
  then show ?thesis
  proof cases
    case 3
    then show ?thesis
      using assms emits_trans[OF emits_stringHeader emits_data, of n w b] by simp
  qed (use assms emits_data in \<open>auto simp: byte_le_7F puthead_def emits_data\<close>)
qed

lemma enc_min_be_small: "x < 2 ^ 64 \<Longrightarrow> enc (Str (min_be x)) =
   (if x = 0 then [0x80] else if x < 128 then [word_of_nat x]
    else (0x80 + word_of_nat (nbytes x)) # to_be (nbytes x) x)"
proof -
  assume x: "x < 2 ^ 64"
  consider "x = 0" | "x \<noteq> 0" "x < 128" | "x \<ge> 128" "x < 256" | "x \<ge> 256" by linarith
  then show ?thesis
  proof cases
    case 4
    then have "nbytes x \<noteq> 1" using nbytes_pos[of "x div 256"] by (subst nbytes.simps) simp
    moreover have "nbytes x < 56" "nbytes x < 2 ^ 64" using nbytes_le_8[OF x] by simp_all
    moreover have "(ucast (word_of_nat (nbytes x) :: u64) :: byte) = word_of_nat (nbytes x)"
      using \<open>nbytes x < 2 ^ 64\<close> by (simp add: ucast_byte)
    ultimately show ?thesis using 4 by (simp add: min_be_def puthead_def u64_of_nat_less)
  qed (simp_all add: min_be_def puthead_def nbytes.simps word_less_nat_alt unat_byte_of_nat)
qed

lemma emits_uint: "emits w (encodeUint i w) (enc (Str (min_be (unat i))))"
proof -
  have "i < 128 \<longleftrightarrow> unat i < 128" by (simp add: word_less_nat_alt)
  moreover have "i = 0 \<longleftrightarrow> unat i = 0" by (simp add: unat_eq_zero)
  ultimately have "encodeUint i w = eb_append (enc (Str (min_be (unat i)))) w"
    by (simp only: encodeUint_def enc_min_be_small[OF unat_u64_less] putint_eq Let_def ucast_byte
        length_to_be) (cases "unat i = 0"; cases "unat i < 128"; simp)
  then show ?thesis by (simp only: emits_data)
qed

lemma emits_bigint:
  assumes "0 \<le> i" "length (min_be (nat i)) < 2 ^ 64"
  shows "\<exists>w'. writeBigInt i w = Ok w' \<and> emits w w' (enc (Str (min_be (nat i))))"
proof (cases "nat i < 2 ^ 64")
  case True
  then have "unat (word_of_int i :: u64) = nat i" using assms(1) by (metis int_nat_eq of_int_of_nat_eq unat_of_nat_u64)
  then show ?thesis
    using assms(1) True emits_uint[of w "word_of_int i"] by (simp add: writeBigInt_def bitlen_le_64)
next
  case False
  let ?n = "nat i" and ?k = "nbytes (nat i)"
  have nz: "?n \<noteq> 0" using False by auto
  have "1 < ?k"
  proof (rule ccontr)
    assume "\<not> 1 < ?k"
    then have "?k = 1" using nbytes_pos[of ?n] by linarith
    then show False using nbytes_upper[of ?n] False by simp
  qed
  then have e: "enc (Str (min_be ?n)) = puthead 0x80 0xB7 (word_of_nat ?k) @ to_be ?k ?n"
    using nz by (simp add: min_be_def)
  have l: "?k < 2 ^ 64" using assms(2) nz by (simp add: min_be_def)
  show ?thesis
    using assms(1) False emits_trans[OF emits_stringHeader[OF l] emits_data, of w "to_be ?k ?n"]
    by (simp add: writeBigInt_def bitlen_le_64 bitlen_bytes[OF nz] fillWords_to_be e Let_def del: enc.simps)
qed

section \<open>The encoder computes the reference encoding\<close>

definition writes :: "(encbuf \<Rightarrow> encbuf res) \<Rightarrow> bytes \<Rightarrow> bool" where
  "writes wr out \<longleftrightarrow> (\<forall>w. \<exists>w'. wr w = Ok w' \<and> emits w w' out)"

lemma writes_Ok: "(\<And>w. emits w (f w) out) \<Longrightarrow> writes (\<lambda>w. Ok (f w)) out"
  by (simp add: writes_def)

lemma writes_elems:
  "(\<And>v. v \<in> set vs \<Longrightarrow> writes (wr v) (out v)) \<Longrightarrow>
   writes (writeElems wr vs) (concat (map out vs))"
proof (induction vs)
  case (Cons v vs)
  show ?case unfolding writes_def
  proof
    fix w
    obtain w1 where 1: "wr v w = Ok w1" "emits w w1 (out v)"
      using Cons.prems[of v] by (auto simp: writes_def)
    obtain w2 where 2: "writeElems wr vs w1 = Ok w2" "emits w1 w2 (concat (map out vs))"
      using Cons unfolding writes_def by (metis list.set_intros(2))
    show "\<exists>w'. writeElems wr (v # vs) w = Ok w' \<and> emits w w' (concat (map out (v # vs)))"
      using 1 2 by (auto intro: emits_trans)
  qed
qed (simp add: writes_def)

lemma writes_fields:
  "list_all2 (\<lambda>t v. writes (wr t v) (out t v)) ts vs \<Longrightarrow>
   writes (writeFields (map wr ts) vs) (concat (zipApp (map out ts) vs))"
proof (induction rule: list_all2_induct)
  case (Cons t ts v vs)
  show ?case unfolding writes_def
  proof
    fix w
    obtain w1 where 1: "wr t v w = Ok w1" "emits w w1 (out t v)"
      using Cons by (auto simp: writes_def)
    obtain w2 where 2: "writeFields (map wr ts) vs w1 = Ok w2"
        "emits w1 w2 (concat (zipApp (map out ts) vs))"
      using Cons unfolding writes_def by metis
    show "\<exists>w'. writeFields (map wr (t # ts)) (v # vs) w = Ok w' \<and>
        emits w w' (concat (zipApp (map out (t # ts)) (v # vs)))"
      using 1 2 by (auto intro: emits_trans)
  qed
qed (simp add: writes_def)

lemma writes_list:
  assumes "writes body c" "length c < 2 ^ 64"
  shows "writes (\<lambda>w. let (lh, w1) = eb_list w in rbind (body w1) (\<lambda>w2. Ok (eb_listEnd lh w2)))
           (puthead 0xC0 0xF7 (word_of_nat (length c)) @ c)"
  unfolding writes_def
proof
  fix w
  obtain k w1 where 1: "eb_list w = (k, w1)" by fastforce
  obtain w2 where 2: "body w1 = Ok w2" "emits w1 w2 c" using assms(1) by (auto simp: writes_def)
  show "\<exists>w'. (let (lh, w1) = eb_list w in rbind (body w1) (\<lambda>w2. Ok (eb_listEnd lh w2))) = Ok w'
      \<and> emits w w' (puthead 0xC0 0xF7 (word_of_nat (length c)) @ c)"
    using emits_list[OF 1 2(2) assms(2)] by (simp add: 1 2)
qed

lemma enc_Lst_length: "x \<in> set xs \<Longrightarrow> length (enc x) \<le> length (enc (Lst xs))"
proof -
  assume "x \<in> set xs"
  then have "length (enc x) \<le> length (concat (map enc xs))"
    by (induction xs) auto
  then show ?thesis by (simp add: Let_def)
qed

lemma enc_Lst_content: "length (concat (map enc xs)) \<le> length (enc (Lst xs))"
  by (simp add: Let_def)

lemma enc_Str_length: "length b \<le> length (enc (Str b))"
  by simp

lemma zipApp_out: "map enc (zipApp (map to_item ts) vs) = zipApp (map (\<lambda>t v. enc (to_item t v)) ts) vs"
  by (induction ts vs rule: list_induct2') auto

lemma zipApp_set:
  "length ts = length vs \<Longrightarrow> i < length vs \<Longrightarrow> to_item (ts ! i) (vs ! i) \<in> set (zipApp (map to_item ts) vs)"
  by (induction ts vs arbitrary: i rule: list_induct2) (auto simp: less_Suc_eq_0_disj)

lemma writeVal_writes:
  "wt t v \<Longrightarrow> length (enc (to_item t v)) < 2 ^ 64 \<Longrightarrow> writes (writeVal t v) (enc (to_item t v))"
proof (induction t arbitrary: v)
  case (TUint n)
  then show ?case by (cases v) (simp_all add: writes_def emits_uint del: enc.simps)
next
  case TBool
  then show ?case
    by (cases v) (auto simp: writes_def puthead_def intro: emits_data)
next
  case TString
  then show ?case
    by (cases v) (auto simp: writes_def simp del: enc.simps intro!: emits_string dest: le_less_trans[OF enc_Str_length])
next
  case TBytes
  then show ?case
    by (cases v) (auto simp: writes_def simp del: enc.simps intro!: emits_string dest: le_less_trans[OF enc_Str_length])
next
  case TBigInt
  then show ?case
    by (cases v) (auto simp: writes_def puthead_def emits_data emits_bigint
        le_less_trans[OF enc_Str_length] simp del: enc.simps split: option.splits, simp add: puthead_def emits_data)
next
  case TBigIntVal
  then show ?case
    by (cases v) (auto simp: writes_def emits_bigint le_less_trans[OF enc_Str_length]
        simp del: enc.simps split: option.splits)
next
  case (TByteArray n)
  then show ?case
    by (cases v) (auto simp: writes_def simp del: enc.simps writeByteArray.simps intro!: emits_byteArray
        dest: le_less_trans[OF enc_Str_length])
next
  case (TSlice t)
  then obtain vs where v: "v = VList vs" by (cases v) auto
  show ?case
  proof (cases "vs = []")
    case True
    then show ?thesis by (simp add: v writes_def emits_data puthead_def)
  next
    case False
    have len: "length (enc (to_item t x)) < 2 ^ 64" if "x \<in> set vs" for x
      using TSlice.prems(2) enc_Lst_length[of "to_item t x" "map (to_item t) vs"] that v by (simp del: enc.simps)
    have "writes (writeElems (writeVal t) vs) (concat (map (\<lambda>x. enc (to_item t x)) vs))"
      using TSlice.IH TSlice.prems(1) len v by (intro writes_elems) (simp_all add: list_all_iff)
    then have w: "writes (writeElems (writeVal t) vs) (concat (map enc (map (to_item t) vs)))"
      by (simp add: comp_def)
    have l: "length (concat (map enc (map (to_item t) vs))) < 2 ^ 64"
      using TSlice.prems(2) enc_Lst_content[of "map (to_item t) vs"] v by (simp del: enc.simps)
    show ?thesis using writes_list[OF w l] False by (simp add: v Let_def)
  qed
next
  case (TStruct ts)
  then obtain vs where v: "v = VList vs" by (cases v) auto
  let ?is = "zipApp (map to_item ts) vs"
  have a: "list_all2 wt ts vs" using TStruct.prems(1) v by (simp add: list_all2_map1)
  have "writes (writeVal (ts ! i) (vs ! i)) (enc (to_item (ts ! i) (vs ! i)))" if "i < length vs" for i
  proof (rule TStruct.IH)
    show "ts ! i \<in> set ts" "wt (ts ! i) (vs ! i)" using a that by (auto simp: list_all2_conv_all_nth)
    show "length (enc (to_item (ts ! i) (vs ! i))) < 2 ^ 64"
      using TStruct.prems(2) enc_Lst_length[OF zipApp_set, of ts vs i] a that v
      by (simp add: list_all2_lengthD del: enc.simps)
  qed
  then have "list_all2 (\<lambda>t v. writes (writeVal t v) (enc (to_item t v))) ts vs"
    using a by (simp add: list_all2_conv_all_nth)
  then have w: "writes (writeFields (map writeVal ts) vs) (concat (map enc ?is))"
    unfolding zipApp_out by (rule writes_fields)
  have l: "length (concat (map enc ?is)) < 2 ^ 64"
    using TStruct.prems(2) enc_Lst_content[of ?is] v by (simp del: enc.simps)
  show ?case using writes_list[OF w l] by (simp add: v Let_def)
next
  case (TPtr t)
  then show ?case
    by (cases v) (auto simp: writes_def nilEncoding_def puthead_def emits_data
        split: option.splits nilKind.splits)
qed

lemma EncodeToBytes_enc:
  "wt t v \<Longrightarrow> length (enc (to_item t v)) < 2 ^ 64 \<Longrightarrow> EncodeToBytes t v = Ok (enc (to_item t v))"
  using writeVal_writes[of t v] unfolding writes_def EncodeToBytes_def
  by (metis emits_toBytes rbind_simps(1))

end
