(* ===== verification/Rlp_Decode.thy ===== *)
theory Rlp_Decode
  imports Rlp_Encode_Correct
begin

text \<open>
  Package \<^verbatim>\<open>rlp\<close>, the decoder (\<^verbatim>\<open>src/rlp/decode.go\<close>) over a \<^verbatim>\<open>bytes.Reader\<close>. A \<open>Stream\<close> keeps
  the unread bytes, the input limit, the cached header of the next value and the stack of
  list limits (innermost first; Go keeps it last). All counters are 64-bit words, so the
  wrap-around that \<open>List\<close> can cause when a list overruns its parent is part of the model.
  \<open>decodeVal t\<close> is the decoder that \<^verbatim>\<open>makeDecoder\<close> builds for a type, decoding into a
  zero value. The texts that \<^verbatim>\<open>wrapStreamError\<close> puts around sentinels are not modelled.
\<close>

section \<open>The stream\<close>

datatype Kind = KByte | KString | KList

record Stream =
  st_r :: bytes
  st_remaining :: u64
  st_size :: u64
  st_kinderr :: "goerr option"
  st_stack :: "u64 list"
  st_kind :: "Kind option"
  st_byteval :: byte
  st_limited :: bool

definition Stream_Reset :: "bytes \<Rightarrow> u64 \<Rightarrow> Stream" where
  "Stream_Reset r inputLimit =
     \<lparr>st_r = r, st_remaining = (if inputLimit > 0 then inputLimit else word_of_nat (length r)),
      st_size = 0, st_kinderr = None, st_stack = [], st_kind = None, st_byteval = 0,
      st_limited = True\<rparr>"

definition listLimit :: "Stream \<Rightarrow> bool \<times> u64" where
  "listLimit s = (case st_stack s of [] \<Rightarrow> (False, 0) | limit # _ \<Rightarrow> (True, limit))"

definition willRead :: "u64 \<Rightarrow> (Stream, unit) call" where
  "willRead n s =
     (let s1 = s\<lparr>st_kind := None\<rparr>; (inList, limit) = listLimit s1 in
      if inList \<and> n > limit then (Err (RlpErr ErrElemTooLarge), s1)
      else let s2 = (if inList then s1\<lparr>st_stack := (limit - n) # tl (st_stack s1)\<rparr> else s1) in
           if st_limited s2 then
             (if n > st_remaining s2 then (Err (RlpErr ErrValueTooLarge), s2)
              else (Ok (), s2\<lparr>st_remaining := st_remaining s2 - n\<rparr>))
           else (Ok (), s2))"

definition readFull :: "nat \<Rightarrow> (Stream, bytes) call" where
  "readFull n = sbind (willRead (word_of_nat n)) (\<lambda>_ s.
     if n \<le> length (st_r s) then (Ok (take n (st_r s)), s\<lparr>st_r := drop n (st_r s)\<rparr>)
     else (Err (RlpErr IoErrUnexpectedEOF), s\<lparr>st_r := []\<rparr>))"

definition readByte :: "(Stream, byte) call" where
  "readByte = sbind (willRead 1) (\<lambda>_ s.
     case st_r s of
       [] \<Rightarrow> (Err (RlpErr IoErrUnexpectedEOF), s)
     | b # bs \<Rightarrow> (Ok b, s\<lparr>st_r := bs\<rparr>))"

definition readUint :: "byte \<Rightarrow> (Stream, u64) call" where
  "readUint n =
     (if n = 0 then (\<lambda>s. (Ok 0, s\<lparr>st_kind := None\<rparr>))
      else if n = 1 then sbind readByte (\<lambda>b. sret (ucast b))
      else if n > 8 then slift Panic
      else sbind (readFull (unat n)) (\<lambda>buffer.
             if buffer ! 0 = 0 then slift (Err (RlpErr ErrCanonSize))
             else sret (word_of_nat (of_be buffer))))"

definition readLongSize :: "Kind \<Rightarrow> byte \<Rightarrow> (Stream, Kind \<times> u64) call" where
  "readLongSize k n = sbind (readUint n) (\<lambda>sz.
     if sz < 56 then slift (Err (RlpErr ErrCanonSize)) else sret (k, sz))"

definition readKind :: "(Stream, Kind \<times> u64) call" where
  "readKind s =
     (case readByte s of
        (Ok b, s1) \<Rightarrow>
          (let s2 = s1\<lparr>st_byteval := 0\<rparr> in
           if b < 0x80 then (Ok (KByte, 0), s2\<lparr>st_byteval := b\<rparr>)
           else if b < 0xB8 then (Ok (KString, ucast (b - 0x80)), s2)
           else if b < 0xC0 then readLongSize KString (b - 0xB7) s2
           else if b < 0xF8 then (Ok (KList, ucast (b - 0xC0)), s2)
           else readLongSize KList (b - 0xF7) s2)
      | (Err e, s1) \<Rightarrow>
          (Err (if st_stack s = [] \<and>
                  (e = RlpErr IoErrUnexpectedEOF \<or> e = RlpErr ErrValueTooLarge)
                then RlpErr IoEOF else e), s1)
      | (Panic, s1) \<Rightarrow> (Panic, s1))"

text \<open>After a failed \<open>readKind\<close> the kind is set (to whatever was read) and the error is
  cached with it; only the error is ever looked at then.\<close>

definition Stream_Kind :: "(Stream, Kind \<times> u64) call" where
  "Stream_Kind s =
     (case st_kind s of
        Some k \<Rightarrow>
          (case st_kinderr s of None \<Rightarrow> (Ok (k, st_size s), s) | Some e \<Rightarrow> (Err e, s))
      | None \<Rightarrow>
          (let (inList, limit) = listLimit s in
           if inList \<and> limit = 0 then (Err (RlpErr EOL), s)
           else case readKind s of
               (Ok (k, sz), s1) \<Rightarrow>
                 (let kinderr = (if inList \<and> sz > limit then Some (RlpErr ErrElemTooLarge)
                                 else if st_limited s1 \<and> sz > st_remaining s1
                                 then Some (RlpErr ErrValueTooLarge) else None);
                      s2 = s1\<lparr>st_kind := Some k, st_size := sz, st_kinderr := kinderr\<rparr>
                  in case kinderr of None \<Rightarrow> (Ok (k, sz), s2) | Some e \<Rightarrow> (Err e, s2))
             | (Err e, s1) \<Rightarrow> (Err e, s1\<lparr>st_kind := Some KByte, st_size := 0, st_kinderr := Some e\<rparr>)
             | (Panic, s1) \<Rightarrow> (Panic, s1)))"

section \<open>Reading values\<close>

definition Stream_Bytes :: "(Stream, bytes) call" where
  "Stream_Bytes = sbind Stream_Kind (\<lambda>(k, sz).
     case k of
       KByte \<Rightarrow> (\<lambda>s. (Ok [st_byteval s], s\<lparr>st_kind := None\<rparr>))
     | KString \<Rightarrow> sbind (readFull (unat sz)) (\<lambda>b.
         if sz = 1 \<and> b ! 0 < 128 then slift (Err (RlpErr ErrCanonSize)) else sret b)
     | KList \<Rightarrow> slift (Err (RlpErr ErrExpectedString)))"

definition Stream_Raw :: "(Stream, bytes) call" where
  "Stream_Raw = sbind Stream_Kind (\<lambda>(k, sz).
     case k of
       KByte \<Rightarrow> (\<lambda>s. (Ok [st_byteval s], s\<lparr>st_kind := None\<rparr>))
     | KString \<Rightarrow> sbind (readFull (unat sz)) (\<lambda>b. sret (puthead 0x80 0xB7 sz @ b))
     | KList \<Rightarrow> sbind (readFull (unat sz)) (\<lambda>b. sret (puthead 0xC0 0xF7 sz @ b)))"

definition Stream_uint :: "nat \<Rightarrow> (Stream, u64) call" where
  "Stream_uint maxbits = sbind Stream_Kind (\<lambda>(k, sz).
     case k of
       KByte \<Rightarrow> (\<lambda>s. if st_byteval s = 0 then (Err (RlpErr ErrCanonInt), s)
                     else (Ok (ucast (st_byteval s)), s\<lparr>st_kind := None\<rparr>))
     | KString \<Rightarrow>
         if sz > word_of_nat (maxbits div 8) then slift (Err (RlpErr ErrUintOverflow))
         else (\<lambda>s. case readUint (ucast sz) s of
             (Ok v, s1) \<Rightarrow>
               (if sz > 0 \<and> v < 128 then (Err (RlpErr ErrCanonSize), s1) else (Ok v, s1))
           | (Err e, s1) \<Rightarrow>
               (Err (if e = RlpErr ErrCanonSize then RlpErr ErrCanonInt else e), s1)
           | (Panic, s1) \<Rightarrow> (Panic, s1))
     | KList \<Rightarrow> slift (Err (RlpErr ErrExpectedString)))"

definition Stream_Bool :: "(Stream, bool) call" where
  "Stream_Bool = sbind (Stream_uint 8) (\<lambda>num.
     if num = 0 then sret False else if num = 1 then sret True
     else slift (Err (RlpErr InvalidBoolean)))"

definition Stream_List :: "(Stream, u64) call" where
  "Stream_List = sbind Stream_Kind (\<lambda>(k, sz).
     if k \<noteq> KList then slift (Err (RlpErr ErrExpectedList))
     else (\<lambda>s. let (inList, limit) = listLimit s;
                   st = (if inList then (limit - sz) # tl (st_stack s) else st_stack s)
               in (Ok sz, s\<lparr>st_stack := sz # st, st_kind := None, st_size := 0\<rparr>)))"

definition Stream_ListEnd :: "(Stream, unit) call" where
  "Stream_ListEnd s =
     (let (inList, limit) = listLimit s in
      if \<not> inList then (Err (RlpErr ErrNotInList), s)
      else if limit > 0 then (Err (RlpErr ErrNotAtEOL), s)
      else (Ok (), s\<lparr>st_stack := tl (st_stack s), st_kind := None, st_size := 0\<rparr>))"

definition decodeBigInt :: "(Stream, int) call" where
  "decodeBigInt = sbind Stream_Kind (\<lambda>(k, sz).
     sbind
       (case k of
          KList \<Rightarrow> slift (Err (RlpErr ErrExpectedString))
        | KByte \<Rightarrow> (\<lambda>s. (Ok [st_byteval s], s\<lparr>st_kind := None\<rparr>))
        | KString \<Rightarrow>
            if sz = 0 then (\<lambda>s. (Ok [], s\<lparr>st_kind := None\<rparr>))
            else if sz \<le> 32 then
              sbind (readFull (unat sz)) (\<lambda>b.
                if sz = 1 \<and> b ! 0 < 128 then slift (Err (RlpErr ErrCanonSize)) else sret b)
            else readFull (unat sz))
       (\<lambda>buffer.
          if buffer \<noteq> [] \<and> buffer ! 0 = 0 then slift (Err (RlpErr ErrCanonInt))
          else sret (int (of_be buffer))))"

definition decodeByteArray :: "nat \<Rightarrow> (Stream, bytes) call" where
  "decodeByteArray n = sbind Stream_Kind (\<lambda>(k, sz).
     case k of
       KByte \<Rightarrow>
         if n = 0 then slift (Err (RlpErr InputStringTooLong))
         else if n > 1 then slift (Err (RlpErr InputStringTooShort))
         else (\<lambda>s. (Ok [st_byteval s], s\<lparr>st_kind := None\<rparr>))
     | KString \<Rightarrow>
         if n < unat sz then slift (Err (RlpErr InputStringTooLong))
         else if n > unat sz then slift (Err (RlpErr InputStringTooShort))
         else sbind (readFull n) (\<lambda>b.
           if sz = 1 \<and> b ! 0 < 128 then slift (Err (RlpErr ErrCanonSize)) else sret b)
     | KList \<Rightarrow> slift (Err (RlpErr ErrExpectedString)))"

text \<open>The element loop runs until the element decoder reports the end of the list. The
  fuel is the number of unread bytes plus one: an element takes at least one byte.\<close>

fun decodeSliceElems :: "(Stream, 'v) call \<Rightarrow> nat \<Rightarrow> (Stream, 'v list) call" where
  "decodeSliceElems elemdec 0 s = (Panic, s)"
| "decodeSliceElems elemdec (Suc fuel) s =
     (case elemdec s of
        (Ok v, s1) \<Rightarrow> sbind (decodeSliceElems elemdec fuel) (\<lambda>vs. sret (v # vs)) s1
      | (Err e, s1) \<Rightarrow> if e = RlpErr EOL then (Ok [], s1) else (Err e, s1)
      | (Panic, s1) \<Rightarrow> (Panic, s1))"

definition decodeListSlice :: "(Stream, 'v) call \<Rightarrow> (Stream, 'v list) call" where
  "decodeListSlice elemdec = sbind Stream_List (\<lambda>sz.
     if sz = 0 then sbind Stream_ListEnd (\<lambda>_. sret [])
     else sbind (\<lambda>s. decodeSliceElems elemdec (Suc (length (st_r s))) s) (\<lambda>vs.
            sbind Stream_ListEnd (\<lambda>_. sret vs)))"

primrec decodeFields :: "(Stream, 'v) call list \<Rightarrow> (Stream, 'v list) call" where
  "decodeFields [] = sret []"
| "decodeFields (dec # decs) = (\<lambda>s.
     case dec s of
       (Ok v, s1) \<Rightarrow> sbind (decodeFields decs) (\<lambda>vs. sret (v # vs)) s1
     | (Err e, s1) \<Rightarrow> (Err (if e = RlpErr EOL then RlpErr TooFewElements else e), s1)
     | (Panic, s1) \<Rightarrow> (Panic, s1))"

definition decodeStruct :: "(Stream, 'v) call list \<Rightarrow> (Stream, 'v list) call" where
  "decodeStruct decs = sbind Stream_List (\<lambda>_. sbind (decodeFields decs) (\<lambda>vs.
     sbind Stream_ListEnd (\<lambda>_. sret vs)))"

primrec decodeVal :: "rtype \<Rightarrow> (Stream, rval) call" where
  "decodeVal (TUint n) = sbind (Stream_uint n) (\<lambda>u. sret (VUint u))"
| "decodeVal TBool = sbind Stream_Bool (\<lambda>b. sret (VBool b))"
| "decodeVal TString = sbind Stream_Bytes (\<lambda>b. sret (VBytes b))"
| "decodeVal TBigInt = sbind decodeBigInt (\<lambda>i. sret (VBig (Some i)))"
| "decodeVal TBigIntVal = sbind decodeBigInt (\<lambda>i. sret (VBig (Some i)))"
| "decodeVal TBytes = sbind Stream_Bytes (\<lambda>b. sret (VBytes b))"
| "decodeVal (TByteArray n) = sbind (decodeByteArray n) (\<lambda>b. sret (VBytes b))"
| "decodeVal (TSlice t) = sbind (decodeListSlice (decodeVal t)) (\<lambda>vs. sret (VList vs))"
| "decodeVal (TStruct ts) = sbind (decodeStruct (map decodeVal ts)) (\<lambda>vs. sret (VList vs))"
| "decodeVal (TPtr t) = sbind (decodeVal t) (\<lambda>v. sret (VPtr (Some v)))"

definition DecodeBytes :: "rtype \<Rightarrow> bytes \<Rightarrow> rval res" where
  "DecodeBytes t b =
     (case decodeVal t (Stream_Reset b (word_of_nat (length b))) of
        (Ok v, s) \<Rightarrow> if st_r s \<noteq> [] then Err (RlpErr ErrMoreThanOneValue) else Ok v
      | (Err e, s) \<Rightarrow> Err e
      | (Panic, s) \<Rightarrow> Panic)"

end
