(* ===== verification/Rlp_Decode_Correct.thy ===== *)
theory Rlp_Decode_Correct
  imports Rlp_Decode
begin

text \<open>
  The decoder accepts exactly the canonical encodings. The contract of an element decoder
  is the locale \<open>decoder\<close>: it accepts what the encoding function produces, accepts nothing
  else, reports \<open>EOL\<close> at the end of the enclosing list without touching the stream, and
  never runs out of fuel. Slices and structs of decoders are decoders, hence so is
  \<open>decodeVal t\<close> for every type.
\<close>

section \<open>Reading bytes\<close>

definition ready :: "Stream \<Rightarrow> bool" where
  "ready s \<longleftrightarrow> st_limited s \<and> st_remaining s = word_of_nat (length (st_r s)) \<and>
     length (st_r s) < 2 ^ 63"

definition sub_top :: "nat \<Rightarrow> u64 list \<Rightarrow> u64 list" where
  "sub_top n st = (case st of [] \<Rightarrow> [] | t # ts \<Rightarrow> (t - word_of_nat n) # ts)"

definition consumes :: "bytes \<Rightarrow> Stream \<Rightarrow> Stream \<Rightarrow> bool" where
  "consumes bs s s' \<longleftrightarrow> st_r s = bs @ st_r s' \<and> st_stack s' = sub_top (length bs) (st_stack s)
     \<and> ready s'"

definition room :: "nat \<Rightarrow> Stream \<Rightarrow> bool" where
  "room n s \<longleftrightarrow> (case st_stack s of [] \<Rightarrow> True | t # ts \<Rightarrow> n \<le> unat t)"

lemma sub_top_simps [simp]:
  "sub_top n [] = []" "sub_top n (t # ts) = (t - word_of_nat n) # ts" "sub_top 0 st = st"
  by (simp_all add: sub_top_def split: list.split)

lemma sub_top_add [simp]: "sub_top m (sub_top n st) = sub_top (n + m) st"
  by (cases st) simp_all

lemma sub_top_Nil_iff [simp]: "sub_top n st = [] \<longleftrightarrow> st = []" "[] = sub_top n st \<longleftrightarrow> st = []"
  by (cases st; simp)+

lemma consumes_trans: "consumes a s s1 \<Longrightarrow> consumes b s1 s2 \<Longrightarrow> consumes (a @ b) s s2"
  by (simp add: consumes_def add.commute)

lemma consumes_Nil [simp]: "ready s \<Longrightarrow> consumes [] s s"
  by (simp add: consumes_def)

lemma consumes_ready: "consumes b s s' \<Longrightarrow> ready s'"
  by (simp add: consumes_def)

lemma consumes_r: "consumes b s s' \<Longrightarrow> st_r s = b @ st_r s'"
  by (simp add: consumes_def)

lemma consumes_upd [simp]:
  "consumes b s (s'\<lparr>st_kind := k\<rparr>) = consumes b s s'"
  "consumes b s (s'\<lparr>st_size := z\<rparr>) = consumes b s s'"
  "consumes b s (s'\<lparr>st_kinderr := e\<rparr>) = consumes b s s'"
  "consumes b s (s'\<lparr>st_byteval := v\<rparr>) = consumes b s s'"
  by (simp_all add: consumes_def ready_def)

lemma unat_length: "ready s \<Longrightarrow> unat (word_of_nat (length (st_r s)) :: u64) = length (st_r s)"
  by (simp add: ready_def)

lemma room_consumes: "room (length a + n) s \<Longrightarrow> consumes a s s' \<Longrightarrow> room n s'"
proof -
  assume r: "room (length a + n) s" and c: "consumes a s s'"
  show ?thesis
  proof (cases "st_stack s")
    case (Cons t ts)
    then have le: "length a + n \<le> unat t" using r by (simp add: room_def)
    then have "length a < 2 ^ 64" using unat_u64_less[of t] by linarith
    then have "unat (t - word_of_nat (length a)) = unat t - length a"
      using le by (subst unat_sub) (simp_all add: word_le_nat_alt)
    then show ?thesis using le c Cons by (simp add: room_def consumes_def)
  qed (use c in \<open>simp add: room_def consumes_def\<close>)
qed

lemma willRead_Ok:
  assumes "ready s" "n \<le> length (st_r s)" "room n s"
  shows "willRead (word_of_nat n) s = (Ok (), s\<lparr>st_kind := None, st_stack := sub_top n (st_stack s),
     st_remaining := st_remaining s - word_of_nat n\<rparr>)"
proof -
  have n: "n < 2 ^ 64" using assms by (simp add: ready_def)
  then have "\<not> (word_of_nat n :: u64) > st_remaining s"
    using assms(1,2) unat_length[OF assms(1)] by (simp add: ready_def word_less_nat_alt)
  moreover have "st_stack s = t # ts \<Longrightarrow> \<not> (word_of_nat n :: u64) > t" for t ts
    using assms(3) n by (simp add: room_def word_less_nat_alt)
  ultimately show ?thesis
    using assms(1) by (cases "st_stack s") (simp_all add: willRead_def listLimit_def ready_def Let_def)
qed

lemma willRead_OkD:
  assumes "willRead n s = (Ok u, s')" "ready s"
  shows "s' = s\<lparr>st_kind := None, st_stack := sub_top (unat n) (st_stack s),
     st_remaining := st_remaining s - n\<rparr>" "unat n \<le> length (st_r s)"
proof -
  have le: "\<not> st_remaining s < n" and l: "st_limited s"
    using assms by (auto simp: willRead_def ready_def Let_def split: if_splits prod.splits)
  show "unat n \<le> length (st_r s)"
    using le assms(2) unat_length[OF assms(2)] by (simp add: ready_def word_less_nat_alt)
  show "s' = s\<lparr>st_kind := None, st_stack := sub_top (unat n) (st_stack s),
     st_remaining := st_remaining s - n\<rparr>"
    using assms(1) le l
    by (cases "st_stack s") (auto simp: willRead_def listLimit_def Let_def split: if_splits)
qed

lemma ready_drop:
  assumes "ready s" "n \<le> length (st_r s)" "st_r s' = drop n (st_r s)"
    "st_remaining s' = st_remaining s - word_of_nat n" "st_limited s'"
  shows "ready s'"
  using assms by (auto simp: ready_def of_nat_diff)

lemma readFull_Ok:
  assumes "ready s" "st_r s = b @ rest" "room (length b) s"
  shows "\<exists>s'. readFull (length b) s = (Ok b, s') \<and> st_r s' = rest"
  using willRead_Ok[OF assms(1) _ assms(3)] assms(2)
  by (simp add: readFull_def sbind_def)

lemma readFull_OkD:
  assumes "readFull n s = (Ok b, s')" "ready s" "n < 2 ^ 64"
  shows "length b = n" "consumes b s s'" "st_kind s' = None" "st_byteval s' = st_byteval s"
proof -
  obtain s1 where w: "willRead (word_of_nat n) s = (Ok (), s1)" and
    b: "n \<le> length (st_r s1)" "b = take n (st_r s1)" "s' = s1\<lparr>st_r := drop n (st_r s1)\<rparr>"
    using assms(1) by (auto simp: readFull_def sbind_eq_Ok split: if_splits)
  note w' = willRead_OkD[OF w assms(2)]
  have u: "unat (word_of_nat n :: u64) = n" using assms(3) by simp
  show l: "length b = n" using b by simp
  have r: "st_r s1 = st_r s" using w' by simp
  show "st_kind s' = None" "st_byteval s' = st_byteval s" using b w' by simp_all
  have "ready s'" using assms(2) by (rule ready_drop[of s n]) (use b w' u assms(2) in \<open>simp_all add: ready_def\<close>)
  then show "consumes b s s'" using b w' u l r by (simp add: consumes_def)
qed

lemma readByte_readFull:
  "readByte s = (case readFull 1 s of (Ok b, s') \<Rightarrow> (Ok (b ! 0), s') | (Err e, s') \<Rightarrow> (Err e, s')
     | (Panic, s') \<Rightarrow> (Panic, s'))"
  by (auto simp: readByte_def readFull_def sbind_def split: list.splits prod.splits res.splits)

lemma readByte_OkD:
  assumes "readByte s = (Ok b, s')" "ready s"
  shows "consumes [b] s s'" "st_kind s' = None" "st_byteval s' = st_byteval s"
proof -
  obtain bs where r: "readFull 1 s = (Ok bs, s')" "b = bs ! 0"
    using assms(1) by (auto simp: readByte_readFull split: prod.splits res.splits)
  note d = readFull_OkD[OF r(1) assms(2)]
  then have "[b] = bs" using r(2) by (cases bs) auto
  then show "consumes [b] s s'" "st_kind s' = None" "st_byteval s' = st_byteval s" using d by simp_all
qed

lemma readByte_Ok:
  assumes "ready s" "st_r s = b # rest" "room 1 s"
  shows "\<exists>s'. readByte s = (Ok b, s') \<and> st_r s' = rest"
  using readFull_Ok[of s "[b]" rest] assms by (auto simp: readByte_readFull)

text \<open>No read reports \<open>EOL\<close> or diverges.\<close>

definition clean :: "('s, 'a) call \<Rightarrow> bool" where
  "clean f \<longleftrightarrow> (\<forall>s. fst (f s) \<noteq> Panic \<and> fst (f s) \<noteq> Err (RlpErr EOL))"

lemma clean_sbind [intro]: "clean f \<Longrightarrow> (\<And>a. clean (g a)) \<Longrightarrow> clean (sbind f g)"
  by (auto simp: clean_def sbind_def split: prod.splits res.splits) (metis fst_conv)+

lemma clean_basic [simp, intro]:
  "clean (sret a)" "e \<noteq> RlpErr EOL \<Longrightarrow> clean (slift (Err e))"
  by (simp_all add: clean_def sret_def slift_def)

lemma clean_willRead: "clean (willRead n)"
  by (auto simp: clean_def willRead_def Let_def split: prod.splits)

lemma clean_readFull: "clean (readFull n)"
  unfolding readFull_def by (rule clean_sbind[OF clean_willRead]) (auto simp: clean_def)

lemma clean_readByte: "clean readByte"
  unfolding readByte_def by (rule clean_sbind[OF clean_willRead]) (auto simp: clean_def split: list.splits)

lemma clean_if [intro]: "(b \<Longrightarrow> clean f) \<Longrightarrow> (\<not> b \<Longrightarrow> clean g) \<Longrightarrow> clean (if b then f else g)"
  by simp

lemma clean_readUint: "n \<le> 8 \<Longrightarrow> clean (readUint n)"
  unfolding readUint_def
  by (intro clean_if clean_sbind clean_readFull clean_readByte clean_basic) (auto simp: clean_def)

section \<open>Headers\<close>

definition canon_be :: "bytes \<Rightarrow> bool" where
  "canon_be bs \<longleftrightarrow> bs \<noteq> [] \<and> (length bs > 1 \<longrightarrow> bs ! 0 \<noteq> 0)"

lemma readUint_OkD:
  assumes "readUint n s = (Ok v, s')" "ready s" "n \<noteq> 0" "n \<le> 8"
  shows "\<exists>bs. consumes bs s s' \<and> length bs = unat n \<and> canon_be bs \<and> v = word_of_nat (of_be bs)
    \<and> st_kind s' = None \<and> st_byteval s' = st_byteval s"
proof (cases "n = 1")
  case True
  then obtain b where "readByte s = (Ok b, s')" "v = ucast b"
    using assms(1) by (auto simp: readUint_def sbind_eq_Ok)
  with readByte_OkD[OF this(1) assms(2)] True show ?thesis
    by (intro exI[of _ "[b]"]) (simp add: canon_be_def)
next
  case False
  then obtain bs where r: "readFull (unat n) s = (Ok bs, s')" "bs ! 0 \<noteq> 0" "v = word_of_nat (of_be bs)"
    using assms by (auto simp: readUint_def sbind_eq_Ok split: if_splits)
  have "unat n < 2 ^ 64" by (rule less_trans[OF byte_less_256]) simp
  note d = readFull_OkD[OF r(1) assms(2) this]
  have "unat n \<noteq> 0" using assms(3) by (simp add: unat_eq_zero)
  then have "canon_be bs" using d(1) r(2) by (auto simp: canon_be_def)
  with d r show ?thesis by blast
qed

lemma readUint_Ok:
  assumes "ready s" "st_r s = bs @ rest" "canon_be bs" "length bs \<le> 8" "room (length bs) s"
  shows "\<exists>s'. readUint (word_of_nat (length bs)) s = (Ok (word_of_nat (of_be bs)), s')"
proof (cases "length bs = 1")
  case True
  then obtain b where "bs = [b]" by (cases bs) auto
  then show ?thesis
    using readByte_Ok[of s b rest] assms by (auto simp: readUint_def sbind_def sret_def)
next
  case False
  have u: "unat (word_of_nat (length bs) :: byte) = length bs" using assms(4) by (simp add: unat_byte_of_nat)
  have n: "(word_of_nat (length bs) :: byte) \<noteq> 0" "(word_of_nat (length bs) :: byte) \<noteq> 1"
    using u False assms(3) by (auto simp: canon_be_def)
  have "\<not> (8 :: byte) < word_of_nat (length bs)" using u assms(4) by (simp add: word_less_nat_alt)
  moreover have "bs ! 0 \<noteq> 0" using assms(3) False by (cases bs) (auto simp: canon_be_def)
  ultimately show ?thesis
    using readFull_Ok[OF assms(1,2,5)] n u by (auto simp: readUint_def sbind_def sret_def)
qed

lemma of_be_canon_lower: "canon_be bs \<Longrightarrow> of_be bs \<noteq> 0 \<Longrightarrow> nbytes (of_be bs) = length bs"
proof (rule nbytes_unique)
  assume c: "canon_be bs" and nz: "of_be bs \<noteq> 0"
  show "of_be bs < 256 ^ length bs" by (rule of_be_less)
  show "0 < length bs" using c by (simp add: canon_be_def)
  show "256 ^ (length bs - 1) \<le> of_be bs"
  proof (cases bs)
    case (Cons b bs')
    show ?thesis
    proof (cases "bs' = []")
      case False
      then have "0 < unat b" using c Cons by (simp add: canon_be_def unat_gt_0)
      then have "256 ^ length bs' \<le> unat b * 256 ^ length bs'" by (cases "unat b") simp_all
      also have "\<dots> \<le> of_be bs" unfolding Cons by simp
      finally show ?thesis unfolding Cons by simp
    qed (use nz Cons in simp)
  qed (use c in \<open>simp add: canon_be_def\<close>)
qed

lemma to_be_lead: "x \<noteq> 0 \<Longrightarrow> to_be (nbytes x) x ! 0 \<noteq> 0"
proof -
  assume x: "x \<noteq> 0"
  obtain k where k: "nbytes x = Suc k" using nbytes_pos[of x] by (metis Suc_pred')
  have "256 ^ k \<le> x" "x < 256 ^ k * 256" using nbytes_lower[OF x] nbytes_upper[of x] by (simp_all add: k mult.commute)
  then have "0 < x div 256 ^ k" "x div 256 ^ k < 256"
    by (simp_all add: div_greater_zero_iff less_mult_imp_div_less mult.commute)
  then have "unat (word_of_nat (x div 256 ^ k) :: byte) \<noteq> 0" by (simp add: unat_byte_of_nat)
  then have "(word_of_nat (x div 256 ^ k) :: byte) \<noteq> 0" by (metis unsigned_0)
  then show ?thesis by (simp add: k)
qed

lemma canon_to_be: "x \<noteq> 0 \<Longrightarrow> canon_be (to_be (nbytes x) x)"
  using to_be_lead[of x] nbytes_pos[of x] by (simp add: canon_be_def flip: length_0_conv)

lemma min_be_canon: "canon_be bs \<Longrightarrow> of_be bs \<noteq> 0 \<Longrightarrow> min_be (of_be bs) = bs"
  by (simp add: min_be_def of_be_canon_lower)

lemma min_be_of_be: "(b \<noteq> [] \<longrightarrow> b ! 0 \<noteq> 0) \<Longrightarrow> min_be (of_be b) = b"
proof (cases b)
  case (Cons x xs)
  assume "b \<noteq> [] \<longrightarrow> b ! 0 \<noteq> 0"
  then have "x \<noteq> 0" "canon_be b" using Cons by (simp_all add: canon_be_def)
  moreover have "0 < unat x * 256 ^ length xs" using \<open>x \<noteq> 0\<close> by (simp add: unat_gt_0)
  ultimately show ?thesis using Cons by (intro min_be_canon) simp_all
qed (simp add: min_be_def)

lemma min_be_lead: "min_be x \<noteq> [] \<Longrightarrow> min_be x ! 0 \<noteq> 0"
  by (auto simp: min_be_def to_be_lead split: if_splits)

lemma min_be_byte: "x \<noteq> 0 \<Longrightarrow> x < 256 \<Longrightarrow> min_be x = [word_of_nat x]"
  by (simp add: min_be_def nbytes.simps)

lemma length_min_be_le: "x < 256 ^ k \<Longrightarrow> length (min_be x) \<le> k"
proof (cases "x = 0")
  case False
  assume "x < 256 ^ k"
  then have "(256::nat) ^ (nbytes x - 1) < 256 ^ k" using nbytes_lower[OF False] by linarith
  then have "nbytes x - 1 < k" by simp
  then have "nbytes x \<le> k" by linarith
  then show ?thesis by (simp add: length_min_be)
qed (simp add: length_min_be)

lemma puthead_long:
  assumes "canon_be bs" "length bs \<le> 8" "\<not> (word_of_nat (of_be bs) :: u64) < 56"
  shows "puthead st lt (word_of_nat (of_be bs)) = (lt + word_of_nat (length bs)) # bs"
proof -
  have "of_be bs < 256 ^ length bs" by (rule of_be_less)
  also have "(256::nat) ^ length bs \<le> 256 ^ 8" using assms(2) by (intro power_increasing) simp_all
  finally have u: "unat (word_of_nat (of_be bs) :: u64) = of_be bs" by simp
  have "of_be bs \<noteq> 0" using assms(3) u by (intro notI) (simp add: word_less_nat_alt)
  then have "nbytes (of_be bs) = length bs" using assms(1) by (simp add: of_be_canon_lower)
  then have "putint (word_of_nat (of_be bs)) = bs" by (simp only: putint_eq u to_be_of_be)
  then show ?thesis using assms(3) by (simp add: puthead_def Let_def)
qed

lemma puthead_canon:
  assumes "\<not> n < (56 :: u64)"
  obtains bs where "puthead st lt n = (lt + word_of_nat (length bs)) # bs" "canon_be bs"
    "length bs \<le> 8" "of_be bs = unat n"
proof
  let ?bs = "to_be (nbytes (unat n)) (unat n)"
  have nz: "unat n \<noteq> 0" using assms by (auto simp: word_less_nat_alt)
  show "puthead st lt n = (lt + word_of_nat (length ?bs)) # ?bs"
    using assms by (simp add: puthead_def putint_eq Let_def)
  show "canon_be ?bs" using nz by (rule canon_to_be)
  show "length ?bs \<le> 8" using nbytes_le_8[OF unat_u64_less] by simp
  show "of_be ?bs = unat n" using nbytes_upper[of "unat n"] by simp
qed

definition hdr :: "Kind \<Rightarrow> u64 \<Rightarrow> byte \<Rightarrow> bytes" where
  "hdr k sz b = (case k of KByte \<Rightarrow> [b] | KString \<Rightarrow> puthead 0x80 0xB7 sz
     | KList \<Rightarrow> puthead 0xC0 0xF7 sz)"

lemma hdr_nonempty [simp]: "hdr k sz b \<noteq> []"
  by (simp add: hdr_def puthead_def Let_def split: Kind.split)

lemma enc_nonempty [simp]: "enc it \<noteq> []"
  by (cases it) (auto simp: puthead_def Let_def)

lemma readLongSize_OkD:
  assumes "readLongSize k n s = (Ok (k', sz), s')" "ready s" "n \<noteq> 0" "n \<le> 8"
  shows "\<exists>bs. k' = k \<and> consumes bs s s' \<and> puthead st lt sz = (lt + n) # bs \<and> st_byteval s' = st_byteval s"
proof -
  have r: "readUint n s = (Ok sz, s')" "\<not> sz < 56" "k' = k"
    using assms(1) by (auto simp: readLongSize_def sbind_eq_Ok split: if_splits)
  obtain bs where b: "consumes bs s s'" "length bs = unat n" "canon_be bs" "sz = word_of_nat (of_be bs)"
      "st_byteval s' = st_byteval s"
    using readUint_OkD[OF r(1) assms(2-4)] by blast
  have "length bs \<le> 8" using b(2) assms(4) by (simp add: word_le_nat_alt)
  moreover have "word_of_nat (length bs) = n" using b(2) by simp
  ultimately have "puthead st lt sz = (lt + n) # bs"
    using puthead_long[OF b(3)] b(4) r(2) by (metis)
  with b r show ?thesis by blast
qed

lemma unat_ucast_u64 [simp]: "unat (ucast (b :: byte) :: u64) = unat b"
proof -
  have "unat b < 2 ^ 64" by (rule less_trans[OF byte_less_256]) simp
  then show ?thesis by (simp add: unsigned_ucast_eq take_bit_nat_eq_self)
qed

lemma ucast_ucast_byte: "(ucast (ucast (b :: byte) :: u64) :: byte) = b"
  by (simp add: ucast_byte)

lemma puthead_short:
  assumes "t \<le> b" "unat b < unat t + 56"
  shows "puthead t lt (ucast (b - t)) = [b]"
proof -
  have "unat (b - t) < 56" using assms unat_sub[of t b] by simp
  then have "(ucast (b - t) :: u64) < 56" by (simp add: word_less_nat_alt)
  then show ?thesis by (simp add: puthead_def ucast_ucast_byte)
qed

lemma readKind_OkD:
  assumes "readKind s = (Ok (k, sz), s')" "ready s"
  shows "consumes (hdr k sz (st_byteval s')) s s'" "k = KByte \<longrightarrow> sz = 0 \<and> st_byteval s' < 0x80"
proof -
  obtain b s1 where b: "readByte s = (Ok b, s1)"
    using assms(1) by (auto simp: readKind_def split: prod.splits res.splits)
  note rb = readByte_OkD[OF b assms(2)]
  let ?s2 = "s1\<lparr>st_byteval := 0\<rparr>"
  have c: "consumes [b] s ?s2" "ready ?s2" using rb by (simp_all add: consumes_def ready_def)
  have R: "(if b < 0x80 then (Ok (KByte, 0), ?s2\<lparr>st_byteval := b\<rparr>)
           else if b < 0xB8 then (Ok (KString, ucast (b - 0x80)), ?s2)
           else if b < 0xC0 then readLongSize KString (b - 0xB7) ?s2
           else if b < 0xF8 then (Ok (KList, ucast (b - 0xC0)), ?s2)
           else readLongSize KList (b - 0xF7) ?s2) = (Ok (k, sz), s')"
    using assms(1) by (simp add: readKind_def b Let_def)
  have long: "(b - t \<noteq> 0 \<and> b - t \<le> 8)" if "t < b" "unat b \<le> unat t + 8" for t
    using that unat_sub[of t b] by (auto simp: word_le_nat_alt word_less_nat_alt less_imp_le)
  consider "b < 0x80" | "\<not> b < 0x80" "b < 0xB8" | "\<not> b < 0xB8" "b < 0xC0" | "\<not> b < 0xC0" "b < 0xF8"
    | "\<not> b < 0xF8" by linarith
  then have "consumes (hdr k sz (st_byteval s')) s s' \<and> (k = KByte \<longrightarrow> sz = 0 \<and> st_byteval s' < 0x80)"
  proof cases
    case 1
    then show ?thesis using R c by (auto simp: hdr_def)
  next
    case 2
    then have "puthead 0x80 0xB7 (ucast (b - 0x80)) = [b]"
      by (intro puthead_short) (simp_all add: word_less_nat_alt word_le_nat_alt)
    then show ?thesis using R 2 c by (auto simp: hdr_def)
  next
    case 3
    then have le: "\<not> b < 0x80" by (simp add: word_less_nat_alt)
    from 3 have n: "b - 0xB7 \<noteq> 0" "b - 0xB7 \<le> 8"
      using long[of "0xB7"] by (simp_all add: word_less_nat_alt)
    have "readLongSize KString (b - 0xB7) ?s2 = (Ok (k, sz), s')" using R 3 le by auto
    from readLongSize_OkD[OF this c(2) n, of "0x80" "0xB7"] consumes_trans[OF c(1)]
    show ?thesis by (auto simp: hdr_def)
  next
    case 4
    then have "puthead 0xC0 0xF7 (ucast (b - 0xC0)) = [b]"
      by (intro puthead_short) (simp_all add: word_less_nat_alt word_le_nat_alt)
    moreover have "\<not> b < 0x80" "\<not> b < 0xB8" using 4 by (simp_all add: word_less_nat_alt)
    ultimately show ?thesis using R 4 c by (auto simp: hdr_def)
  next
    case 5
    then have le: "\<not> b < 0x80" "\<not> b < 0xB8" "\<not> b < 0xC0" by (simp_all add: word_less_nat_alt)
    from 5 have n: "b - 0xF7 \<noteq> 0" "b - 0xF7 \<le> 8"
      using long[of "0xF7"] byte_less_256[of b] by (simp_all add: word_less_nat_alt)
    have "readLongSize KList (b - 0xF7) ?s2 = (Ok (k, sz), s')" using R 5 le by auto
    from readLongSize_OkD[OF this c(2) n, of "0xC0" "0xF7"] consumes_trans[OF c(1)]
    show ?thesis by (auto simp: hdr_def)
  qed
  then show "consumes (hdr k sz (st_byteval s')) s s'" "k = KByte \<longrightarrow> sz = 0 \<and> st_byteval s' < 0x80"
    by blast+
qed

lemma unat_tag_add: "unat t + n < 256 \<Longrightarrow> unat ((t :: byte) + word_of_nat n) = unat t + n"
  by (simp add: unat_word_ariths(1) unat_byte_of_nat)

lemma readLongSize_Ok:
  assumes "ready s" "st_r s = bs @ rest" "canon_be bs" "length bs \<le> 8" "room (length bs) s"
    "of_be bs = unat sz" "\<not> sz < 56"
  shows "\<exists>s'. readLongSize k (word_of_nat (length bs)) s = (Ok (k, sz), s')"
proof -
  have "word_of_nat (of_be bs) = sz" using assms(6) by simp
  then show ?thesis
    using readUint_Ok[OF assms(1-5)] assms(7) by (auto simp: readLongSize_def sbind_def sret_def)
qed

lemma readKind_Ok:
  assumes "ready s" "st_r s = hdr k sz b @ rest" "k = KByte \<longrightarrow> sz = 0 \<and> b < 0x80"
    "room (length (hdr k sz b)) s"
  shows "\<exists>s'. readKind s = (Ok (k, sz), s') \<and> (k = KByte \<longrightarrow> st_byteval s' = b)"
proof -
  obtain b0 bs where h: "hdr k sz b = b0 # bs" using hdr_nonempty[of k sz b] by (cases "hdr k sz b") auto
  then have "room (1 + length bs) s" "room 1 s"
    using assms(4) by (auto simp: room_def split: list.splits)
  then obtain s1 where r: "readByte s = (Ok b0, s1)" "st_r s1 = bs @ rest"
    using readByte_Ok[of s b0 "bs @ rest"] assms(1,2) h by auto
  let ?s2 = "s1\<lparr>st_byteval := 0\<rparr>"
  have c: "consumes [b0] s ?s2" "ready ?s2"
    using readByte_OkD[OF r(1) assms(1)] by (simp_all add: consumes_def ready_def)
  have room2: "room (length bs) ?s2" using room_consumes[of "[b0]" "length bs" s ?s2] \<open>room (1 + length bs) s\<close> c by simp
  have short: "unat (t + ucast sz) = unat t + unat sz" "ucast (t + ucast sz - t) = sz"
    if "sz < 56" "unat t < 200" for t :: byte
    using that unat_tag_add[of t "unat sz"]
    by (simp_all add: word_less_nat_alt ucast_byte word_unat_eq_iff unat_byte_of_nat del: of_nat_unat)
  show ?thesis
  proof (cases "k = KByte \<or> sz < 56")
    case True
    then show ?thesis
      using assms(3) r(1) h short[of "0x80"] short[of "0xC0"]
      by (cases k) (auto simp: readKind_def hdr_def puthead_def word_less_nat_alt)
  next
    case False
    then consider (str) "k = KString" | (lst) "k = KList" by (cases k) auto
    then show ?thesis
    proof cases
      case str
      obtain cs where cs: "puthead 0x80 0xB7 sz = (0xB7 + word_of_nat (length cs)) # cs" "canon_be cs"
          "length cs \<le> 8" "of_be cs = unat sz" using puthead_canon[of sz] False by blast
      then have b: "b0 = 0xB7 + word_of_nat (length cs)" "bs = cs" using h str by (auto simp: hdr_def)
      then have "unat b0 = 183 + length cs" "0 < length cs"
        using cs unat_tag_add[of "0xB7" "length cs"] by (auto simp: canon_be_def)
      moreover have "\<exists>s'. readLongSize KString (word_of_nat (length cs)) ?s2 = (Ok (KString, sz), s')"
        using readLongSize_Ok[OF c(2) _ cs(2,3)] r(2) b room2 cs False by simp
      ultimately show ?thesis using r(1) cs(3) str b(1) by (auto simp: readKind_def word_less_nat_alt)
    next
      case lst
      obtain cs where cs: "puthead 0xC0 0xF7 sz = (0xF7 + word_of_nat (length cs)) # cs" "canon_be cs"
          "length cs \<le> 8" "of_be cs = unat sz" using puthead_canon[of sz] False by blast
      then have b: "b0 = 0xF7 + word_of_nat (length cs)" "bs = cs" using h lst by (auto simp: hdr_def)
      then have "unat b0 = 247 + length cs" "0 < length cs"
        using cs unat_tag_add[of "0xF7" "length cs"] by (auto simp: canon_be_def)
      moreover have "\<exists>s'. readLongSize KList (word_of_nat (length cs)) ?s2 = (Ok (KList, sz), s')"
        using readLongSize_Ok[OF c(2) _ cs(2,3)] r(2) b room2 cs False by simp
      ultimately show ?thesis using r(1) cs(3) lst b(1) by (auto simp: readKind_def word_less_nat_alt)
    qed
  qed
qed

lemma clean_readKind: "clean readKind"
proof -
  have l: "clean (readLongSize k n)" if "n \<le> 8" for k n
    unfolding readLongSize_def using that
    by (intro clean_sbind clean_readUint clean_if clean_basic) auto
  have n1: "b - 0xB7 \<le> 8" if "b < 0xC0" "\<not> b < 0xB8" for b :: byte
    using that unat_sub[of "0xB7" b] by (simp add: word_less_nat_alt word_le_nat_alt)
  have n2: "b - 0xF7 \<le> 8" if "\<not> b < 0xF8" for b :: byte
    using that unat_sub[of "0xF7" b]
    by (simp add: word_less_nat_alt word_le_nat_alt) (use byte_less_256[of b] in linarith)
  show ?thesis
    using l n1 n2 clean_readByte unfolding clean_def
    by (auto simp: readKind_def Let_def split: prod.splits res.splits if_splits) (metis fst_conv)+
qed

definition at_value :: "Stream \<Rightarrow> bool" where
  "at_value s \<longleftrightarrow> ready s \<and> st_kind s = None"

definition at_end :: "Stream \<Rightarrow> bool" where
  "at_end s \<longleftrightarrow> at_value s \<and> (\<exists>ts. st_stack s = 0 # ts)"

lemma Kind_OkD:
  assumes "Stream_Kind s = (Ok (k, sz), s')" "at_value s"
  shows "consumes (hdr k sz (st_byteval s')) s s'" "k = KByte \<longrightarrow> sz = 0 \<and> st_byteval s' < 0x80"
    "unat sz \<le> length (st_r s')" "ready s'"
proof -
  obtain s1 where r: "readKind s = (Ok (k, sz), s1)" "\<not> (st_limited s1 \<and> st_remaining s1 < sz)"
      and s': "s' = s1\<lparr>st_kind := Some k, st_size := sz, st_kinderr := None\<rparr>"
    using assms
    by (auto simp: Stream_Kind_def at_value_def Let_def split: prod.splits if_splits res.splits option.splits)
  have rd: "ready s" using assms(2) by (simp add: at_value_def)
  note k = readKind_OkD[OF r(1) rd]
  show c: "consumes (hdr k sz (st_byteval s')) s s'" "k = KByte \<longrightarrow> sz = 0 \<and> st_byteval s' < 0x80"
    using k s' by simp_all
  show rd': "ready s'" using c(1) by (rule consumes_ready)
  then show "unat sz \<le> length (st_r s')"
    using r(2) s' unat_length[OF rd'] by (simp add: ready_def word_less_nat_alt)
qed

lemma Kind_Ok:
  assumes "at_value s" "st_r s = hdr k sz b @ rest" "k = KByte \<longrightarrow> sz = 0 \<and> b < 0x80"
    "room (length (hdr k sz b) + unat sz) s" "unat sz \<le> length rest"
  shows "\<exists>s'. Stream_Kind s = (Ok (k, sz), s') \<and> (k = KByte \<longrightarrow> st_byteval s' = b)"
proof -
  have rd: "ready s" and kn: "st_kind s = None" using assms(1) by (simp_all add: at_value_def)
  have "room (length (hdr k sz b)) s" using assms(4) by (auto simp: room_def split: list.splits)
  then obtain s1 where r: "readKind s = (Ok (k, sz), s1)" "k = KByte \<longrightarrow> st_byteval s1 = b"
    using readKind_Ok[OF rd assms(2,3)] by blast
  note k = readKind_OkD[OF r(1) rd]
  have rd1: "ready s1" using k(1) by (rule consumes_ready)
  have "hdr k sz (st_byteval s1) = hdr k sz b" using r(2) by (cases k) (simp_all add: hdr_def)
  then have "st_r s1 = rest" using consumes_r[OF k(1)] assms(2) by simp
  then have "\<not> st_remaining s1 < sz" using assms(5) rd1 unat_length[OF rd1] by (simp add: ready_def word_less_nat_alt)
  moreover have "st_stack s = t # ts \<Longrightarrow> t \<noteq> 0 \<and> \<not> t < sz" for t ts
    using assms(4) hdr_nonempty[of k sz b] by (auto simp: room_def word_less_nat_alt)
  ultimately show ?thesis
    using r kn by (cases "st_stack s") (simp_all add: Stream_Kind_def listLimit_def Let_def)
qed

lemma Kind_at_end: "at_end s \<Longrightarrow> Stream_Kind s = (Err (RlpErr EOL), s)"
  by (auto simp: at_end_def at_value_def Stream_Kind_def listLimit_def)

lemma Kind_safe:
  "at_value s \<Longrightarrow> fst (Stream_Kind s) \<noteq> Panic \<and>
     (fst (Stream_Kind s) = Err (RlpErr EOL) \<longrightarrow> snd (Stream_Kind s) = s)"
  using clean_readKind
  by (auto simp: Stream_Kind_def at_value_def clean_def Let_def split: prod.splits res.splits)
     (metis fst_conv)+

section \<open>Decoders\<close>

locale decoder =
  fixes dec :: "(Stream, 'v) call" and valid :: "'v \<Rightarrow> bool" and encode :: "'v \<Rightarrow> bytes"
  assumes sound: "at_value s \<Longrightarrow> dec s = (Ok v, s') \<Longrightarrow>
      valid v \<and> consumes (encode v) s s' \<and> at_value s'"
    and complete: "at_value s \<Longrightarrow> valid v \<Longrightarrow> st_r s = encode v @ rest \<Longrightarrow>
      room (length (encode v)) s \<Longrightarrow> \<exists>s'. dec s = (Ok v, s')"
    and end_of_list: "at_end s \<Longrightarrow> dec s = (Err (RlpErr EOL), s)"
    and no_panic: "at_value s \<Longrightarrow> fst (dec s) \<noteq> Panic"
    and eol_untouched: "at_value s \<Longrightarrow> dec s = (Err (RlpErr EOL), s') \<Longrightarrow> s' = s"
    and nonempty: "encode v \<noteq> []"
begin

lemma complete_consumes:
  assumes "at_value s" "valid v" "st_r s = encode v @ rest" "room (length (encode v)) s"
  shows "\<exists>s'. dec s = (Ok v, s') \<and> consumes (encode v) s s' \<and> at_value s' \<and> st_r s' = rest"
proof -
  obtain s' where s': "dec s = (Ok v, s')" using complete[OF assms] by blast
  with sound[OF assms(1) s'] assms(3) show ?thesis by (auto simp: consumes_def)
qed

lemma progress:
  assumes "at_value s" "dec s = (Ok v, s')"
  shows "length (st_r s') < length (st_r s)"
  using sound[OF assms] nonempty[of v] by (auto simp: consumes_def)

end

text \<open>A decoder that looks at the header first, in the shape all value decoders have.\<close>

lemma decoder_Kind:
  assumes snd0: "\<And>s k sz s1 v s'. at_value s \<Longrightarrow> Stream_Kind s = (Ok (k, sz), s1) \<Longrightarrow>
      body (k, sz) s1 = (Ok v, s') \<Longrightarrow> valid v \<and> consumes (encode v) s s' \<and> st_kind s' = None"
    and cmp: "\<And>s v rest. at_value s \<Longrightarrow> valid v \<Longrightarrow> st_r s = encode v @ rest \<Longrightarrow>
      room (length (encode v)) s \<Longrightarrow>
      \<exists>k sz s1 s'. Stream_Kind s = (Ok (k, sz), s1) \<and> body (k, sz) s1 = (Ok v, s')"
    and cln: "\<And>k sz s s1. at_value s \<Longrightarrow> Stream_Kind s = (Ok (k, sz), s1) \<Longrightarrow>
      fst (body (k, sz) s1) \<noteq> Panic \<and> fst (body (k, sz) s1) \<noteq> Err (RlpErr EOL)"
    and ne: "\<And>v. encode v \<noteq> []"
  shows "decoder (sbind Stream_Kind body) valid encode"
proof
  fix s v s' rest
  assume s: "at_value s"
  { assume "sbind Stream_Kind body s = (Ok v, s')"
    then obtain k sz s1 where "Stream_Kind s = (Ok (k, sz), s1)" "body (k, sz) s1 = (Ok v, s')"
      by (auto simp: sbind_eq_Ok)
    note d = snd0[OF s this]
    moreover have "ready s'" using d consumes_ready by blast
    ultimately show "valid v \<and> consumes (encode v) s s' \<and> at_value s'" by (simp add: at_value_def) }
  { assume "valid v" "st_r s = encode v @ rest" "room (length (encode v)) s"
    from cmp[OF s this] obtain k sz s1 s' where
      "Stream_Kind s = (Ok (k, sz), s1)" "body (k, sz) s1 = (Ok v, s')" by blast
    then have "sbind Stream_Kind body s = (Ok v, s')" by (simp add: sbind_Ok)
    then show "\<exists>s'. sbind Stream_Kind body s = (Ok v, s')" by blast }
  obtain r s1 where K: "Stream_Kind s = (r, s1)" by fastforce
  have safe: "fst (sbind Stream_Kind body s) \<noteq> Panic \<and>
      (fst (sbind Stream_Kind body s) = Err (RlpErr EOL) \<longrightarrow> snd (sbind Stream_Kind body s) = s)"
  proof (cases r)
    case (Ok x)
    obtain k sz where "x = (k, sz)" by fastforce
    then show ?thesis using cln[OF s, of k sz s1] K Ok by (simp add: sbind_def)
  qed (use Kind_safe[OF s] K in \<open>simp_all add: sbind_def\<close>)
  then show "fst (sbind Stream_Kind body s) \<noteq> Panic" by blast
  { assume "sbind Stream_Kind body s = (Err (RlpErr EOL), s')"
    with safe show "s' = s" by simp }
next
  fix s
  assume "at_end s"
  then show "sbind Stream_Kind body s = (Err (RlpErr EOL), s)"
    by (simp add: sbind_def Kind_at_end)
qed (rule ne)

subsection \<open>Strings\<close>

lemma byte_sound:
  assumes "at_value s" "Stream_Kind s = (Ok (KByte, sz), s1)"
  shows "consumes (enc (Str [st_byteval s1])) s s1" "st_byteval s1 < 0x80"
  using Kind_OkD[OF assms(2,1)] by (simp_all add: hdr_def)

lemma str_sound:
  assumes "at_value s" "Stream_Kind s = (Ok (KString, sz), s1)" "consumes b s1 s'" "length b = unat sz"
    "\<not> (sz = 1 \<and> b ! 0 < 128)"
  shows "consumes (enc (Str b)) s s'"
proof -
  have w: "word_of_nat (length b) = sz" by (simp add: assms(4))
  have "sz = 1" if "length b = 1" using w that by simp
  then have "\<not> (length b = 1 \<and> b ! 0 < 0x80)" using assms(5) by blast
  then have "enc (Str b) = puthead 0x80 0xB7 sz @ b" by (simp only: enc.simps if_False w)
  then show ?thesis
    using consumes_trans[OF Kind_OkD(1)[OF assms(2,1)] assms(3)] by (simp add: hdr_def del: enc.simps)
qed

lemma str_complete:
  assumes "at_value s" "st_r s = enc (Str b) @ rest" "room (length (enc (Str b))) s"
  shows "(\<exists>s1 x. Stream_Kind s = (Ok (KByte, 0), s1) \<and> b = [x] \<and> st_byteval s1 = x) \<or>
    (\<exists>s1. Stream_Kind s = (Ok (KString, word_of_nat (length b)), s1) \<and> ready s1 \<and> st_r s1 = b @ rest
       \<and> room (length b) s1 \<and> \<not> (length b = 1 \<and> b ! 0 < 128) \<and> length b < 2 ^ 63)"
proof (cases "length b = 1 \<and> b ! 0 < 0x80")
  case True
  then obtain x where x: "b = [x]" "x < 0x80" by (cases b) auto
  then show ?thesis using Kind_Ok[of s KByte 0 x rest] assms by (auto simp: hdr_def)
next
  case False
  let ?sz = "word_of_nat (length b) :: u64"
  have e: "enc (Str b) = hdr KString ?sz 0 @ b" using False by (auto simp: hdr_def)
  have l: "length b < 2 ^ 63" using assms(1,2) e by (simp add: at_value_def ready_def)
  then have u: "unat ?sz = length b" by simp
  obtain s1 where s1: "Stream_Kind s = (Ok (KString, ?sz), s1)"
    using Kind_Ok[of s KString ?sz 0 "b @ rest"] assms e u by auto
  note k = Kind_OkD[OF s1 assms(1)]
  have c: "consumes (hdr KString ?sz 0) s s1" using k(1) by (simp add: hdr_def)
  then have "st_r s1 = b @ rest" using assms(2) e by (simp add: consumes_def)
  moreover have "room (length b) s1" using room_consumes[OF _ c] assms(3) e by simp
  ultimately show ?thesis using s1 k(4) False l by blast
qed

lemma decoder_string:
  assumes byteS: "\<And>s1 v s'. st_byteval s1 < 0x80 \<Longrightarrow> fB s1 = (Ok v, s') \<Longrightarrow>
      valid v \<and> s' = s1\<lparr>st_kind := None\<rparr> \<and> content v = [st_byteval s1]"
    and strS: "\<And>sz s1 v s'. ready s1 \<Longrightarrow> fS sz s1 = (Ok v, s') \<Longrightarrow>
      valid v \<and> consumes (content v) s1 s' \<and> st_kind s' = None \<and> length (content v) = unat sz \<and>
      \<not> (sz = 1 \<and> content v ! 0 < 128)"
    and byteC: "\<And>s1 v. valid v \<Longrightarrow> content v = [st_byteval s1] \<Longrightarrow> st_byteval s1 < 0x80 \<Longrightarrow>
      \<exists>s'. fB s1 = (Ok v, s')"
    and strC: "\<And>s1 v rest. ready s1 \<Longrightarrow> valid v \<Longrightarrow> st_r s1 = content v @ rest \<Longrightarrow>
      room (length (content v)) s1 \<Longrightarrow> \<not> (length (content v) = 1 \<and> content v ! 0 < 128) \<Longrightarrow>
      length (content v) < 2 ^ 63 \<Longrightarrow> \<exists>s'. fS (word_of_nat (length (content v))) s1 = (Ok v, s')"
    and cln: "clean fB" "\<And>sz. clean (fS sz)"
  shows "decoder (sbind Stream_Kind (\<lambda>(k, sz). case k of KByte \<Rightarrow> fB | KString \<Rightarrow> fS sz
           | KList \<Rightarrow> slift (Err (RlpErr ErrExpectedString)))) valid (\<lambda>v. enc (Str (content v)))"
proof (rule decoder_Kind, goal_cases)
  case (1 s k sz s1 v s')
  show ?case
  proof (cases k)
    case KByte
    have "fB s1 = (Ok v, s')" "Stream_Kind s = (Ok (KByte, sz), s1)" using 1 KByte by simp_all
    from byteS[OF byte_sound(2)[OF 1(1) this(2)] this(1)] byte_sound(1)[OF 1(1) this(2)]
    show ?thesis by (simp del: enc.simps)
  next
    case KString
    have k: "fS sz s1 = (Ok v, s')" "Stream_Kind s = (Ok (KString, sz), s1)" using 1 KString by simp_all
    have "ready s1" using Kind_OkD(4)[OF k(2) 1(1)] .
    from strS[OF this k(1)] str_sound[OF 1(1) k(2)] show ?thesis by (simp del: enc.simps)
  qed (use 1 in simp)
next
  case (2 s v rest)
  then consider s1 x where "Stream_Kind s = (Ok (KByte, 0), s1)" "content v = [x]" "st_byteval s1 = x"
    | s1 where "Stream_Kind s = (Ok (KString, word_of_nat (length (content v))), s1)" "ready s1"
       "st_r s1 = content v @ rest" "room (length (content v)) s1"
       "\<not> (length (content v) = 1 \<and> content v ! 0 < 128)" "length (content v) < 2 ^ 63"
    using str_complete[OF 2(1,3,4)] by blast
  then show ?case
  proof cases
    case (1 s1 x)
    then have "\<exists>s'. fB s1 = (Ok v, s')" using byteC[OF 2(2)] byte_sound(2)[OF 2(1) 1(1)] by simp
    then show ?thesis using 1(1) by fastforce
  next
    case (2 s1)
    then have "\<exists>s'. fS (word_of_nat (length (content v))) s1 = (Ok v, s')"
      using strC \<open>valid v\<close> by blast
    then show ?thesis using 2(1) by fastforce
  qed
next
  case (3 k sz s s1)
  then show ?case using cln by (cases k) (simp_all add: clean_def slift_def)
qed (rule enc_nonempty)

lemma clean_Byte [simp, intro]: "clean (\<lambda>s. (Ok (f s), g s))"
  by (simp add: clean_def)

lemma readFull_word_Ok:
  assumes "ready s1" "st_r s1 = b @ rest" "room (length b) s1" "length b < 2 ^ 63"
  shows "\<exists>s'. readFull (unat (word_of_nat (length b) :: u64)) s1 = (Ok b, s')"
proof -
  have "unat (word_of_nat (length b) :: u64) = length b" using assms(4) by simp
  then show ?thesis using readFull_Ok[OF assms(1-3)] by auto
qed

lemma word_len_1: "n < 2 ^ 63 \<Longrightarrow> (word_of_nat n :: u64) = 1 \<longleftrightarrow> n = 1"
  by (simp add: word_unat_eq_iff)

lemma decoder_Bytes: "decoder Stream_Bytes (\<lambda>b. True) (\<lambda>b. enc (Str b))"
  unfolding Stream_Bytes_def
proof (rule decoder_string, goal_cases)
  case (2 sz s1 v s')
  then have "readFull (unat sz) s1 = (Ok v, s')" "\<not> (sz = 1 \<and> v ! 0 < 128)"
    by (auto simp: sbind_eq_Ok split: if_splits)
  with readFull_OkD[OF this(1) 2(1) unat_u64_less] show ?case by blast
next
  case (4 s1 v rest)
  obtain s' where "readFull (unat (word_of_nat (length v) :: u64)) s1 = (Ok v, s')"
    using readFull_word_Ok[OF 4(1,3,4,6)] by blast
  then show ?case using 4(5) word_len_1[OF 4(6)] by (simp add: sbind_Ok sret_def)
next
  case (6 sz)
  then show ?case by (intro clean_sbind clean_if clean_readFull) auto
qed auto

subsection \<open>Integers and booleans\<close>

lemma decoder_BigInt:
  "decoder decodeBigInt (\<lambda>i. 0 \<le> i) (\<lambda>i. enc (Str (min_be (nat i))))"
proof -
  let ?fin = "\<lambda>buffer. if buffer \<noteq> [] \<and> buffer ! 0 = 0 then slift (Err (RlpErr ErrCanonInt))
       else sret (int (of_be buffer))"
  let ?fB = "sbind (\<lambda>s. (Ok [st_byteval s], s\<lparr>st_kind := None\<rparr>)) ?fin"
  let ?rd = "\<lambda>sz :: u64. if sz = 0 then (\<lambda>s. (Ok [], s\<lparr>st_kind := None\<rparr>))
            else if sz \<le> 32 then
              sbind (readFull (unat sz)) (\<lambda>b.
                if sz = 1 \<and> b ! 0 < 128 then slift (Err (RlpErr ErrCanonSize)) else sret b)
            else readFull (unat sz)"
  have e: "decodeBigInt = sbind Stream_Kind (\<lambda>(k, sz). case k of KByte \<Rightarrow> ?fB | KString \<Rightarrow> sbind (?rd sz) ?fin
           | KList \<Rightarrow> slift (Err (RlpErr ErrExpectedString)))"
    unfolding decodeBigInt_def
    by (intro arg_cong[of _ _ "sbind Stream_Kind"] ext) (auto simp: sbind_def slift_def split: Kind.splits)
  have rdD: "consumes b s1 s' \<and> st_kind s' = None \<and> length b = unat sz \<and> \<not> (sz = 1 \<and> b ! 0 < 128)"
    if rd: "?rd sz s1 = (Ok b, s')" and s1: "ready s1" for sz b s1 s'
  proof (cases "sz = 0")
    case True
    then show ?thesis using rd s1 by auto
  next
    case False
    have "(1 :: u64) \<le> 32" by (simp add: word_le_nat_alt)
    then have "readFull (unat sz) s1 = (Ok b, s')" "\<not> (sz = 1 \<and> b ! 0 < 128)"
      using rd False by (auto simp: sbind_eq_Ok split: if_splits)
    with readFull_OkD[OF this(1) s1 unat_u64_less] show ?thesis by blast
  qed
  have rdC: "\<exists>s'. ?rd (word_of_nat (length b)) s1 = (Ok b, s')"
    if a: "ready s1" "st_r s1 = b @ rest" "room (length b) s1" "\<not> (length b = 1 \<and> b ! 0 < 128)" "length b < 2 ^ 63"
    for b s1 rest
  proof (cases "b = []")
    case False
    obtain s' where "readFull (unat (word_of_nat (length b) :: u64)) s1 = (Ok b, s')"
      using readFull_word_Ok[OF a(1,2,3,5)] by blast
    moreover have "(word_of_nat (length b) :: u64) \<noteq> 0" using False a(5) by (simp add: word_unat_eq_iff)
    ultimately show ?thesis using a(4) word_len_1[OF a(5)] by (simp add: sbind_Ok sret_def)
  qed simp
  show ?thesis unfolding e
  proof (rule decoder_string, goal_cases)
    case (1 s1 v s')
    then have "v = int (of_be [st_byteval s1])" "st_byteval s1 \<noteq> 0" "s' = s1\<lparr>st_kind := None\<rparr>"
      by (auto simp: sbind_def split: if_splits)
    then show ?case using min_be_of_be[of "[st_byteval s1]"] by simp
  next
    case (2 sz s1 v s')
    obtain b s2 where 3: "?rd sz s1 = (Ok b, s2)" "?fin b s2 = (Ok v, s')"
      using 2(2) unfolding sbind_eq_Ok by blast
    from 3(2) have "s2 = s'" and b': "b \<noteq> [] \<longrightarrow> b ! 0 \<noteq> 0" "v = int (of_be b)"
      by (auto split: if_splits)
    then have b: "?rd sz s1 = (Ok b, s')" "b \<noteq> [] \<longrightarrow> b ! 0 \<noteq> 0" "v = int (of_be b)"
      using 3(1) by (blast+)
    then show ?case using rdD[OF b(1) 2(1)] min_be_of_be[OF b(2)] by simp
  next
    case (3 s1 v)
    have "nat v = of_be [st_byteval s1]" using 3(2) by (metis of_be_min_be)
    then have "v = int (of_be [st_byteval s1])" using 3(1) by (metis int_nat_eq)
    moreover have "st_byteval s1 \<noteq> 0" using min_be_lead[of "nat v"] 3(2) by simp
    ultimately show ?case by (simp add: sbind_def sret_def)
  next
    case (4 s1 v rest)
    obtain s' where "?rd (word_of_nat (length (min_be (nat v)))) s1 = (Ok (min_be (nat v)), s')"
      using rdC[OF 4(1,3-6)] by blast
    then have "sbind (?rd (word_of_nat (length (min_be (nat v))))) ?fin s1 = ?fin (min_be (nat v)) s'"
      by (rule sbind_Ok)
    also have "\<dots> = (Ok v, s')" using min_be_lead[of "nat v"] 4(2) by (auto simp: sret_def)
    finally show ?case by blast
  next
    case 5
    show ?case by (intro clean_sbind clean_if clean_basic clean_Byte) auto
  next
    case (6 sz)
    show ?case by (intro clean_sbind clean_if clean_basic clean_Byte clean_readFull) auto
  qed
qed

lemma unat_ucast_byte: "unat (sz :: u64) < 256 \<Longrightarrow> unat (ucast sz :: byte) = unat sz"
  by (simp add: ucast_byte unat_byte_of_nat del: of_nat_unat)

definition uint_width :: "nat \<Rightarrow> bool" where
  "uint_width n \<longleftrightarrow> n \<in> {8, 16, 32, 64}"

lemma uint_width_size:
  "uint_width n \<Longrightarrow> sz \<le> (word_of_nat (n div 8) :: u64) \<longleftrightarrow> unat sz \<le> n div 8"
  "uint_width n \<Longrightarrow> 256 ^ (n div 8) = (2::nat) ^ n"
  "uint_width n \<Longrightarrow> n div 8 \<le> 8" "uint_width n \<Longrightarrow> 128 < (2::nat) ^ n"
  by (auto simp: uint_width_def word_le_nat_alt)

lemma readUint_sound:
  assumes "readUint (ucast (sz :: u64)) s1 = (Ok v, s')" "ready s1" "unat sz \<le> 8" "\<not> (sz > 0 \<and> v < 128)"
  shows "consumes (min_be (unat v)) s1 s' \<and> st_kind s' = None \<and> length (min_be (unat v)) = unat sz
     \<and> \<not> (sz = 1 \<and> min_be (unat v) ! 0 < 128)"
proof (cases "sz = 0")
  case True
  then show ?thesis using assms(1,2) by (auto simp: readUint_def min_be_def)
next
  case False
  have u: "unat (ucast sz :: byte) = unat sz" using assms(3) by (intro unat_ucast_byte) linarith
  then have n: "(ucast sz :: byte) \<noteq> 0" "(ucast sz :: byte) \<le> 8"
    using False assms(3) by (auto simp: word_le_nat_alt unat_eq_zero simp flip: unat_eq_zero)
  obtain bs where bs: "consumes bs s1 s'" "length bs = unat sz" "canon_be bs" "v = word_of_nat (of_be bs)"
      "st_kind s' = None"
    using readUint_OkD[OF assms(1,2) n] u by auto
  have "of_be bs < 256 ^ length bs" by (rule of_be_less)
  also have "(256::nat) ^ length bs \<le> 256 ^ 8" using bs(2) assms(3) by (intro power_increasing) simp_all
  finally have v: "unat v = of_be bs" using bs(4) by simp
  have ge: "\<not> v < 128" using assms(4) False by (auto simp: word_less_nat_alt unat_gt_0)
  then have nz: "of_be bs \<noteq> 0" using v by (auto simp: word_less_nat_alt)
  have m: "min_be (unat v) = bs" using min_be_canon[OF bs(3) nz] v by simp
  moreover have "\<not> (sz = 1 \<and> bs ! 0 < 128)"
    using ge v bs(2) by (cases bs) (auto simp: word_less_nat_alt)
  ultimately show ?thesis using bs by simp
qed

lemma readUint_complete:
  assumes "ready s1" "st_r s1 = min_be (unat v) @ rest" "room (length (min_be (unat v))) s1"
    "\<not> (length (min_be (unat v)) = 1 \<and> min_be (unat v) ! 0 < 128)"
  shows "\<exists>s'. readUint (ucast (word_of_nat (length (min_be (unat v))) :: u64)) s1 = (Ok v, s')
    \<and> (v < 128 \<longrightarrow> length (min_be (unat v)) = 0)"
proof (cases "v = 0")
  case True
  then show ?thesis by (simp add: min_be_def readUint_def)
next
  case False
  let ?b = "min_be (unat v)"
  have nz: "unat v \<noteq> 0" using False by (simp add: unat_eq_zero)
  have l: "length ?b \<le> 8" using length_min_be_le[of "unat v" 8] unat_u64_less[of v] by simp
  have "canon_be ?b" using canon_to_be[OF nz] nz by (simp add: min_be_def)
  with readUint_Ok[OF assms(1,2) _ l assms(3)]
  have "\<exists>s'. readUint (word_of_nat (length ?b)) s1 = (Ok v, s')" by simp
  moreover have "(ucast (word_of_nat (length ?b) :: u64) :: byte) = word_of_nat (length ?b)"
    using l by (simp add: ucast_byte)
  moreover have "\<not> v < 128"
  proof
    assume "v < 128"
    then have "unat v < 128" by (simp add: word_less_nat_alt)
    then have "?b = [word_of_nat (unat v)]" "unat (word_of_nat (unat v) :: byte) < 128"
      using min_be_byte[OF nz] by (simp_all add: unat_byte_of_nat del: of_nat_unat)
    then show False using assms(4) by (simp add: word_less_nat_alt del: of_nat_unat)
  qed
  ultimately show ?thesis by auto
qed

lemma decoder_uint:
  assumes n: "uint_width n"
  shows "decoder (Stream_uint n) (\<lambda>u. unat u < 2 ^ n) (\<lambda>u. enc (Str (min_be (unat u))))"
  unfolding Stream_uint_def
proof (rule decoder_string, goal_cases)
  case (1 s1 v s')
  then have v: "st_byteval s1 \<noteq> 0" "v = ucast (st_byteval s1)" "s' = s1\<lparr>st_kind := None\<rparr>"
    by (auto split: if_splits)
  have lt: "unat (st_byteval s1) < 128" using 1(1) by (simp add: word_less_nat_alt)
  then have "unat v < 2 ^ n" using v uint_width_size(4)[OF n] by simp
  moreover have "min_be (unat v) = [st_byteval s1]"
    using min_be_byte[of "unat (st_byteval s1)"] lt v by (simp add: unat_eq_zero)
  ultimately show ?case using v by simp
next
  case (2 sz s1 v s')
  then have sz: "unat sz \<le> n div 8" and r: "readUint (ucast sz) s1 = (Ok v, s')" "\<not> (sz > 0 \<and> v < 128)"
    using uint_width_size(1)[OF n, of sz]
    by (auto simp: not_less split: if_splits prod.splits res.splits)
  then have "unat sz \<le> 8" using uint_width_size(3)[OF n] by linarith
  note s = readUint_sound[OF r(1) 2(1) this r(2)]
  have "unat v < 256 ^ length (min_be (unat v))" using of_be_less[of "min_be (unat v)"] by simp
  also have "\<dots> \<le> 256 ^ (n div 8)" using s sz by (intro power_increasing) simp_all
  finally show ?case using s uint_width_size(2)[OF n] by simp
next
  case (3 s1 v)
  then have "of_be (min_be (unat v)) = of_be [st_byteval s1]" by simp
  then have "v = ucast (st_byteval s1)" by (simp add: word_unat_eq_iff)
  moreover have "st_byteval s1 \<noteq> 0" using min_be_lead[of "unat v"] 3(2) by simp
  ultimately show ?case by simp
next
  case (4 s1 v rest)
  have "length (min_be (unat v)) \<le> n div 8"
    using length_min_be_le[of "unat v" "n div 8"] 4(2) uint_width_size(2)[OF n] by simp
  moreover have u: "unat (word_of_nat (length (min_be (unat v))) :: u64) = length (min_be (unat v))"
    using 4(6) by simp
  ultimately have "(word_of_nat (length (min_be (unat v))) :: u64) \<le> word_of_nat (n div 8)"
    using uint_width_size(1)[OF n] by simp
  moreover have "(0 :: u64) < word_of_nat (length (min_be (unat v))) \<longrightarrow> length (min_be (unat v)) \<noteq> 0" by auto
  ultimately show ?case using readUint_complete[OF 4(1,3,4,5)] by auto
next
  case (6 sz)
  have "clean (readUint (ucast sz))" if "sz \<le> word_of_nat (n div 8)"
  proof -
    have "unat sz \<le> 8" using that uint_width_size(1,3)[OF n] by (auto intro: order_trans)
    then show ?thesis by (intro clean_readUint) (simp add: word_le_nat_alt unat_ucast_byte)
  qed
  then show ?case
    by (auto simp: clean_def slift_def not_less split: prod.splits res.splits) (metis fst_conv)+
qed (auto simp: clean_def)

lemma decoder_map:
  assumes d: "decoder f P e"
    and fwd: "\<And>a b. P a \<Longrightarrow> g a = Ok b \<Longrightarrow> Q b \<and> e' b = e a"
    and bwd: "\<And>b. Q b \<Longrightarrow> \<exists>a. P a \<and> g a = Ok b \<and> e a = e' b"
    and cln: "\<And>a. g a \<noteq> Panic" "\<And>a. g a \<noteq> Err (RlpErr EOL)"
    and ne: "\<And>b. e' b \<noteq> []"
  shows "decoder (sbind f (\<lambda>a. slift (g a))) Q e'"
proof
  fix s v s' rest
  assume s: "at_value s"
  { assume "sbind f (\<lambda>a. slift (g a)) s = (Ok v, s')"
    then obtain a where a: "f s = (Ok a, s')" "g a = Ok v" by (auto simp: sbind_eq_Ok)
    with decoder.sound[OF d s a(1)] fwd[of a v] show "Q v \<and> consumes (e' v) s s' \<and> at_value s'" by simp }
  { assume "Q v" "st_r s = e' v @ rest" "room (length (e' v)) s"
    with bwd[of v] obtain a where a: "P a" "g a = Ok v" "e a = e' v" by blast
    then obtain s' where "f s = (Ok a, s')"
      using decoder.complete[OF d s, of a rest] \<open>st_r s = _\<close> \<open>room _ s\<close> by auto
    then show "\<exists>s'. sbind f (\<lambda>a. slift (g a)) s = (Ok v, s')" using a(2) by (simp add: sbind_Ok slift_def) }
  show "fst (sbind f (\<lambda>a. slift (g a)) s) \<noteq> Panic"
    using decoder.no_panic[OF d s] cln by (auto simp: sbind_def slift_def split: prod.splits res.splits)
  { assume "sbind f (\<lambda>a. slift (g a)) s = (Err (RlpErr EOL), s')"
    then have "f s = (Err (RlpErr EOL), s')" using cln by (auto simp: sbind_def slift_def split: prod.splits res.splits)
    then show "s' = s" by (rule decoder.eol_untouched[OF d s]) }
next
  fix s
  assume "at_end s"
  then show "sbind f (\<lambda>a. slift (g a)) s = (Err (RlpErr EOL), s)"
    by (simp add: sbind_def decoder.end_of_list[OF d])
qed (rule ne)

lemma sret_slift: "sret = (\<lambda>a. slift (Ok a))"
  by (simp add: fun_eq_iff sret_def slift_def)

lemma decoder_wrap:
  assumes "decoder f P e" "\<And>b. Q b \<longleftrightarrow> (\<exists>a. b = C a \<and> P a)" "\<And>a. e' (C a) = e a" "\<And>b. e' b \<noteq> []"
  shows "decoder (sbind f (\<lambda>a. sret (C a))) Q e'"
  unfolding sret_slift by (rule decoder_map[OF assms(1)]) (use assms(2-4) in auto)

lemma decoder_Bool: "decoder Stream_Bool (\<lambda>b. True) (\<lambda>b. enc (Str (if b then [1] else [])))"
proof -
  let ?g = "\<lambda>num :: u64. if num = 0 then Ok False else if num = 1 then Ok True
     else Err (RlpErr InvalidBoolean)"
  have e: "Stream_Bool = sbind (Stream_uint 8) (\<lambda>num. slift (?g num))"
    unfolding Stream_Bool_def by (intro arg_cong[of _ _ "sbind (Stream_uint 8)"] ext) (simp add: sret_slift)
  have m: "min_be (unat (if b then 1 else (0 :: u64))) = (if b then [1] else [])" for b
    by (simp add: min_be_def nbytes.simps)
  show ?thesis unfolding e
  proof (rule decoder_map[OF decoder_uint])
    fix b
    show "\<exists>a. unat a < 2 ^ 8 \<and> ?g a = Ok b \<and> enc (Str (min_be (unat a))) = enc (Str (if b then [1] else []))"
      using m[of b] by (intro exI[of _ "if b then 1 else 0"]) (simp del: enc.simps)
  next
    fix a :: u64 and b
    assume "?g a = Ok b"
    then have "a = (if b then 1 else 0)" by (auto split: if_splits)
    then show "True \<and> enc (Str (if b then [1] else [])) = enc (Str (min_be (unat a)))"
      using m[of b] by (simp del: enc.simps)
  qed (auto simp: uint_width_def simp del: enc.simps)
qed

lemma decoder_ByteArray: "decoder (decodeByteArray n) (\<lambda>b. length b = n) (\<lambda>b. enc (Str b))"
  unfolding decodeByteArray_def
proof (rule decoder_string, goal_cases)
  case (1 s1 v s')
  then show ?case by (auto split: if_splits)
next
  case (2 sz s1 v s')
  then have n: "n = unat sz" and r: "readFull (unat sz) s1 = (Ok v, s')" "\<not> (sz = 1 \<and> v ! 0 < 128)"
    by (auto simp: sbind_eq_Ok split: if_splits)
  with readFull_OkD[OF r(1) 2(1) unat_u64_less] show ?case by blast
next
  case (4 s1 v rest)
  obtain s' where "readFull (unat (word_of_nat (length v) :: u64)) s1 = (Ok v, s')"
    using readFull_word_Ok[OF 4(1,3,4,6)] by blast
  moreover have "unat (word_of_nat (length v) :: u64) = n" using 4(2,6) by simp
  ultimately show ?case using 4(2,5) word_len_1[OF 4(6)] by (simp add: sbind_Ok sret_def)
next
  case (6 sz)
  show ?case by (intro clean_if clean_sbind clean_readFull) auto
qed auto

subsection \<open>Lists\<close>

definition list_enc :: "bytes \<Rightarrow> bytes" where
  "list_enc c = puthead 0xC0 0xF7 (word_of_nat (length c)) @ c"

lemma enc_Lst: "enc (Lst xs) = list_enc (concat (map enc xs))"
  by (simp add: list_enc_def Let_def)

text \<open>Entering a list pushes its size; leaving it needs the size used up. Because unread
  input is shorter than the word size, the two together force the content to have exactly
  the announced size, also when \<open>List\<close> wrapped the limit of the enclosing list.\<close>

lemma List_OkD:
  assumes "Stream_List s = (Ok sz, s1)" "at_value s"
  shows "at_value s1" "st_r s = puthead 0xC0 0xF7 sz @ st_r s1"
    "st_stack s1 = sz # sub_top (length (puthead 0xC0 0xF7 sz) + unat sz) (st_stack s)"
proof -
  obtain s0 where k: "Stream_Kind s = (Ok (KList, sz), s0)" and
    s1: "s1 = s0\<lparr>st_stack := sz # (if fst (listLimit s0) then (snd (listLimit s0) - sz) # tl (st_stack s0)
           else st_stack s0), st_kind := None, st_size := 0\<rparr>"
    using assms(1) unfolding Stream_List_def sbind_eq_Ok
    by (auto simp: Let_def case_prod_beta split: if_splits)
  note d = Kind_OkD[OF k assms(2)]
  have c: "consumes (puthead 0xC0 0xF7 sz) s s0" using d(1) by (simp add: hdr_def)
  show "at_value s1" using d(4) s1 by (simp add: at_value_def ready_def)
  show "st_r s = puthead 0xC0 0xF7 sz @ st_r s1" using c s1 by (simp add: consumes_def)
  show "st_stack s1 = sz # sub_top (length (puthead 0xC0 0xF7 sz) + unat sz) (st_stack s)"
    using c s1 by (cases "st_stack s") (simp_all add: consumes_def listLimit_def)
qed

lemma List_Ok:
  assumes "at_value s" "st_r s = list_enc c @ rest" "room (length (list_enc c)) s"
  shows "\<exists>s1. Stream_List s = (Ok (word_of_nat (length c)), s1)"
proof -
  let ?sz = "word_of_nat (length c) :: u64"
  have "length c < 2 ^ 63" using assms(1,2) by (simp add: at_value_def ready_def list_enc_def)
  then have u: "unat ?sz = length c" by simp
  have "\<exists>s1. Stream_Kind s = (Ok (KList, ?sz), s1)"
    using Kind_Ok[of s KList ?sz 0 "c @ rest"] assms u by (simp add: hdr_def list_enc_def)
  then show ?thesis by (auto simp: Stream_List_def sbind_def Let_def split: prod.splits)
qed

lemma List_at_end: "at_end s \<Longrightarrow> Stream_List s = (Err (RlpErr EOL), s)"
  by (simp add: Stream_List_def sbind_def Kind_at_end)

lemma List_safe:
  assumes "at_value s"
  shows "fst (Stream_List s) \<noteq> Panic \<and> (fst (Stream_List s) = Err (RlpErr EOL) \<longrightarrow> snd (Stream_List s) = s)"
  using Kind_safe[OF assms] by (auto simp: Stream_List_def sbind_def slift_def Let_def split: prod.splits res.splits)

lemma ListEnd_OkD:
  assumes "Stream_ListEnd s = (Ok u, s')" "at_value s"
  shows "at_value s'" "st_r s' = st_r s" "\<exists>ts. st_stack s = 0 # ts \<and> st_stack s' = ts"
  using assms
  by (auto simp: Stream_ListEnd_def listLimit_def at_value_def ready_def Let_def word_gt_0
      split: if_splits list.splits)

lemma ListEnd_Ok: "st_stack s = 0 # ts \<Longrightarrow> \<exists>s'. Stream_ListEnd s = (Ok (), s')"
  by (simp add: Stream_ListEnd_def listLimit_def)

lemma clean_ListEnd: "clean Stream_ListEnd"
  by (auto simp: clean_def Stream_ListEnd_def Let_def split: prod.splits)

text \<open>The body of a list: what it decodes, from a stream positioned at the content.\<close>

locale list_body =
  fixes body :: "u64 \<Rightarrow> (Stream, 'v) call" and valid :: "'v \<Rightarrow> bool" and content :: "'v \<Rightarrow> bytes"
  assumes body_sound: "at_value s \<Longrightarrow> body sz s = (Ok v, s') \<Longrightarrow> st_stack s = sz # ts \<Longrightarrow>
      st_stack s' = 0 # ts' \<Longrightarrow> valid v \<and> consumes (content v) s s' \<and> at_value s'"
    and body_value: "at_value s \<Longrightarrow> body sz s = (Ok v, s') \<Longrightarrow> at_value s'"
    and body_complete: "at_value s \<Longrightarrow> valid v \<Longrightarrow> st_r s = content v @ rest \<Longrightarrow>
      st_stack s = word_of_nat (length (content v)) # ts \<Longrightarrow>
      \<exists>s' ts'. body (word_of_nat (length (content v))) s = (Ok v, s') \<and> st_stack s' = 0 # ts'"
    and body_safe: "at_value s \<Longrightarrow> fst (body sz s) \<noteq> Panic \<and> fst (body sz s) \<noteq> Err (RlpErr EOL)"
begin

lemma decoder_list:
  "decoder (sbind Stream_List (\<lambda>sz. sbind (body sz) (\<lambda>vs. sbind Stream_ListEnd (\<lambda>_. sret vs)))) valid
     (\<lambda>v. list_enc (content v))" (is "decoder ?d valid _")
proof
  fix s v s' rest
  assume s: "at_value s"
  { assume "?d s = (Ok v, s')"
    then obtain sz s1 s2 where
      1: "Stream_List s = (Ok sz, s1)" and 2: "body sz s1 = (Ok v, s2)" and
      3: "Stream_ListEnd s2 = (Ok (), s')" by (auto simp: sbind_eq_Ok)
    note l = List_OkD[OF 1 s]
    have v2: "at_value s2" using body_value[OF l(1) 2] .
    obtain ts' where ts': "st_stack s2 = 0 # ts'" "st_stack s' = ts'" using ListEnd_OkD(3)[OF 3 v2] by blast
    note b = body_sound[OF l(1) 2 l(3) ts'(1)]
    have "st_r s1 = content v @ st_r s2" using b by (simp add: consumes_def)
    then have len: "length (content v) < 2 ^ 64" using l(1) by (simp add: at_value_def ready_def)
    have "sz - word_of_nat (length (content v)) = 0"
      and stk: "ts' = sub_top (length (puthead 0xC0 0xF7 sz) + unat sz) (st_stack s)"
      using b ts' l(3) by (auto simp: consumes_def)
    then have sz: "sz = word_of_nat (length (content v))" "unat sz = length (content v)" using len by simp_all
    note e = ListEnd_OkD[OF 3 v2]
    show "valid v \<and> consumes (list_enc (content v)) s s' \<and> at_value s'"
      using b e l(2) stk ts' sz by (auto simp: consumes_def list_enc_def at_value_def) }
  { assume v: "valid v" "st_r s = list_enc (content v) @ rest" "room (length (list_enc (content v))) s"
    let ?sz = "word_of_nat (length (content v)) :: u64"
    obtain s1 where 1: "Stream_List s = (Ok ?sz, s1)" using List_Ok[OF s v(2,3)] by blast
    note l = List_OkD[OF 1 s]
    have "st_r s1 = content v @ rest" using l(2) v(2) by (simp add: list_enc_def)
    then obtain s2 ts' where 2: "body ?sz s1 = (Ok v, s2)" "st_stack s2 = 0 # ts'"
      using body_complete[OF l(1) v(1) _ l(3)] by blast
    obtain s3 where "Stream_ListEnd s2 = (Ok (), s3)" using ListEnd_Ok[OF 2(2)] by blast
    then show "\<exists>s'. ?d s = (Ok v, s')" using 1 2 by (simp add: sbind_def sret_def) }
  obtain r s1 where L: "Stream_List s = (r, s1)" by fastforce
  have safe: "fst (?d s) \<noteq> Panic \<and> (fst (?d s) = Err (RlpErr EOL) \<longrightarrow> snd (?d s) = s)"
  proof (cases r)
    case (Ok sz)
    have "at_value s1" using List_OkD(1)[OF L[unfolded Ok] s] .
    from body_safe[OF this, of sz] clean_ListEnd show ?thesis
      by (auto simp: sbind_def L Ok clean_def sret_def split: prod.splits res.splits) (metis fst_conv)+
  qed (use List_safe[OF s] L in \<open>simp_all add: sbind_def\<close>)
  then show "fst (?d s) \<noteq> Panic" by blast
  { assume "?d s = (Err (RlpErr EOL), s')"
    with safe show "s' = s" by simp }
next
  fix s
  assume "at_end s"
  then show "?d s = (Err (RlpErr EOL), s)" by (simp add: sbind_def List_at_end)
next
  fix v
  show "list_enc (content v) \<noteq> []" by (simp add: list_enc_def puthead_def Let_def)
qed

end

lemma room_top:
  assumes "at_value s" "st_r s = (a @ b) @ rest" "st_stack s = word_of_nat (length (a @ b)) # ts"
  shows "room (length a) s" "room (length (a @ b)) s"
proof -
  have "length (a @ b) < 2 ^ 64" using assms(1,2) by (simp add: at_value_def ready_def)
  then have u: "unat (word_of_nat (length (a @ b)) :: u64) = length (a @ b)" by (rule unat_of_nat_u64)
  show "room (length a) s" "room (length (a @ b)) s" unfolding room_def assms(3) list.case u by simp_all
qed

context decoder
begin

lemma elems_sound:
  "at_value s \<Longrightarrow> decodeSliceElems dec fuel s = (Ok vs, s') \<Longrightarrow>
   list_all valid vs \<and> consumes (concat (map encode vs)) s s' \<and> at_value s'"
proof (induction fuel arbitrary: s vs)
  case (Suc fuel)
  obtain r s1 where d: "dec s = (r, s1)" by fastforce
  show ?case
  proof (cases r)
    case (Ok v)
    obtain vs' where vs': "decodeSliceElems dec fuel s1 = (Ok vs', s')" "vs = v # vs'"
      using Suc.prems(2) d Ok by (auto simp: sbind_eq_Ok)
    have 1: "valid v" "consumes (encode v) s s1" "at_value s1" using sound[OF Suc.prems(1)] d Ok by auto
    then show ?thesis using Suc.IH[OF 1(3) vs'(1)] vs'(2) consumes_trans by auto
  next
    case (Err e)
    then have "e = RlpErr EOL" "vs = []" "s1 = s'" using Suc.prems(2) d by (auto split: if_splits)
    moreover have "s1 = s" using eol_untouched[OF Suc.prems(1)] d Err calculation by auto
    ultimately show ?thesis using Suc.prems(1) by (auto simp: at_value_def)
  qed (use Suc.prems(2) d in simp)
qed simp

lemma elems_safe:
  "at_value s \<Longrightarrow> length (st_r s) < fuel \<Longrightarrow>
    fst (decodeSliceElems dec fuel s) \<noteq> Panic \<and> fst (decodeSliceElems dec fuel s) \<noteq> Err (RlpErr EOL)"
proof (induction fuel arbitrary: s)
  case (Suc fuel)
  obtain r s1 where d: "dec s = (r, s1)" by fastforce
  show ?case
  proof (cases r)
    case (Ok v)
    have "at_value s1" using sound[OF Suc.prems(1)] d Ok by auto
    moreover have "length (st_r s1) < fuel"
      using progress[OF Suc.prems(1), of v s1] d Ok Suc.prems(2) by auto
    ultimately show ?thesis using Suc.IH[of s1] d Ok
      by (auto simp: sbind_def sret_def split: prod.splits res.splits)
  next
    case Panic
    then show ?thesis using no_panic[OF Suc.prems(1)] d by simp
  qed (use d in simp)
qed simp

lemma elems_complete:
  "at_value s \<Longrightarrow> list_all valid vs \<Longrightarrow> st_r s = concat (map encode vs) @ rest \<Longrightarrow>
   st_stack s = word_of_nat (length (concat (map encode vs))) # ts \<Longrightarrow> length vs < fuel \<Longrightarrow>
   \<exists>s'. decodeSliceElems dec fuel s = (Ok vs, s') \<and> st_stack s' = 0 # ts"
proof (induction vs arbitrary: s fuel)
  case Nil
  then obtain f where "fuel = Suc f" by (cases fuel) auto
  moreover have "at_end s" using Nil by (auto simp: at_end_def)
  ultimately show ?case using end_of_list Nil.prems(4) by simp
next
  case (Cons v vs)
  then obtain f where f: "fuel = Suc f" "length vs < f" by (cases fuel) auto
  have r: "room (length (encode v)) s" using room_top(1)[OF Cons.prems(1)] Cons.prems(3,4) by simp
  obtain s1 where s1: "dec s = (Ok v, s1)" "consumes (encode v) s s1" "at_value s1"
      "st_r s1 = concat (map encode vs) @ rest"
    using complete_consumes[OF Cons.prems(1) _ _ r] Cons.prems(2,3) by auto
  have "st_stack s1 = word_of_nat (length (concat (map encode vs))) # ts"
    using s1(2) Cons.prems(4) by (simp add: consumes_def)
  then obtain s' where "decodeSliceElems dec f s1 = (Ok vs, s')" "st_stack s' = 0 # ts"
    using Cons.IH[OF s1(3) _ s1(4) _ f(2)] Cons.prems(2) by auto
  then show ?case using s1(1) f(1) by (simp add: sbind_def sret_def)
qed

lemma length_elems: "length vs \<le> length (concat (map encode vs))"
proof (induction vs)
  case (Cons v vs)
  have "0 < length (encode v)" using nonempty[of v] by simp
  then have "Suc (length vs) \<le> length (encode v) + length (concat (map encode vs))"
    using Cons.IH by linarith
  then show ?case by simp
qed simp

end

text \<open>The elements of a slice are a list body, whatever the element decoder.\<close>

sublocale decoder \<subseteq> elems: list_body
  "\<lambda>sz. if sz = 0 then sret [] else (\<lambda>s. decodeSliceElems dec (Suc (length (st_r s))) s)"
  "list_all valid" "\<lambda>vs. concat (map encode vs)"
proof (unfold_locales, goal_cases)
  case (1 s sz v s' ts ts')
  then show ?case
    using elems_sound[of s _ v s']
    by (auto simp: at_value_def simp del: decodeSliceElems.simps split: if_splits)
next
  case (2 s sz v s')
  then show ?case
    using elems_sound[of s _ v s'] by (auto simp del: decodeSliceElems.simps split: if_splits)
next
  case (3 s v rest ts)
  have l: "length (concat (map encode v)) < 2 ^ 64" using 3(1,3) by (simp add: at_value_def ready_def)
  show ?case
  proof (cases "v = []")
    case False
    then have "0 < length (concat (map encode v))"
      using length_elems[of v] by (metis length_greater_0_conv less_le_trans)
    then have "(word_of_nat (length (concat (map encode v))) :: u64) \<noteq> 0"
      using l by (metis less_numeral_extra(3) unat_of_nat_u64 unsigned_0)
    moreover have "length v < Suc (length (st_r s))" using length_elems[of v] 3(3) by simp
    ultimately show ?thesis using elems_complete[OF 3] by (simp del: decodeSliceElems.simps) blast
  qed (use 3 in \<open>simp add: sret_def\<close>)
next
  case (4 s sz)
  then show ?case
    using elems_safe[OF 4, of "Suc (length (st_r s))"] by (simp add: sret_def del: decodeSliceElems.simps)
qed

context decoder
begin

lemma decoder_slice:
  "decoder (decodeListSlice dec) (list_all valid) (\<lambda>vs. list_enc (concat (map encode vs)))"
proof -
  let ?body = "\<lambda>sz :: u64. if sz = 0 then sret [] else (\<lambda>s. decodeSliceElems dec (Suc (length (st_r s))) s)"
  have e: "decodeListSlice dec = sbind Stream_List (\<lambda>sz. sbind (?body sz) (\<lambda>vs. sbind Stream_ListEnd (\<lambda>_. sret vs)))"
    unfolding decodeListSlice_def
    by (intro arg_cong[of _ _ "sbind Stream_List"] ext) (simp add: sbind_def sret_def)
  from elems.decoder_list show ?thesis unfolding e .
qed

end

lemma fields_sound:
  "list_all (\<lambda>t. decoder (f t) (P t) (e t)) ts \<Longrightarrow> at_value s \<Longrightarrow>
   decodeFields (map f ts) s = (Ok vs, s') \<Longrightarrow>
   list_all2 P ts vs \<and> consumes (concat (zipApp (map e ts) vs)) s s' \<and> at_value s'"
proof (induction ts arbitrary: s vs)
  case Nil
  then show ?case by (auto simp: at_value_def)
next
  case (Cons t ts)
  obtain v s1 vs' where 1: "f t s = (Ok v, s1)" "decodeFields (map f ts) s1 = (Ok vs', s')" "vs = v # vs'"
    using Cons.prems(3) by (auto simp: sbind_eq_Ok split: prod.splits res.splits)
  have d: "decoder (f t) (P t) (e t)" using Cons.prems(1) by simp
  note v = decoder.sound[OF d Cons.prems(2) 1(1)]
  then have "at_value s1" by blast
  from Cons.IH[OF _ this 1(2)] Cons.prems(1) v 1(3) consumes_trans show ?case by auto
qed

lemma fields_safe:
  "list_all (\<lambda>t. decoder (f t) (P t) (e t)) ts \<Longrightarrow> at_value s \<Longrightarrow>
   fst (decodeFields (map f ts) s) \<noteq> Panic \<and> fst (decodeFields (map f ts) s) \<noteq> Err (RlpErr EOL)"
proof (induction ts arbitrary: s)
  case (Cons t ts)
  have d: "decoder (f t) (P t) (e t)" using Cons.prems(1) by simp
  obtain r s1 where r: "f t s = (r, s1)" by fastforce
  show ?case
  proof (cases r)
    case (Ok v)
    then have "at_value s1" using decoder.sound[OF d Cons.prems(2)] r by blast
    with Cons.IH[of s1] Cons.prems(1) show ?thesis
      by (auto simp: r Ok sbind_def sret_def split: prod.splits res.splits)
  next
    case Panic
    then show ?thesis using decoder.no_panic[OF d Cons.prems(2)] r by simp
  qed (use r in simp)
qed (simp add: sret_def)

lemma fields_complete:
  "list_all (\<lambda>t. decoder (f t) (P t) (e t)) tys \<Longrightarrow> at_value s \<Longrightarrow> list_all2 P tys vs \<Longrightarrow>
   st_r s = concat (zipApp (map e tys) vs) @ rest \<Longrightarrow>
   st_stack s = word_of_nat (length (concat (zipApp (map e tys) vs))) # ts \<Longrightarrow>
   \<exists>s'. decodeFields (map f tys) s = (Ok vs, s') \<and> st_stack s' = 0 # ts"
proof (induction tys arbitrary: s vs)
  case Nil
  then show ?case by (simp add: sret_def)
next
  case (Cons t tys)
  obtain v vs' where vs: "vs = v # vs'" "P t v" "list_all2 P tys vs'"
    using Cons.prems(3) by (auto simp: list_all2_Cons1)
  have d: "decoder (f t) (P t) (e t)" using Cons.prems(1) by simp
  have r: "room (length (e t v)) s" using room_top(1)[OF Cons.prems(2)] Cons.prems(4,5) vs(1) by simp
  obtain s1 where s1: "f t s = (Ok v, s1)" "consumes (e t v) s s1" "at_value s1"
      "st_r s1 = concat (zipApp (map e tys) vs') @ rest"
    using decoder.complete_consumes[OF d Cons.prems(2) vs(2) _ r] Cons.prems(4) vs(1) by auto
  have "st_stack s1 = word_of_nat (length (concat (zipApp (map e tys) vs'))) # ts"
    using s1(2) Cons.prems(5) vs(1) by (simp add: consumes_def)
  then obtain s' where "decodeFields (map f tys) s1 = (Ok vs', s')" "st_stack s' = 0 # ts"
    using Cons.IH[OF _ s1(3) vs(3) s1(4)] Cons.prems(1) by auto
  then show ?case using s1(1) vs(1) by (simp add: sbind_def sret_def)
qed

lemma decoder_struct:
  assumes d: "list_all (\<lambda>t. decoder (f t) (P t) (e t)) ts"
  shows "decoder (decodeStruct (map f ts)) (list_all2 P ts) (\<lambda>vs. list_enc (concat (zipApp (map e ts) vs)))"
proof -
  have "list_body (\<lambda>_. decodeFields (map f ts)) (list_all2 P ts) (\<lambda>vs. concat (zipApp (map e ts) vs))"
  proof (unfold_locales, goal_cases)
    case (1 s sz v s' ts ts')
    then show ?case using fields_sound[OF d] by blast
  next
    case (2 s sz v s')
    then show ?case using fields_sound[OF d] by blast
  next
    case (3 s v rest ts)
    then show ?case using fields_complete[OF d] by blast
  next
    case (4 s sz)
    then show ?case using fields_safe[OF d] by blast
  qed
  from list_body.decoder_list[OF this] show ?thesis unfolding decodeStruct_def .
qed

section \<open>Values\<close>

primrec wf_rtype :: "rtype \<Rightarrow> bool" where
  "wf_rtype (TUint n) = uint_width n"
| "wf_rtype TBool = True"
| "wf_rtype TString = True"
| "wf_rtype TBigInt = True"
| "wf_rtype TBigIntVal = True"
| "wf_rtype TBytes = True"
| "wf_rtype (TByteArray n) = True"
| "wf_rtype (TSlice t) = wf_rtype t"
| "wf_rtype (TStruct ts) = list_all (\<lambda>b. b) (map wf_rtype ts)"
| "wf_rtype (TPtr t) = wf_rtype t"

text \<open>What decoding yields: well-typed values in which no pointer is nil.\<close>

primrec full :: "rtype \<Rightarrow> rval \<Rightarrow> bool" where
  "full (TUint n) v = (case v of VUint u \<Rightarrow> unat u < 2 ^ n | _ \<Rightarrow> False)"
| "full TBool v = (case v of VBool b \<Rightarrow> True | _ \<Rightarrow> False)"
| "full TString v = (case v of VBytes b \<Rightarrow> True | _ \<Rightarrow> False)"
| "full TBigInt v = (case v of VBig (Some i) \<Rightarrow> 0 \<le> i | _ \<Rightarrow> False)"
| "full TBigIntVal v = (case v of VBig (Some i) \<Rightarrow> 0 \<le> i | _ \<Rightarrow> False)"
| "full TBytes v = (case v of VBytes b \<Rightarrow> True | _ \<Rightarrow> False)"
| "full (TByteArray n) v = (case v of VBytes b \<Rightarrow> length b = n | _ \<Rightarrow> False)"
| "full (TSlice t) v = (case v of VList vs \<Rightarrow> list_all (full t) vs | _ \<Rightarrow> False)"
| "full (TStruct ts) v =
     (case v of VList vs \<Rightarrow> list_all2 (\<lambda>p x. p x) (map full ts) vs | _ \<Rightarrow> False)"
| "full (TPtr t) v = (case v of VPtr (Some x) \<Rightarrow> full t x | _ \<Rightarrow> False)"

lemma full_wt: "full t v \<Longrightarrow> wt t v"
proof (induction t arbitrary: v)
  case (TSlice t)
  then show ?case by (cases v) (auto simp: list_all_iff)
next
  case (TStruct ts)
  then show ?case by (cases v) (auto simp: list_all2_map1 list_all2_conv_all_nth)
next
  case (TPtr t)
  then show ?case by (cases v) (auto split: option.splits)
qed (auto split: rval.splits option.splits)

lemma rval_case_ex:
  "(case v of VUint u \<Rightarrow> P1 u | _ \<Rightarrow> False) = (\<exists>a. v = VUint a \<and> P1 a)"
  "(case v of VBool u \<Rightarrow> P2 u | _ \<Rightarrow> False) = (\<exists>a. v = VBool a \<and> P2 a)"
  "(case v of VBytes u \<Rightarrow> P3 u | _ \<Rightarrow> False) = (\<exists>a. v = VBytes a \<and> P3 a)"
  "(case v of VList u \<Rightarrow> P4 u | _ \<Rightarrow> False) = (\<exists>a. v = VList a \<and> P4 a)"
  "(case v of VBig (Some i) \<Rightarrow> P5 i | _ \<Rightarrow> False) = (\<exists>a. v = VBig (Some a) \<and> P5 a)"
  "(case v of VPtr (Some x) \<Rightarrow> P6 x | _ \<Rightarrow> False) = (\<exists>a. v = VPtr (Some a) \<and> P6 a)"
  by (cases v; auto split: option.splits)+

lemma decoder_Val: "wf_rtype t \<Longrightarrow> decoder (decodeVal t) (full t) (\<lambda>v. enc (to_item t v))"
proof (induction t)
  case (TUint n)
  then have "uint_width n" by simp
  from decoder_uint[OF this] show ?case
    unfolding decodeVal.simps by (rule decoder_wrap) (simp_all add: rval_case_ex del: enc.simps)
next
  case TBool
  show ?case
    unfolding decodeVal.simps by (rule decoder_wrap[OF decoder_Bool]) (simp_all add: rval_case_ex del: enc.simps)
next
  case TString
  show ?case
    unfolding decodeVal.simps by (rule decoder_wrap[OF decoder_Bytes]) (simp_all add: rval_case_ex del: enc.simps)
next
  case TBytes
  show ?case
    unfolding decodeVal.simps by (rule decoder_wrap[OF decoder_Bytes]) (simp_all add: rval_case_ex del: enc.simps)
next
  case TBigInt
  show ?case
    unfolding decodeVal.simps by (rule decoder_wrap[OF decoder_BigInt]) (simp_all add: rval_case_ex del: enc.simps)
next
  case TBigIntVal
  show ?case
    unfolding decodeVal.simps by (rule decoder_wrap[OF decoder_BigInt]) (simp_all add: rval_case_ex del: enc.simps)
next
  case (TByteArray n)
  show ?case
    unfolding decodeVal.simps by (rule decoder_wrap[OF decoder_ByteArray]) (simp_all add: rval_case_ex del: enc.simps)
next
  case (TSlice t)
  then have "decoder (decodeListSlice (decodeVal t)) (list_all (full t))
      (\<lambda>vs. list_enc (concat (map (\<lambda>v. enc (to_item t v)) vs)))"
    by (intro decoder.decoder_slice) simp
  then show ?case
    unfolding decodeVal.simps
    by (rule decoder_wrap) (simp_all add: rval_case_ex enc_Lst comp_def del: enc.simps)
next
  case (TStruct ts)
  then have "list_all (\<lambda>t. decoder (decodeVal t) (full t) (\<lambda>v. enc (to_item t v))) ts"
    by (simp add: list_all_iff)
  from decoder_struct[OF this] show ?case
    unfolding decodeVal.simps
    by (rule decoder_wrap) (simp_all add: rval_case_ex enc_Lst zipApp_out list_all2_map1 del: enc.simps)
next
  case (TPtr t)
  then have "decoder (decodeVal t) (full t) (\<lambda>v. enc (to_item t v))" by simp
  then show ?case
    unfolding decodeVal.simps
    by (rule decoder_wrap) (simp_all add: rval_case_ex)
qed

text \<open>The value readers of the stream are decoders.\<close>

interpretation bytes_reader: decoder Stream_Bytes "\<lambda>b. True" "\<lambda>b. enc (Str b)"
  by (rule decoder_Bytes)

interpretation uint64_reader: decoder "Stream_uint 64" "\<lambda>u. unat u < 2 ^ 64"
  "\<lambda>u. enc (Str (min_be (unat u)))"
  by (rule decoder_uint) (simp add: uint_width_def)

interpretation bigint_reader: decoder decodeBigInt "\<lambda>i. 0 \<le> i" "\<lambda>i. enc (Str (min_be (nat i)))"
  by (rule decoder_BigInt)

interpretation hash_reader: decoder "decodeByteArray 32" "\<lambda>b. length b = 32" "\<lambda>b. enc (Str b)"
  by (rule decoder_ByteArray)

lemma DecodeBytes_iff:
  assumes "wf_rtype t" "length b < 2 ^ 63"
  shows "DecodeBytes t b = Ok v \<longleftrightarrow> full t v \<and> b = enc (to_item t v)"
proof -
  let ?s = "Stream_Reset b (word_of_nat (length b))"
  have s: "at_value ?s" using assms(2) by (simp add: at_value_def ready_def Stream_Reset_def)
  have st: "st_r ?s = b" "st_stack ?s = []" by (simp_all add: Stream_Reset_def)
  note d = decoder_Val[OF assms(1)]
  show ?thesis
  proof
    assume "DecodeBytes t b = Ok v"
    then obtain s' where "decodeVal t ?s = (Ok v, s')" "st_r s' = []"
      by (auto simp: DecodeBytes_def split: prod.splits res.splits if_splits)
    with decoder.sound[OF d s this(1)] st show "full t v \<and> b = enc (to_item t v)"
      by (simp add: consumes_def)
  next
    assume v: "full t v \<and> b = enc (to_item t v)"
    then have "\<exists>s'. decodeVal t ?s = (Ok v, s') \<and> st_r s' = []"
      using decoder.complete_consumes[OF d s, of v "[]"] st by (auto simp: room_def)
    then show "DecodeBytes t b = Ok v" by (auto simp: DecodeBytes_def)
  qed
qed

lemma DecodeBytes_no_panic:
  assumes "wf_rtype t" "length b < 2 ^ 63"
  shows "DecodeBytes t b \<noteq> Panic"
proof -
  let ?s = "Stream_Reset b (word_of_nat (length b))"
  have "at_value ?s" using assms(2) by (simp add: at_value_def ready_def Stream_Reset_def)
  from decoder.no_panic[OF decoder_Val[OF assms(1)] this]
  show ?thesis by (auto simp: DecodeBytes_def split: prod.splits res.splits)
qed

end
