(* ===== verification/Rlp_Raw.thy ===== *)
theory Rlp_Raw
  imports Rlp_Decode_Correct
begin

text \<open>
  Package \<^verbatim>\<open>rlp\<close>, the functions on raw buffers (\<^verbatim>\<open>src/rlp/raw.go\<close>): splitting the first value
  off a buffer, counting the values of a buffer and appending an encoded integer. They are
  related to the reference encoding \<open>enc\<close>, and the splitters undo it.
\<close>

section \<open>Definitions\<close>

text \<open>The shift-and-or expressions of \<^verbatim>\<open>readSize\<close> read the first \<open>slen\<close> bytes big-endian;
  a length outside 1 to 8 leaves the sum zero, which is then rejected.\<close>

definition readSize :: "bytes \<Rightarrow> byte \<Rightarrow> u64 res" where
  "readSize b slen =
     (if unat slen > length b then Err (RlpErr IoErrUnexpectedEOF)
      else let s = (if 1 \<le> slen \<and> slen \<le> 8 then word_of_nat (of_be (take (unat slen) b)) else 0)
           in if s < 56 then Err (RlpErr ErrCanonSize)
              else rbind (go_index b 0) (\<lambda>b0.
                     if b0 = 0 then Err (RlpErr ErrCanonSize) else Ok s))"

definition rawTag :: "bytes \<Rightarrow> (Kind \<times> u64 \<times> u64) res" where
  "rawTag buf =
     (let b = buf ! 0 in
      if b < 0x80 then Ok (KByte, 0, 1)
      else if b < 0xB8 then
        (if (ucast (b - 0x80) :: u64) = 1 \<and> length buf > 1 \<and> buf ! 1 < 128
         then Err (RlpErr ErrCanonSize)
         else Ok (KString, 1, ucast (b - 0x80)))
      else if b < 0xC0 then
        rbind (readSize (drop 1 buf) (b - 0xB7)) (\<lambda>cs. Ok (KString, ucast (b - 0xB7) + 1, cs))
      else if b < 0xF8 then Ok (KList, 1, ucast (b - 0xC0))
      else rbind (readSize (drop 1 buf) (b - 0xF7)) (\<lambda>cs. Ok (KList, ucast (b - 0xF7) + 1, cs)))"

definition rawKind :: "bytes \<Rightarrow> (Kind \<times> u64 \<times> u64) res" where
  "rawKind buf =
     (if buf = [] then Err (RlpErr IoErrUnexpectedEOF)
      else rbind (rawTag buf) (\<lambda>(k, tagsize, contentsize).
             if contentsize > word_of_nat (length buf) - tagsize then Err (RlpErr ErrValueTooLarge)
             else Ok (k, tagsize, contentsize)))"

definition Split :: "bytes \<Rightarrow> (Kind \<times> bytes \<times> bytes) res" where
  "Split b = rbind (rawKind b) (\<lambda>(k, ts, cs).
     rbind (go_slice b (unat ts) (unat (ts + cs))) (\<lambda>content.
     rbind (go_from b (unat (ts + cs))) (\<lambda>rest. Ok (k, content, rest))))"

definition SplitString :: "bytes \<Rightarrow> (bytes \<times> bytes) res" where
  "SplitString b = rbind (Split b) (\<lambda>(k, content, rest).
     if k = KList then Err (RlpErr ErrExpectedString) else Ok (content, rest))"

definition SplitUint64 :: "bytes \<Rightarrow> (u64 \<times> bytes) res" where
  "SplitUint64 b = rbind (SplitString b) (\<lambda>(content, rest).
     if length content = 0 then Ok (0, rest)
     else if length content = 1 then
       (if content ! 0 = 0 then Err (RlpErr ErrCanonInt) else Ok (ucast (content ! 0), rest))
     else if length content > 8 then Err (RlpErr ErrUintOverflow)
     else (case readSize content (word_of_nat (length content)) of
             Ok x \<Rightarrow> Ok (x, rest)
           | Err e \<Rightarrow> Err (RlpErr ErrCanonInt)
           | Panic \<Rightarrow> Panic))"

definition SplitList :: "bytes \<Rightarrow> (bytes \<times> bytes) res" where
  "SplitList b = rbind (Split b) (\<lambda>(k, content, rest).
     if k \<noteq> KList then Err (RlpErr ErrExpectedList) else Ok (content, rest))"

text \<open>A value takes at least one byte, so the length of the buffer bounds the loop.\<close>

fun countLoop :: "nat \<Rightarrow> bytes \<Rightarrow> nat \<Rightarrow> nat res" where
  "countLoop 0 b i = (if b = [] then Ok i else Panic)"
| "countLoop (Suc fuel) b i =
     (if b = [] then Ok i
      else rbind (rawKind b) (\<lambda>(k, tagsize, sz).
             rbind (go_from b (unat (tagsize + sz))) (\<lambda>b'. countLoop fuel b' (Suc i))))"

definition CountValues :: "bytes \<Rightarrow> nat res" where
  "CountValues b = countLoop (length b) b 0"

section \<open>Splitting an encoded value\<close>

fun item_kind :: "item \<Rightarrow> Kind" where
  "item_kind (Str b) = (if length b = 1 \<and> b ! 0 < 0x80 then KByte else KString)"
| "item_kind (Lst xs) = KList"

fun item_content :: "item \<Rightarrow> bytes" where
  "item_content (Str b) = b"
| "item_content (Lst xs) = concat (map enc xs)"

definition tag_len :: "item \<Rightarrow> nat" where
  "tag_len it = length (enc it) - length (item_content it)"

lemma enc_tag: "item_kind it \<noteq> KByte \<Longrightarrow>
   enc it = hdr (item_kind it) (word_of_nat (length (item_content it))) 0 @ item_content it"
  by (cases it) (auto simp: hdr_def Let_def)

lemma readSize_Ok:
  assumes "canon_be bs" "length bs \<le> 8" "\<not> (word_of_nat (of_be bs) :: u64) < 56"
  shows "readSize (bs @ rest) (word_of_nat (length bs)) = Ok (word_of_nat (of_be bs))"
proof -
  have u: "unat (word_of_nat (length bs) :: byte) = length bs" using assms(2) by (simp add: unat_byte_of_nat)
  have p: "0 < length bs" using assms(1) by (simp add: canon_be_def)
  have nz: "bs ! 0 \<noteq> 0"
  proof (cases "length bs = 1")
    case True
    then obtain b where "bs = [b]" by (cases bs) auto
    then show ?thesis using assms(3) by auto
  qed (use assms(1) p in \<open>auto simp: canon_be_def\<close>)
  have "(1 :: byte) \<le> word_of_nat (length bs)" "(word_of_nat (length bs) :: byte) \<le> 8"
    using u p assms(2) by (simp_all add: word_le_nat_alt Suc_le_eq)
  then show ?thesis using u p nz assms(3)
    by (simp add: readSize_def go_index_def nth_append)
qed

lemma rawTag_short:
  assumes "k \<noteq> KByte" "sz < 56" "\<not> (k = KString \<and> sz = 1 \<and> c \<noteq> [] \<and> hd c < 128)"
  shows "rawTag (hdr k sz 0 @ c) = Ok (k, word_of_nat (length (hdr k sz 0)), sz)"
proof -
  have t: "unat (t + ucast sz) = unat t + unat sz" "ucast (t + ucast sz - t) = sz"
    if "unat t < 200" for t :: byte
    using that unat_tag_add[of t "unat sz"] assms(2)
    by (simp_all add: word_less_nat_alt ucast_byte word_unat_eq_iff unat_byte_of_nat del: of_nat_unat)
  have c: "hd c = c ! 0" if "c \<noteq> []" using that by (rule hd_conv_nth)
  have "unat sz < 56" using assms(2) by (simp add: word_less_nat_alt)
  then show ?thesis
    using assms t[of "0x80"] t[of "0xC0"] c
    by (cases k) (auto simp: rawTag_def hdr_def puthead_def word_less_nat_alt)
qed

lemma rawTag_long:
  assumes "k \<noteq> KByte" "\<not> sz < 56"
  shows "rawTag (hdr k sz 0 @ c) = Ok (k, word_of_nat (length (hdr k sz 0)), sz)"
proof -
  have main: "rawTag (puthead st lt sz @ c) = Ok (k, word_of_nat (length (puthead st lt sz)), sz)"
    if kk: "k = KString \<and> lt = 0xB7 \<or> k = KList \<and> lt = 0xF7" for st lt
  proof -
    obtain bs where b: "puthead st lt sz = (lt + word_of_nat (length bs)) # bs" "canon_be bs"
        "length bs \<le> 8" "of_be bs = unat sz"
      using puthead_canon[OF assms(2)] by blast
    have w: "word_of_nat (of_be bs) = sz" using b(4) by simp
    have r: "readSize (bs @ c) (word_of_nat (length bs)) = Ok sz"
      using readSize_Ok[OF b(2,3), of c] assms(2) by (simp add: w)
    have p: "0 < length bs" using b(2) by (simp add: canon_be_def)
    have u: "unat (lt + word_of_nat (length bs)) = unat lt + length bs"
      using b(3) kk by (intro unat_tag_add) auto
    have "(ucast (word_of_nat (length bs) :: byte) :: u64) = word_of_nat (length bs)"
      using b(3) by (simp add: word_unat_eq_iff unat_byte_of_nat)
    then show ?thesis
      using kk b(1,3) r u p by (auto simp: rawTag_def word_less_nat_alt)
  qed
  show ?thesis using assms(1) main[of "0xB7" "0x80"] main[of "0xF7" "0xC0"]
    by (cases k) (simp_all add: hdr_def)
qed

lemma rawKind_enc:
  assumes "length (enc it @ rest) < 2 ^ 63"
  shows "rawKind (enc it @ rest) =
    Ok (item_kind it, word_of_nat (tag_len it), word_of_nat (length (item_content it)))"
proof (cases "item_kind it = KByte")
  case True
  then obtain x where b: "it = Str [x]" "x < 0x80"
    by (cases it) (auto simp: length_Suc_conv split: if_splits)
  have "unat (word_of_nat (length (x # rest)) :: u64) = length (x # rest)"
    using assms b by (intro unat_of_nat_u64) simp
  then show ?thesis using b
    by (simp add: rawKind_def rawTag_def tag_len_def word_less_nat_alt del: of_nat_Suc) simp
next
  case False
  let ?c = "item_content it" and ?sz = "word_of_nat (length (item_content it)) :: u64"
  let ?h = "hdr (item_kind it) ?sz 0"
  have e: "enc it = ?h @ ?c" using enc_tag[OF False] .
  have len: "length ?h + length ?c + length rest < 2 ^ 63" using assms by (simp add: e)
  then have u: "unat ?sz = length ?c" by simp
  have d: "(word_of_nat (length ((?h @ ?c) @ rest)) :: u64) - word_of_nat (length ?h) = word_of_nat (length ?c + length rest)"
    by simp
  have "unat (word_of_nat (length ?c + length rest) :: u64) = length ?c + length rest"
    using len by (intro unat_of_nat_u64) simp
  then have fits: "\<not> (word_of_nat (length ((?h @ ?c) @ rest)) :: u64) - word_of_nat (length ?h) < ?sz"
    unfolding d using u by (simp add: word_less_nat_alt)
  have one: "?sz = 1 \<longleftrightarrow> length ?c = 1" using u by (simp add: word_unat_eq_iff)
  have "\<not> (item_kind it = KString \<and> ?sz = 1 \<and> ?c @ rest \<noteq> [] \<and> hd (?c @ rest) < 128)"
    unfolding one by (cases it) (auto simp: length_Suc_conv hd_append split: if_splits)
  then have "rawTag (?h @ ?c @ rest) = Ok (item_kind it, word_of_nat (length ?h), ?sz)"
    using rawTag_short[OF False] rawTag_long[OF False] by blast
  then show ?thesis using fits by (simp add: rawKind_def e tag_len_def)
qed

lemma tag_len_enc: "take (tag_len it) (enc it) @ item_content it = enc it"
proof (cases "item_kind it = KByte")
  case True
  then show ?thesis by (cases it) (auto simp: tag_len_def split: if_splits)
qed (simp add: tag_len_def enc_tag)

lemma tag_content_length: "tag_len it + length (item_content it) = length (enc it)"
  using arg_cong[OF tag_len_enc[of it], of length] by (simp add: tag_len_def)

lemma enc_content: "drop (tag_len it) (enc it) = item_content it"
  by (metis tag_len_enc append_eq_conv_conj append_take_drop_id same_append_eq)

lemma Split_enc:
  assumes "length (enc it @ rest) < 2 ^ 63"
  shows "Split (enc it @ rest) = Ok (item_kind it, item_content it, rest)"
proof -
  have l: "length (enc it) < 2 ^ 64" "tag_len it < 2 ^ 64" using assms by (simp_all add: tag_len_def)
  have s: "unat (word_of_nat (tag_len it) + word_of_nat (length (item_content it)) :: u64) = length (enc it)"
    using unat_of_nat_u64[OF l(1)] by (metis of_nat_add tag_content_length)
  have t: "unat (word_of_nat (tag_len it) :: u64) = tag_len it" using l(2) by (rule unat_of_nat_u64)
  have "take (length (enc it) - tag_len it) (drop (tag_len it) (enc it @ rest)) = item_content it"
    using tag_content_length[of it] by (simp add: enc_content)
  moreover have "length (enc it) - tag_len it = length (item_content it)" "tag_len it \<le> length (enc it)"
    using tag_content_length[of it] by linarith+
  ultimately show ?thesis
    using rawKind_enc[OF assms] s t tag_content_length[of it]
    by (simp add: Split_def go_slice_def go_from_def enc_content)
qed

lemma countLoop_enc:
  "length (concat (map enc xs)) < 2 ^ 63 \<Longrightarrow> length xs \<le> fuel \<Longrightarrow>
   countLoop fuel (concat (map enc xs)) i = Ok (i + length xs)"
proof (induction xs arbitrary: fuel i)
  case Nil
  then show ?case by (cases fuel) simp_all
next
  case (Cons x xs)
  then obtain f where f: "fuel = Suc f" by (cases fuel) auto
  have l: "length (enc x @ concat (map enc xs)) < 2 ^ 63" using Cons.prems(1) by simp
  then have "length (enc x) < 2 ^ 64" by simp
  then have s: "unat (word_of_nat (tag_len x) + word_of_nat (length (item_content x)) :: u64) = length (enc x)"
    by (metis of_nat_add tag_content_length unat_of_nat_u64)
  then show ?case
    using rawKind_enc[OF l] Cons f by simp
qed

lemma length_items: "length xs \<le> length (concat (map enc xs))"
proof (induction xs)
  case (Cons x xs)
  have "0 < length (enc x)" by simp
  then have "Suc (length xs) \<le> length (enc x) + length (concat (map enc xs))" using Cons.IH by linarith
  then show ?case by simp
qed simp

lemma CountValues_enc:
  "length (concat (map enc xs)) < 2 ^ 63 \<Longrightarrow> CountValues (concat (map enc xs)) = Ok (length xs)"
  using countLoop_enc[of xs "length (concat (map enc xs))" 0] length_items[of xs]
  by (simp add: CountValues_def)

section \<open>Appended integers\<close>

lemma AppendUint64_encodeUint: "AppendUint64 b i = b @ eb_str (encodeUint i reset)"
proof -
  have "i < 128 \<Longrightarrow> i < 2 ^ 8" by (simp add: word_less_nat_alt)
  have "putint i = (if i < 2 ^ 8 then [ucast i] else putint i)"
    by (simp only: putint_def split: if_split) simp
  show ?thesis
    unfolding AppendUint64_def encodeUint_def putint_def eb_append_def reset_def
    by (simp del: One_nat_def)
qed

lemma AppendUint64_eq: "AppendUint64 b i = b @ enc (Str (min_be (unat i)))"
proof -
  have "emits reset (encodeUint i reset) (enc (Str (min_be (unat i))))" by (rule emits_uint)
  then have "toBytes (encodeUint i reset) = enc (Str (min_be (unat i)))" by (rule emits_toBytes)
  moreover have "toBytes (encodeUint i reset) = eb_str (encodeUint i reset)"
    by (simp add: encodeUint_def eb_append_def reset_def toBytes_def Let_def)
  ultimately show ?thesis by (simp add: AppendUint64_encodeUint del: enc.simps)
qed

lemma SplitUint64_append:
  assumes "length (AppendUint64 [] i @ rest) < 2 ^ 63"
  shows "SplitUint64 (AppendUint64 [] i @ rest) = Ok (i, rest)"
proof -
  let ?c = "min_be (unat i)"
  have s: "Split (AppendUint64 [] i @ rest) = Ok (item_kind (Str ?c), ?c, rest)"
    using Split_enc[of "Str ?c" rest] assms by (simp add: AppendUint64_eq del: enc.simps)
  have l: "length ?c \<le> 8" using length_min_be_le[of "unat i" 8] unat_u64_less[of i] by simp
  have "item_kind (Str ?c) \<noteq> KList" by simp
  consider "?c = []" | x where "?c = [x]" | "length ?c \<ge> 2" by (cases ?c; cases "tl ?c") auto
  then show ?thesis
  proof cases
    case 1
    then have "i = 0" by (metis of_be.simps(1) of_be_min_be unat_eq_zero)
    then show ?thesis using 1 s by (simp add: SplitUint64_def SplitString_def)
  next
    case (2 x)
    then have "x \<noteq> 0" "unat i = of_be [x]" using min_be_lead[of "unat i"] of_be_min_be[of "unat i"] by auto
    then have "x \<noteq> 0" "i = ucast x" by (simp_all add: word_unat_eq_iff)
    then show ?thesis using 2 s by (simp add: SplitUint64_def SplitString_def)
  next
    case 3
    then have ne: "?c \<noteq> []" by auto
    then have cb: "canon_be ?c" "unat i \<noteq> 0"
      using min_be_lead[OF ne] by (simp add: canon_be_def, auto simp: min_be_def split: if_splits)
    have "256 \<le> unat i"
    proof (rule ccontr)
      assume "\<not> 256 \<le> unat i"
      then show False using min_be_byte[OF cb(2)] 3 by simp
    qed
    then have "\<not> i < 56" by (simp add: word_less_nat_alt)
    then have "readSize ?c (word_of_nat (length ?c)) = Ok i" using readSize_Ok[OF cb(1) l, of "[]"] by simp
    then show ?thesis using 3 ne s l by (simp add: SplitUint64_def SplitString_def)
  qed
qed

section \<open>Properties\<close>

text \<open>C1. The encoder computes the RLP encoding: for every well-typed value whose encoding
  fits in 64-bit sizes, \<^verbatim>\<open>EncodeToBytes\<close> (string data and list headers kept apart, merged by
  \<^verbatim>\<open>toBytes\<close>) returns the recursive reference encoding of the value.\<close>

theorem EncodeToBytes_reference:
  assumes "wt t v" "length (enc (to_item t v)) < 2 ^ 64"
  shows "EncodeToBytes t v = Ok (enc (to_item t v))"
  using assms by (rule EncodeToBytes_enc)

theorem EncodeToBytes_reference_witness:
  "EncodeToBytes (TStruct [TUint 64, TBytes]) (VList [VUint 5, VBytes [1, 2]]) =
     Ok [0xC4, 0x05, 0x82, 0x01, 0x02]"
proof -
  have "EncodeToBytes (TStruct [TUint 64, TBytes]) (VList [VUint 5, VBytes [1, 2]]) =
     Ok (enc (to_item (TStruct [TUint 64, TBytes]) (VList [VUint 5, VBytes [1, 2]])))"
    by (rule EncodeToBytes_reference)
       (simp_all add: min_be_def nbytes.simps puthead_def putint_def)
  then show ?thesis by (simp add: min_be_def nbytes.simps puthead_def)
qed

text \<open>C2. Decoding is the exact inverse of encoding: on input no longer than a Go slice can
  be, \<^verbatim>\<open>DecodeBytes\<close> yields a value if and only if the value has no nil pointer and the
  input is its reference encoding, and then \<^verbatim>\<open>EncodeToBytes\<close> returns that input. So every
  encoding decodes to its value, and no second encoding of a value (longer size, leading
  zero, trailing bytes, a list that overruns its parent) is accepted.\<close>

theorem DecodeBytes_inverse:
  assumes "wf_rtype t" "length b < 2 ^ 63"
  shows "DecodeBytes t b = Ok v \<longleftrightarrow>
    full t v \<and> b = enc (to_item t v) \<and> EncodeToBytes t v = Ok b"
  using DecodeBytes_iff[OF assms] EncodeToBytes_enc[OF full_wt] assms(2) by auto

theorem DecodeBytes_inverse_witness:
  "DecodeBytes (TStruct [TUint 64, TBytes]) [0xC4, 0x05, 0x82, 0x01, 0x02] =
     Ok (VList [VUint 5, VBytes [1, 2]])"
proof -
  let ?t = "TStruct [TUint 64, TBytes]" and ?v = "VList [VUint 5, VBytes [1, 2]]"
  let ?b = "[0xC4, 0x05, 0x82, 0x01, 0x02] :: bytes"
  have "DecodeBytes ?t ?b = Ok ?v \<longleftrightarrow>
      full ?t ?v \<and> ?b = enc (to_item ?t ?v) \<and> EncodeToBytes ?t ?v = Ok ?b"
    by (rule DecodeBytes_inverse) (simp_all add: uint_width_def)
  moreover have "enc (to_item ?t ?v) = ?b"
    by (simp add: min_be_def nbytes.simps puthead_def)
  moreover have "EncodeToBytes ?t ?v = Ok (enc (to_item ?t ?v))"
    by (rule EncodeToBytes_enc) (simp_all add: \<open>enc (to_item ?t ?v) = ?b\<close> del: enc.simps to_item.simps)
  ultimately show ?thesis by simp
qed

text \<open>C5. The decoder always returns: for every type and every input a Go slice can hold,
  \<^verbatim>\<open>DecodeBytes\<close> gives a value or an error; the element loop of a slice ends and no read
  leaves its buffer.\<close>

theorem DecodeBytes_returns:
  assumes "wf_rtype t" "length b < 2 ^ 63"
  shows "(\<exists>v. DecodeBytes t b = Ok v) \<or> (\<exists>e. DecodeBytes t b = Err e)"
  using DecodeBytes_no_panic[OF assms] by (cases "DecodeBytes t b") auto

theorem DecodeBytes_returns_witness:
  "(\<exists>v. DecodeBytes (TSlice (TUint 64)) [0xC1, 0x05] = Ok v) \<or>
   (\<exists>e. DecodeBytes (TSlice (TUint 64)) [0xC1, 0x05] = Err e)"
  by (rule DecodeBytes_returns) (simp_all add: uint_width_def)

text \<open>C14. Splitting the first value off a buffer undoes encoding it: the kind, the content
  and the untouched rest.\<close>

theorem Split_first_value:
  assumes "length (enc it @ rest) < 2 ^ 63"
  shows "Split (enc it @ rest) = Ok (item_kind it, item_content it, rest)"
  using assms by (rule Split_enc)

theorem Split_first_value_witness: "Split [0x82, 0x01, 0x02, 0x7F] = Ok (KString, [1, 2], [0x7F])"
proof -
  have "Split (enc (Str [1, 2]) @ [0x7F]) = Ok (item_kind (Str [1, 2]), item_content (Str [1, 2]), [0x7F])"
    by (rule Split_first_value) (simp add: puthead_def)
  then show ?thesis by (simp add: puthead_def)
qed

text \<open>C15. \<^verbatim>\<open>CountValues\<close> counts: on a concatenation of encoded values it returns their number.\<close>

theorem CountValues_counts:
  assumes "length (concat (map enc xs)) < 2 ^ 63"
  shows "CountValues (concat (map enc xs)) = Ok (length xs)"
  using assms by (rule CountValues_enc)

theorem CountValues_counts_witness: "CountValues [0x01, 0xC1, 0x02, 0x80] = Ok 3"
proof -
  let ?xs = "[Str [1], Lst [Str [2]], Str []]"
  have "CountValues (concat (map enc ?xs)) = Ok (length ?xs)"
    by (rule CountValues_counts) (simp add: puthead_def)
  then show ?thesis by (simp add: puthead_def)
qed

text \<open>C16. \<^verbatim>\<open>AppendUint64\<close> and \<^verbatim>\<open>SplitUint64\<close> are inverse: appending writes the encoder's bytes
  for the integer, and splitting reads the same integer back and leaves the rest.\<close>

theorem AppendUint64_SplitUint64:
  assumes "length (AppendUint64 [] i @ rest) < 2 ^ 63"
  shows "EncodeToBytes (TUint 64) (VUint i) = Ok (AppendUint64 [] i) \<and>
    SplitUint64 (AppendUint64 [] i @ rest) = Ok (i, rest)"
proof
  have "length (enc (to_item (TUint 64) (VUint i))) < 2 ^ 64"
    using assms by (simp add: AppendUint64_eq del: enc.simps)
  then show "EncodeToBytes (TUint 64) (VUint i) = Ok (AppendUint64 [] i)"
    using EncodeToBytes_enc[of "TUint 64" "VUint i"] unat_u64_less[of i]
    by (simp add: AppendUint64_eq del: enc.simps)
  show "SplitUint64 (AppendUint64 [] i @ rest) = Ok (i, rest)" using assms by (rule SplitUint64_append)
qed

theorem AppendUint64_SplitUint64_witness: "SplitUint64 [0x82, 0x04, 0x00, 0x7F] = Ok (1024, [0x7F])"
proof -
  have e: "AppendUint64 [] 1024 = [0x82, 0x04, 0x00]"
    by (simp add: AppendUint64_def word_less_nat_alt drop_bit_eq_div) (simp add: ucast_byte)?
  have "SplitUint64 (AppendUint64 [] 1024 @ [0x7F]) = Ok (1024, [0x7F])"
    using AppendUint64_SplitUint64[of 1024 "[0x7F]"] by (simp add: e)
  then show ?thesis by (simp add: e)
qed

end
