(* ===== verification/Operation.thy ===== *)
theory Operation
  imports Rlp_Raw Common "HOL-Library.List_Lexorder"
begin

text \<open>
  Package \<^verbatim>\<open>validator/operation\<close>: the validator operations carried in transaction data and
  their binary formats (\<^verbatim>\<open>src/validator/operation/\<close>). The bit lists of
  \<^verbatim>\<open>prysmaticlabs/go-bitfield\<close> are external: their three functions are the parameter
  \<open>bf\<close> of the definitions that use them. Byte-level conversions keep the Go slice
  expressions, so short input that the code slices without a check is a \<open>Panic\<close>.
\<close>

section \<open>Delegating stake rules\<close>

record bitfield_api =
  NewBitlist :: "nat \<Rightarrow> bytes"
  SetBitAt :: "bytes \<Rightarrow> nat \<Rightarrow> bool \<Rightarrow> bytes"
  BitIndices :: "bytes \<Rightarrow> nat list"

record DelegatingStakeRules =
  r_addrs :: "address list"
  r_profitShare :: bytes
  r_stakeShare :: bytes
  r_exit :: bytes
  r_withdrawal :: bytes

definition empty_rules :: DelegatingStakeRules where
  "empty_rules = \<lparr>r_addrs = [], r_profitShare = [], r_stakeShare = [], r_exit = [], r_withdrawal = []\<rparr>"

record adrInfo =
  ai_Profit :: byte
  ai_Stake :: byte
  ai_Exit :: bool
  ai_Withdraw :: bool

definition new_adrInfo :: adrInfo where
  "new_adrInfo = \<lparr>ai_Profit = 0, ai_Stake = 0, ai_Exit = False, ai_Withdraw = False\<rparr>"

text \<open>Maps from addresses are association lists with distinct keys; the order of their
  entries stands for Go's unspecified iteration order.\<close>

definition on_addr ::
  "address \<Rightarrow> (adrInfo \<Rightarrow> adrInfo) \<Rightarrow> (address \<times> adrInfo) list \<Rightarrow> (address \<times> adrInfo) list" where
  "on_addr a f m =
     (case map_of m a of None \<Rightarrow> (a, f new_adrInfo) # m | Some i \<Rightarrow> AList.update a (f i) m)"

definition rules_collect ::
  "(address \<times> byte) list \<Rightarrow> (address \<times> byte) list \<Rightarrow> address list \<Rightarrow> address list \<Rightarrow>
     (address \<times> adrInfo) list" where
  "rules_collect profitShare stakeShare exit withdrawal =
     (let m1 = fold (\<lambda>(a, v) m. if v = 0 then m else on_addr a (\<lambda>i. i\<lparr>ai_Profit := v\<rparr>) m) profitShare [];
          m2 = fold (\<lambda>(a, v) m. if v = 0 then m else on_addr a (\<lambda>i. i\<lparr>ai_Stake := v\<rparr>) m) stakeShare m1;
          m3 = fold (\<lambda>a m. on_addr a (\<lambda>i. i\<lparr>ai_Exit := True\<rparr>) m) exit m2
      in fold (\<lambda>a m. on_addr a (\<lambda>i. i\<lparr>ai_Withdraw := True\<rparr>) m) withdrawal m3)"

definition set_bits :: "bitfield_api \<Rightarrow> bool list \<Rightarrow> bytes" where
  "set_bits bf bs =
     fold (\<lambda>(i, b) l. if b then SetBitAt bf l i True else l) (enumerate 0 bs) (NewBitlist bf (length bs))"

definition rules_init ::
  "bitfield_api \<Rightarrow> (address \<times> byte) list \<Rightarrow> (address \<times> byte) list \<Rightarrow> address list \<Rightarrow> address list \<Rightarrow>
     DelegatingStakeRules" where
  "rules_init bf profitShare stakeShare exit withdrawal =
     (let addrMap = rules_collect profitShare stakeShare exit withdrawal;
          addrs = sort (map fst addrMap);
          info = (\<lambda>a. the (map_of addrMap a))
      in \<lparr>r_addrs = addrs,
          r_profitShare = map (\<lambda>a. ai_Profit (info a)) addrs,
          r_stakeShare = map (\<lambda>a. ai_Stake (info a)) addrs,
          r_exit = set_bits bf (map (\<lambda>a. ai_Exit (info a)) addrs),
          r_withdrawal = set_bits bf (map (\<lambda>a. ai_Withdraw (info a)) addrs)\<rparr>)"

definition totalPrc :: "bytes \<Rightarrow> u64" where
  "totalPrc shares = fold (\<lambda>v t. t + ucast v) shares 0"

definition ValidateProfitShare :: "DelegatingStakeRules \<Rightarrow> unit res" where
  "ValidateProfitShare dr = guard (totalPrc (r_profitShare dr) = 100) (OpErr ErrBadProfitShare)"

definition ValidateStakeShare :: "DelegatingStakeRules \<Rightarrow> unit res" where
  "ValidateStakeShare dr = guard (totalPrc (r_stakeShare dr) = 100) (OpErr ErrBadStakeShare)"

definition rules_Exit :: "bitfield_api \<Rightarrow> DelegatingStakeRules \<Rightarrow> address list res" where
  "rules_Exit bf dr = rmap (go_index (r_addrs dr)) (BitIndices bf (r_exit dr))"

definition rules_Withdrawal :: "bitfield_api \<Rightarrow> DelegatingStakeRules \<Rightarrow> address list res" where
  "rules_Withdrawal bf dr = rmap (go_index (r_addrs dr)) (BitIndices bf (r_withdrawal dr))"

definition validateExit :: "bitfield_api \<Rightarrow> DelegatingStakeRules \<Rightarrow> unit res" where
  "validateExit bf dr = rbind (rules_Exit bf dr) (\<lambda>e. guard (e \<noteq> []) (OpErr ErrNoExitRoles))"

definition validateWithdrawal :: "bitfield_api \<Rightarrow> DelegatingStakeRules \<Rightarrow> unit res" where
  "validateWithdrawal bf dr =
     rbind (rules_Withdrawal bf dr) (\<lambda>w. guard (w \<noteq> []) (OpErr ErrNoWithdrawalRoles))"

definition rules_Validate :: "bitfield_api \<Rightarrow> DelegatingStakeRules \<Rightarrow> unit res" where
  "rules_Validate bf dr =
     rbind (ValidateProfitShare dr) (\<lambda>_. rbind (ValidateStakeShare dr) (\<lambda>_.
     rbind (validateExit bf dr) (\<lambda>_. validateWithdrawal bf dr)))"

definition copy_shares :: "nat \<Rightarrow> bytes \<Rightarrow> bytes res" where
  "copy_shares n shares = (if n \<le> length shares then Ok (take n shares) else Panic)"

definition copy_bits :: "bitfield_api \<Rightarrow> nat \<Rightarrow> bytes \<Rightarrow> bytes" where
  "copy_bits bf n bits = (if bits = [] then [] else go_copy (NewBitlist bf n) bits)"

definition rules_Copy :: "bitfield_api \<Rightarrow> DelegatingStakeRules \<Rightarrow> DelegatingStakeRules res" where
  "rules_Copy bf dr =
     (let n = length (r_addrs dr) in
      rbind (copy_shares n (r_profitShare dr)) (\<lambda>ps.
      rbind (copy_shares n (r_stakeShare dr)) (\<lambda>ss.
      Ok \<lparr>r_addrs = r_addrs dr, r_profitShare = ps, r_stakeShare = ss,
          r_exit = copy_bits bf n (r_exit dr), r_withdrawal = copy_bits bf n (r_withdrawal dr)\<rparr>)))"

fun shareMap :: "address list \<Rightarrow> bytes \<Rightarrow> (address \<times> byte) list \<Rightarrow> (address \<times> byte) list res" where
  "shareMap [] vs data = Ok data"
| "shareMap (a # as) [] data = Panic"
| "shareMap (a # as) (v # vs) data = shareMap as vs (if v > 0 then AList.update a v data else data)"

definition rules_ProfitShare :: "DelegatingStakeRules \<Rightarrow> (address \<times> byte) list res" where
  "rules_ProfitShare dr = shareMap (r_addrs dr) (r_profitShare dr) []"

definition rules_StakeShare :: "DelegatingStakeRules \<Rightarrow> (address \<times> byte) list res" where
  "rules_StakeShare dr = shareMap (r_addrs dr) (r_stakeShare dr) []"

text \<open>Projections of decoded values; the decoder only yields values of the type.\<close>

primrec vbytes :: "rval \<Rightarrow> bytes" where
  "vbytes (VBytes b) = b" | "vbytes (VUint u) = []" | "vbytes (VBool b) = []"
| "vbytes (VBig i) = []" | "vbytes (VList vs) = []" | "vbytes (VPtr p) = []"

primrec vuint :: "rval \<Rightarrow> u64" where
  "vuint (VUint u) = u" | "vuint (VBytes b) = 0" | "vuint (VBool b) = 0"
| "vuint (VBig i) = 0" | "vuint (VList vs) = 0" | "vuint (VPtr p) = 0"

primrec vbig :: "rval \<Rightarrow> int option" where
  "vbig (VBig i) = i" | "vbig (VBytes b) = None" | "vbig (VBool b) = None"
| "vbig (VUint u) = None" | "vbig (VList vs) = None" | "vbig (VPtr p) = None"

primrec vlist :: "rval \<Rightarrow> rval list" where
  "vlist (VList vs) = vs" | "vlist (VBytes b) = []" | "vlist (VBool b) = []"
| "vlist (VUint u) = []" | "vlist (VBig i) = []" | "vlist (VPtr p) = []"

definition rulesT :: rtype where
  "rulesT = TStruct [TSlice (TByteArray 20), TBytes, TBytes, TBytes, TBytes]"

definition rules_val :: "DelegatingStakeRules \<Rightarrow> rval" where
  "rules_val dr = VList [VList (map VBytes (r_addrs dr)), VBytes (r_profitShare dr),
     VBytes (r_stakeShare dr), VBytes (r_exit dr), VBytes (r_withdrawal dr)]"

definition rules_of_val :: "rval \<Rightarrow> DelegatingStakeRules" where
  "rules_of_val v = (let f = vlist v in
     \<lparr>r_addrs = map vbytes (vlist (f ! 0)), r_profitShare = vbytes (f ! 1),
      r_stakeShare = vbytes (f ! 2), r_exit = vbytes (f ! 3), r_withdrawal = vbytes (f ! 4)\<rparr>)"

definition rules_MarshalBinary :: "DelegatingStakeRules \<Rightarrow> bytes res" where
  "rules_MarshalBinary dr = EncodeToBytes rulesT (rules_val dr)"

definition rules_UnmarshalBinary :: "bytes \<Rightarrow> DelegatingStakeRules res" where
  "rules_UnmarshalBinary b = rbind (DecodeBytes rulesT b) (\<lambda>v. Ok (rules_of_val v))"

section \<open>Delegating stake data\<close>

record DelegatingStakeData =
  d_Rules :: DelegatingStakeRules
  d_TrialPeriod :: u64
  d_TrialRules :: DelegatingStakeRules

definition NewDelegatingStakeData ::
  "bitfield_api \<Rightarrow> DelegatingStakeRules option \<Rightarrow> u64 \<Rightarrow> DelegatingStakeRules option \<Rightarrow>
     DelegatingStakeData res" where
  "NewDelegatingStakeData bf rules trialPeriod trialRules =
     rbind (case rules of None \<Rightarrow> Ok empty_rules
            | Some r \<Rightarrow> rbind (rules_Validate bf r) (\<lambda>_. Ok r)) (\<lambda>r.
     (let tr = (case trialRules of None \<Rightarrow> empty_rules | Some t \<Rightarrow> t) in
      rbind (if trialPeriod > 0
             then rbind (rules_ProfitShare tr) (\<lambda>ps. if ps \<noteq> [] then ValidateProfitShare tr else Ok ())
             else Ok ()) (\<lambda>_.
      rbind (if trialPeriod > 0
             then rbind (rules_StakeShare tr) (\<lambda>ss. if ss \<noteq> [] then ValidateStakeShare tr else Ok ())
             else Ok ()) (\<lambda>_.
      Ok \<lparr>d_Rules = r, d_TrialPeriod = trialPeriod, d_TrialRules = tr\<rparr>))))"

definition dsdT :: rtype where
  "dsdT = TStruct [TBytes, TUint 64, TBytes]"

definition dsd_MarshalBinary :: "DelegatingStakeData option \<Rightarrow> bytes res" where
  "dsd_MarshalBinary dsd =
     (case dsd of
        None \<Rightarrow> Ok (zero_array 4)
      | Some d \<Rightarrow>
          rbind (rules_MarshalBinary (d_Rules d)) (\<lambda>bRules.
          rbind (rules_MarshalBinary (d_TrialRules d)) (\<lambda>bTRules.
          rbind (EncodeToBytes dsdT (VList [VBytes bRules, VUint (d_TrialPeriod d), VBytes bTRules])) (\<lambda>e.
          Ok (bePut32 (length e) @ e)))))"

definition minDsdLen :: nat where
  "minDsdLen =
     (case dsd_MarshalBinary (Some \<lparr>d_Rules = empty_rules, d_TrialPeriod = 0, d_TrialRules = empty_rules\<rparr>)
      of Ok b \<Rightarrow> length b | _ \<Rightarrow> 0)"

definition dsd_UnmarshalBinary :: "bytes \<Rightarrow> DelegatingStakeData res" where
  "dsd_UnmarshalBinary b =
     (if length b < minDsdLen then
        (if b = zero_array 4 then Err (OpErr DelegatingStakeNilValBin) else Err (OpErr ErrBadDataLen))
      else rbind (go_slice b 0 4) (\<lambda>l. rbind (beUint32 l) (\<lambda>dataLen.
        if length b < 4 + dataLen then Err (OpErr ErrBadDataLen)
        else rbind (go_slice b 4 (4 + dataLen)) (\<lambda>e. rbind (DecodeBytes dsdT e) (\<lambda>v.
          rbind (rules_UnmarshalBinary (vbytes (vlist v ! 0))) (\<lambda>r.
          rbind (rules_UnmarshalBinary (vbytes (vlist v ! 2))) (\<lambda>tr.
          Ok \<lparr>d_Rules = r, d_TrialPeriod = vuint (vlist v ! 1), d_TrialRules = tr\<rparr>)))))))"

definition NewDelegatingStakeDataFromBinary :: "bytes \<Rightarrow> DelegatingStakeData option res" where
  "NewDelegatingStakeDataFromBinary b =
     (case dsd_UnmarshalBinary b of
        Ok d \<Rightarrow> Ok (Some d)
      | Err e \<Rightarrow> if e = OpErr DelegatingStakeNilValBin then Ok None else Err e
      | Panic \<Rightarrow> Panic)"

definition dsd_Copy :: "bitfield_api \<Rightarrow> DelegatingStakeData \<Rightarrow> DelegatingStakeData res" where
  "dsd_Copy bf d =
     rbind (rules_Copy bf (d_Rules d)) (\<lambda>r. rbind (rules_Copy bf (d_TrialRules d)) (\<lambda>tr.
     Ok \<lparr>d_Rules = r, d_TrialPeriod = d_TrialPeriod d, d_TrialRules = tr\<rparr>))"

definition dsd_IsEmpty :: "bitfield_api \<Rightarrow> DelegatingStakeData option \<Rightarrow> bool res" where
  "dsd_IsEmpty bf dsd =
     (case dsd of None \<Rightarrow> Ok True
      | Some d \<Rightarrow> rbind (rules_Withdrawal bf (d_Rules d)) (\<lambda>w. Ok (w = [])))"

section \<open>Deposit\<close>

record depositOperation =
  dep_pubkey :: pubkey
  dep_creator :: address
  dep_withdrawal :: address
  dep_signature :: blssig
  dep_delegate :: "DelegatingStakeData option"

text \<open>Go's \<^verbatim>\<open>a && b || c\<close> groups as \<^verbatim>\<open>(a && b) || c\<close>; the right operand is evaluated only when
  the left one is false.\<close>

definition trial_check1 :: "bitfield_api \<Rightarrow> DelegatingStakeData \<Rightarrow> unit res" where
  "trial_check1 bf d =
     rbind (if d_TrialPeriod d > 0
            then rbind (rules_ProfitShare (d_TrialRules d)) (\<lambda>ps. Ok (ps \<noteq> [])) else Ok False) (\<lambda>c.
     rbind (if c then Ok True
            else rbind (rules_Withdrawal bf (d_TrialRules d)) (\<lambda>w. Ok (w \<noteq> []))) (\<lambda>c'.
     if c' then rbind (ValidateProfitShare (d_TrialRules d)) (\<lambda>_.
                validateWithdrawal bf (d_TrialRules d))
     else Ok ()))"

definition trial_check2 :: "bitfield_api \<Rightarrow> DelegatingStakeData \<Rightarrow> unit res" where
  "trial_check2 bf d =
     rbind (if d_TrialPeriod d > 0
            then rbind (rules_StakeShare (d_TrialRules d)) (\<lambda>ps. Ok (ps \<noteq> [])) else Ok False) (\<lambda>c.
     rbind (if c then Ok True
            else rbind (rules_Exit bf (d_TrialRules d)) (\<lambda>w. Ok (w \<noteq> []))) (\<lambda>c'.
     if c' then rbind (ValidateStakeShare (d_TrialRules d)) (\<lambda>_.
                rbind (validateExit bf (d_TrialRules d)) (\<lambda>_.
                ValidateProfitShare (d_TrialRules d)))
     else Ok ()))"

definition deposit_init ::
  "bitfield_api \<Rightarrow> pubkey \<Rightarrow> address \<Rightarrow> address \<Rightarrow> blssig \<Rightarrow> DelegatingStakeData option \<Rightarrow>
     depositOperation res" where
  "deposit_init bf pubkey creator withdrawal signature delegate =
     rbind (guard (pubkey \<noteq> zero_array 48) (OpErr ErrNoPubKey)) (\<lambda>_.
     rbind (guard (creator \<noteq> zero_array 20) (OpErr ErrNoCreatorAddress)) (\<lambda>_.
     rbind (guard (\<not> (withdrawal = zero_array 20 \<and> delegate = None)) (OpErr ErrNoWithdrawalAddress)) (\<lambda>_.
     rbind (guard (signature \<noteq> zero_array 96) (OpErr ErrNoSignature)) (\<lambda>_.
     rbind (case delegate of
              None \<Rightarrow> Ok None
            | Some d0 \<Rightarrow>
                rbind (dsd_Copy bf d0) (\<lambda>d.
                rbind (rules_Validate bf (d_Rules d)) (\<lambda>_.
                rbind (trial_check1 bf d) (\<lambda>_.
                rbind (trial_check2 bf d) (\<lambda>_. Ok (Some d)))))) (\<lambda>dlg.
     Ok \<lparr>dep_pubkey = pubkey, dep_creator = creator, dep_withdrawal = withdrawal,
         dep_signature = signature, dep_delegate = dlg\<rparr>)))))"

definition deposit_minBinaryLen :: nat where
  "deposit_minBinaryLen = 48 + 20 + 20 + 96"

definition deposit_extended :: "bytes \<Rightarrow> DelegatingStakeData option res" where
  "deposit_extended ext =
     (if ext = [] then Ok None
      else rbind (go_slice ext 0 4) (\<lambda>l. rbind (beUint32 l) (\<lambda>delegateDataLen.
        rbind (go_from ext 4) (\<lambda>tail.
        if delegateDataLen > length tail then Err (OpErr ErrBadDataLen)
        else rbind (go_slice ext 4 (4 + delegateDataLen)) NewDelegatingStakeDataFromBinary))))"

definition deposit_UnmarshalBinary :: "bitfield_api \<Rightarrow> bytes \<Rightarrow> depositOperation res" where
  "deposit_UnmarshalBinary bf b =
     (if length b < deposit_minBinaryLen then Err (OpErr ErrBadDataLen)
      else rbind (go_slice b 0 48) (\<lambda>pk. rbind (go_slice b 48 68) (\<lambda>ca.
        rbind (go_slice b 68 88) (\<lambda>wa. rbind (go_slice b 88 184) (\<lambda>sg.
        rbind (go_from b 184) (\<lambda>ext. rbind (deposit_extended ext) (\<lambda>dlg.
        deposit_init bf (BytesToBlsPubKey pk) (BytesToAddress ca) (BytesToAddress wa)
          (BytesToBlsSig sg) dlg)))))))"

definition deposit_MarshalBinary :: "depositOperation \<Rightarrow> bytes res" where
  "deposit_MarshalBinary op =
     rbind (dsd_MarshalBinary (dep_delegate op)) (\<lambda>delegateBin.
     (let bin = dep_pubkey op @ dep_creator op @ dep_withdrawal op @ dep_signature op in
      if dep_delegate op = None then Ok bin
      else Ok (bin @ bePut32 (length delegateBin) @ delegateBin)))"

section \<open>Exit\<close>

record exitOperation =
  ex_pubKey :: pubkey
  ex_creator :: address
  ex_exitAfterEpoch :: "u64 option"

definition exit_init :: "pubkey \<Rightarrow> address \<Rightarrow> u64 option \<Rightarrow> exitOperation res" where
  "exit_init pubKey creator epoch =
     rbind (guard (pubKey \<noteq> zero_array 48) (OpErr ErrNoPubKey)) (\<lambda>_.
     rbind (guard (creator \<noteq> zero_array 20) (OpErr ErrNoCreatorAddress)) (\<lambda>_.
     Ok \<lparr>ex_pubKey = pubKey, ex_creator = creator, ex_exitAfterEpoch = epoch\<rparr>))"

definition minExitRequestLen :: nat where
  "minExitRequestLen = 48 + 20"

definition exit_MarshalBinary :: "exitOperation \<Rightarrow> bytes" where
  "exit_MarshalBinary op =
     ex_pubKey op @ ex_creator op
     @ (case ex_exitAfterEpoch op of None \<Rightarrow> [] | Some e \<Rightarrow> bePut64 e)"

definition exit_UnmarshalBinary :: "bytes \<Rightarrow> exitOperation res" where
  "exit_UnmarshalBinary data =
     (if length data < minExitRequestLen then Err (OpErr ErrBadDataLen)
      else rbind (go_slice data 0 48) (\<lambda>pk. rbind (go_slice data 48 68) (\<lambda>ca.
        if length data > minExitRequestLen
        then rbind (go_from data 68) (\<lambda>t. rbind (beUint64 t) (\<lambda>e.
               exit_init (BytesToBlsPubKey pk) (BytesToAddress ca) (Some e)))
        else exit_init (BytesToBlsPubKey pk) (BytesToAddress ca) None)))"

section \<open>Withdrawal\<close>

record withdrawalOperation =
  wd_creator :: address
  wd_amount :: "int option"

definition withdrawal_init :: "address \<Rightarrow> int option \<Rightarrow> withdrawalOperation res" where
  "withdrawal_init creator amount =
     rbind (guard (creator \<noteq> zero_array 20) (OpErr ErrNoCreatorAddress)) (\<lambda>_.
     rbind (guard (amount \<noteq> None) (OpErr ErrNoAmount)) (\<lambda>_.
     Ok \<lparr>wd_creator = creator, wd_amount = amount\<rparr>))"

text \<open>\<^verbatim>\<open>big.Int.Bytes\<close> is the minimal big-endian form of the absolute value.\<close>

definition bigBytes :: "int \<Rightarrow> bytes" where
  "bigBytes i = min_be (nat \<bar>i\<bar>)"

definition withdrawal_MarshalBinary :: "withdrawalOperation \<Rightarrow> bytes res" where
  "withdrawal_MarshalBinary op =
     (case wd_amount op of None \<Rightarrow> Panic | Some a \<Rightarrow> Ok (wd_creator op @ bigBytes a))"

definition withdrawal_UnmarshalBinary :: "bytes \<Rightarrow> withdrawalOperation res" where
  "withdrawal_UnmarshalBinary data =
     rbind (go_slice data 0 20) (\<lambda>va. rbind (go_from data 20) (\<lambda>am.
     withdrawal_init (BytesToAddress va) (Some (int (of_be am)))))"

section \<open>Validator sync\<close>

abbreviation NoVer :: u16 where "NoVer \<equiv> 0"
abbreviation Ver1 :: u16 where "Ver1 \<equiv> 1"

record validatorSyncOperation =
  so_version :: u16
  so_opType :: u64
  so_initTxHash :: hash
  so_procEpoch :: u64
  so_index :: u64
  so_creator :: address
  so_amount :: "int option"
  so_withdrawal :: "address option"
  so_balance :: "int option"

definition sync_init ::
  "u16 \<Rightarrow> u64 \<Rightarrow> hash \<Rightarrow> u64 \<Rightarrow> u64 \<Rightarrow> address \<Rightarrow> int option \<Rightarrow> address option \<Rightarrow> int option \<Rightarrow>
     validatorSyncOperation res" where
  "sync_init version opType initTxHash procEpoch index creator amount withdrawal balance =
     rbind (guard (initTxHash \<noteq> zero_array 32) (OpErr ErrNoInitTxHash)) (\<lambda>_.
     rbind (guard (creator \<noteq> zero_array 20) (OpErr ErrNoCreatorAddress)) (\<lambda>_.
     rbind (if opType = UpdateBalance then
              rbind (guard (amount \<noteq> None) (OpErr ErrNoAmount)) (\<lambda>_.
              rbind (guard (withdrawal \<noteq> None) (OpErr ErrNoWithdrawalAddress)) (\<lambda>_.
              guard (\<not> (version > NoVer \<and> balance = None)) (OpErr ErrNoBalance)))
            else Ok ()) (\<lambda>_.
     Ok \<lparr>so_version = version, so_opType = opType, so_initTxHash = initTxHash,
         so_procEpoch = procEpoch, so_index = index, so_creator = creator, so_amount = amount,
         so_withdrawal = (if opType = UpdateBalance then withdrawal else None),
         so_balance = (if opType = UpdateBalance then balance else None)\<rparr>)))"

definition syncT :: rtype where
  "syncT = TStruct [TUint 64, TByteArray 32, TUint 64, TUint 64, TByteArray 20, TByteArray 20,
     TBigIntVal, TBigIntVal]"

definition wrapperT :: rtype where
  "wrapperT = TStruct [TUint 16, TBytes]"

definition wrapVersionedData :: "u16 \<Rightarrow> bytes \<Rightarrow> bytes res" where
  "wrapVersionedData ver bin = EncodeToBytes wrapperT (VList [VUint (ucast ver), VBytes bin])"

definition unwrapVersionedData :: "bytes \<Rightarrow> (u16 \<times> bytes) res" where
  "unwrapVersionedData bin =
     rbind (DecodeBytes wrapperT bin) (\<lambda>v. Ok (ucast (vuint (vlist v ! 0)), vbytes (vlist v ! 1)))"

definition sync_marshalLegacy :: "validatorSyncOperation \<Rightarrow> bytes" where
  "sync_marshalLegacy op =
     bePut64 (so_opType op) @ so_initTxHash op @ bePut64 (so_procEpoch op) @ bePut64 (so_index op)
     @ so_creator op
     @ (case so_withdrawal op of None \<Rightarrow> [] | Some w \<Rightarrow> w)
     @ (case so_amount op of None \<Rightarrow> [] | Some a \<Rightarrow> bigBytes a)"

definition valSyncOpDataMinLen :: nat where
  "valSyncOpDataMinLen = 8 + 8 + 20 + 32"

definition sync_unmarshalLegacy :: "bytes \<Rightarrow> validatorSyncOperation res" where
  "sync_unmarshalLegacy b =
     (if length b < valSyncOpDataMinLen then Err (OpErr ErrBadDataLen)
      else rbind (go_slice b 0 8) (\<lambda>ot. rbind (beUint64 ot) (\<lambda>opType.
        rbind (go_slice b 8 40) (\<lambda>ih.
        rbind (go_slice b 40 48) (\<lambda>pe. rbind (beUint64 pe) (\<lambda>procEpoch.
        rbind (go_slice b 48 56) (\<lambda>ix. rbind (beUint64 ix) (\<lambda>index.
        rbind (go_slice b 56 76) (\<lambda>ca.
        rbind (if opType = UpdateBalance
               then rbind (go_slice b 76 96) (\<lambda>w. rbind (go_from b 96) (\<lambda>am.
                      Ok (BytesToAddress w, Some (int (of_be am)))))
               else Ok (zero_array 20, None)) (\<lambda>(withdrawal, amount).
        sync_init NoVer opType (BytesToHash ih) procEpoch index (BytesToAddress ca) amount
          (Some withdrawal) None))))))))))"

definition sync_MarshalBinary :: "validatorSyncOperation \<Rightarrow> bytes res" where
  "sync_MarshalBinary op =
     (let upd = (so_opType op = UpdateBalance);
          withdrawal = (if upd then so_withdrawal op else Some (zero_array 20));
          amount = (if upd then so_amount op else Some 0);
          balance = (if upd then so_balance op else Some 0) in
      if so_version op = NoVer then Ok (sync_marshalLegacy op)
      else if so_version op = Ver1 then
        (case (withdrawal, amount, balance) of
           (Some w, Some a, Some bl) \<Rightarrow>
             rbind (EncodeToBytes syncT
               (VList [VUint (so_opType op), VBytes (so_initTxHash op), VUint (so_procEpoch op),
                       VUint (so_index op), VBytes (so_creator op), VBytes w, VBig (Some a),
                       VBig (Some bl)]))
               (wrapVersionedData (so_version op))
         | _ \<Rightarrow> Panic)
      else Err (OpErr ErrOpBadVersion))"

definition sync_UnmarshalBinary :: "bytes \<Rightarrow> validatorSyncOperation res" where
  "sync_UnmarshalBinary b =
     (case unwrapVersionedData b of
        Ok (version, binData) \<Rightarrow>
          (if version = Ver1 then
             rbind (DecodeBytes syncT binData) (\<lambda>v. (let f = vlist v in
             sync_init version (vuint (f ! 0)) (vbytes (f ! 1)) (vuint (f ! 2)) (vuint (f ! 3))
               (vbytes (f ! 4)) (vbig (f ! 6)) (Some (vbytes (f ! 5))) (vbig (f ! 7))))
           else Err (OpErr ErrOpBadVersion))
      | Err e \<Rightarrow> sync_unmarshalLegacy b
      | Panic \<Rightarrow> Panic)"

definition sync_OpCode :: "validatorSyncOperation \<Rightarrow> byte" where
  "sync_OpCode op =
     (if so_opType op = Activate then 0x02
      else if so_opType op = Deactivate then 0x04
      else if so_opType op = UpdateBalance then 0x05 else 0)"

definition sync_Amount :: "validatorSyncOperation \<Rightarrow> int option" where
  "sync_Amount op =
     (case so_amount op of None \<Rightarrow> None
      | Some a \<Rightarrow> if sync_OpCode op = 0x05 then Some a else None)"

section \<open>Operations\<close>

datatype operation =
    OpDeposit depositOperation
  | OpSync validatorSyncOperation
  | OpExit exitOperation
  | OpWithdrawal withdrawalOperation

definition op_OpCode :: "operation \<Rightarrow> byte" where
  "op_OpCode op = (case op of OpDeposit _ \<Rightarrow> 0x01 | OpSync s \<Rightarrow> sync_OpCode s | OpExit _ \<Rightarrow> 0x03
     | OpWithdrawal _ \<Rightarrow> 0x06)"

definition GetOpCode :: "bytes \<Rightarrow> byte res" where
  "GetOpCode b =
     (if length b < 2 then Err (OpErr ErrRawDataShort)
      else if b ! 0 \<noteq> 0xF4 then Err (OpErr ErrPrefixNotValid)
      else Ok (b ! 1))"

definition op_DecodeBytes :: "bitfield_api \<Rightarrow> bytes \<Rightarrow> operation res" where
  "op_DecodeBytes bf b =
     rbind (GetOpCode b) (\<lambda>code.
     if code = 0x01 then rbind (go_from b 2) (\<lambda>d. rbind (deposit_UnmarshalBinary bf d) (\<lambda>x. Ok (OpDeposit x)))
     else if code = 0x02 \<or> code = 0x04 \<or> code = 0x05
       then rbind (go_from b 2) (\<lambda>d. rbind (sync_UnmarshalBinary d) (\<lambda>x. Ok (OpSync x)))
     else if code = 0x03 then rbind (go_from b 2) (\<lambda>d. rbind (exit_UnmarshalBinary d) (\<lambda>x. Ok (OpExit x)))
     else if code = 0x06
       then rbind (go_from b 2) (\<lambda>d. rbind (withdrawal_UnmarshalBinary d) (\<lambda>x. Ok (OpWithdrawal x)))
     else Err (OpErr ErrOpNotValid))"

definition op_EncodeToBytes :: "operation \<Rightarrow> bytes res" where
  "op_EncodeToBytes op =
     (case op of
        OpDeposit x \<Rightarrow> rbind (deposit_MarshalBinary x) (\<lambda>b. Ok (0xF4 # 0x01 # b))
      | OpSync x \<Rightarrow> rbind (sync_MarshalBinary x) (\<lambda>b. rbind (sync_UnmarshalBinary b) (\<lambda>vs.
          Ok (0xF4 # sync_OpCode vs # b)))
      | OpExit x \<Rightarrow> Ok (0xF4 # 0x03 # exit_MarshalBinary x)
      | OpWithdrawal x \<Rightarrow> rbind (withdrawal_MarshalBinary x) (\<lambda>b. Ok (0xF4 # 0x06 # b)))"

end
