(* ===== verification/Operation_Correct.thy ===== *)
theory Operation_Correct
  imports Operation
begin

text \<open>
  Round trips of the binary formats of validator operations, and the inputs on which the
  decoders panic instead of returning an error.
\<close>

section \<open>Sizes\<close>

declare enc.simps [simp del]

lemma rlp_roundtrip:
  assumes "wf_rtype t" "full t v" "length (enc (to_item t v)) < 2 ^ 63"
  shows "EncodeToBytes t v = Ok (enc (to_item t v))" "DecodeBytes t (enc (to_item t v)) = Ok v"
  using assms DecodeBytes_iff[OF assms(1,3)] EncodeToBytes_enc[OF full_wt[OF assms(2)]] by auto

lemma length_puthead_le: "length (puthead st lt n) \<le> 9"
  using nbytes_le_8[OF unat_u64_less, of n] by (simp add: puthead_length headsize_def)

lemma length_enc_Str: "length (enc (Str b)) \<le> 9 + length b"
  using length_puthead_le[of "0x80" "0xB7" "word_of_nat (length b)"] by (simp add: enc.simps)

lemma length_enc_Lst: "length (enc (Lst xs)) \<le> 9 + length (concat (map enc xs))"
  using length_puthead_le[of "0xC0" "0xF7" "word_of_nat (length (concat (map enc xs)))"]
  by (simp add: enc.simps Let_def)

lemma length_enc_Lst_lower: "length (concat (map enc xs)) < length (enc (Lst xs))"
  by (simp add: enc.simps Let_def puthead_def)

lemma length_enc_Str_lower: "length b \<noteq> 1 \<Longrightarrow> length b < length (enc (Str b))"
  by (simp add: enc.simps puthead_def Let_def)

lemma length_items_le: "(\<And>x. x \<in> set xs \<Longrightarrow> length (enc x) \<le> k) \<Longrightarrow> length (concat (map enc xs)) \<le> k * length xs"
  by (induction xs) (auto simp: add_mono)

lemma enc_Lst_head:
  assumes "length (enc (Lst xs)) < 2 ^ 64"
  shows "0xC0 \<le> hd (enc (Lst xs))"
proof -
  let ?n = "word_of_nat (length (concat (map enc xs))) :: u64"
  show ?thesis
  proof (cases "?n < 56")
    case True
    then have "unat ?n < 56" by (simp add: word_less_nat_alt)
    then have "unat ((0xC0 :: byte) + ucast ?n) = 192 + unat ?n"
      using unat_tag_add[of "0xC0" "unat ?n"] by (simp add: ucast_byte del: of_nat_unat)
    then show ?thesis using True by (simp add: enc.simps Let_def puthead_def word_le_nat_alt)
  next
    case False
    obtain bs where b: "puthead 0xC0 0xF7 ?n = (0xF7 + word_of_nat (length bs)) # bs" "length bs \<le> 8"
      using puthead_canon[OF False] by blast
    then have "unat ((0xF7 :: byte) + word_of_nat (length bs)) = 247 + length bs"
      using unat_tag_add[of "0xF7" "length bs"] by simp
    then show ?thesis using b(1) by (simp add: enc.simps Let_def word_le_nat_alt)
  qed
qed

text \<open>Input that does not start with a list tag is no structure.\<close>

lemma DecodeBytes_struct_head:
  assumes "wf_rtype (TStruct ts)" "length b < 2 ^ 63" "b = [] \<or> hd b < 0xC0"
  shows "\<exists>e. DecodeBytes (TStruct ts) b = Err e"
proof (cases "DecodeBytes (TStruct ts) b")
  case (Ok v)
  then have v: "full (TStruct ts) v" "b = enc (to_item (TStruct ts) v)"
    using DecodeBytes_iff[OF assms(1,2)] by blast+
  then obtain xs where "to_item (TStruct ts) v = Lst xs" by (cases v) auto
  then have "b = enc (Lst xs)" "b \<noteq> []" using v(2) by simp_all
  then show ?thesis using enc_Lst_head[of xs] assms(2,3) by auto
next
  case Panic
  then show ?thesis using DecodeBytes_no_panic[OF assms(1,2)] by blast
qed simp

section \<open>Rules\<close>

definition rules_small :: "DelegatingStakeRules \<Rightarrow> bool" where
  "rules_small dr \<longleftrightarrow> list_all (\<lambda>a. length a = 20) (r_addrs dr) \<and> length (r_addrs dr) < 2 ^ 16 \<and>
     length (r_profitShare dr) < 2 ^ 16 \<and> length (r_stakeShare dr) < 2 ^ 16 \<and>
     length (r_exit dr) < 2 ^ 16 \<and> length (r_withdrawal dr) < 2 ^ 16"

definition rules_wf :: "bitfield_api \<Rightarrow> DelegatingStakeRules \<Rightarrow> bool" where
  "rules_wf bf dr \<longleftrightarrow> rules_small dr \<and>
     length (r_profitShare dr) = length (r_addrs dr) \<and> length (r_stakeShare dr) = length (r_addrs dr) \<and>
     (r_exit dr = [] \<or> length (r_exit dr) = length (NewBitlist bf (length (r_addrs dr)))) \<and>
     (r_withdrawal dr = [] \<or> length (r_withdrawal dr) = length (NewBitlist bf (length (r_addrs dr))))"

lemma rules_Copy_id: "rules_wf bf dr \<Longrightarrow> rules_Copy bf dr = Ok dr"
  by (auto simp: rules_wf_def rules_Copy_def copy_shares_def copy_bits_def Let_def)

lemma rules_val_inverse [simp]: "rules_of_val (rules_val dr) = dr"
  by (simp add: rules_of_val_def rules_val_def comp_def)

lemma wf_types [simp]: "wf_rtype rulesT" "wf_rtype dsdT" "wf_rtype syncT" "wf_rtype wrapperT"
  by (simp_all add: rulesT_def dsdT_def syncT_def wrapperT_def uint_width_def)

lemma rules_full: "rules_small dr \<Longrightarrow> full rulesT (rules_val dr)"
  by (auto simp: rules_small_def rulesT_def rules_val_def list_all_iff)

lemma rules_enc_bounds:
  assumes "rules_small dr"
  shows "length (enc (to_item rulesT (rules_val dr))) < 2 ^ 22" "6 \<le> length (enc (to_item rulesT (rules_val dr)))"
proof -
  let ?as = "Lst (map Str (r_addrs dr))"
  let ?items = "[?as, Str (r_profitShare dr), Str (r_stakeShare dr), Str (r_exit dr), Str (r_withdrawal dr)]"
  have e: "to_item rulesT (rules_val dr) = Lst ?items"
    by (simp add: rulesT_def rules_val_def comp_def)
  have "length (enc x) \<le> 29" if x: "x \<in> set (map Str (r_addrs dr))" for x
  proof -
    obtain a where "x = Str a" "length a = 20" using x assms by (auto simp: rules_small_def list_all_iff)
    then show ?thesis using length_enc_Str[of a] by simp
  qed
  then have "length (concat (map enc (map Str (r_addrs dr)))) \<le> 29 * length (map Str (r_addrs dr))"
    by (rule length_items_le)
  then have "length (enc ?as) \<le> 9 + 29 * length (r_addrs dr)"
    using length_enc_Lst[of "map Str (r_addrs dr)"] by simp
  then have "length (concat (map enc ?items)) < 45 + 29 * 2 ^ 16 + 4 * 2 ^ 16"
    using length_enc_Str[of "r_profitShare dr"] length_enc_Str[of "r_stakeShare dr"]
      length_enc_Str[of "r_exit dr"] length_enc_Str[of "r_withdrawal dr"] assms
    by (simp add: rules_small_def)
  then show "length (enc (to_item rulesT (rules_val dr))) < 2 ^ 22"
    using length_enc_Lst[of ?items] by (simp add: e)
  have "5 \<le> length (concat (map enc ?items))" using length_items[of ?items] by simp
  then show "6 \<le> length (enc (to_item rulesT (rules_val dr)))"
    using length_enc_Lst_lower[of ?items] by (simp add: e)
qed

lemma rules_roundtrip:
  assumes "rules_small dr"
  shows "rules_MarshalBinary dr = Ok (enc (to_item rulesT (rules_val dr)))"
    "rules_UnmarshalBinary (enc (to_item rulesT (rules_val dr))) = Ok dr"
proof -
  have "length (enc (to_item rulesT (rules_val dr))) < 2 ^ 63" using rules_enc_bounds(1)[OF assms] by simp
  note r = rlp_roundtrip[OF wf_types(1) rules_full[OF assms] this]
  show "rules_MarshalBinary dr = Ok (enc (to_item rulesT (rules_val dr)))"
    using r(1) by (simp add: rules_MarshalBinary_def)
  show "rules_UnmarshalBinary (enc (to_item rulesT (rules_val dr))) = Ok dr"
    using r(2) by (simp add: rules_UnmarshalBinary_def)
qed

section \<open>Delegating stake data\<close>

definition dsd_small :: "DelegatingStakeData \<Rightarrow> bool" where
  "dsd_small d \<longleftrightarrow> rules_small (d_Rules d) \<and> rules_small (d_TrialRules d)"

lemma minDsdLen_20: "minDsdLen = 20"
proof -
  have s: "rules_small empty_rules" by (simp add: rules_small_def empty_rules_def)
  have e: "enc (to_item rulesT (rules_val empty_rules)) = [0xC5, 0xC0, 0x80, 0x80, 0x80, 0x80]"
    by (simp add: rulesT_def rules_val_def empty_rules_def puthead_def enc.simps)
  let ?v = "VList [VBytes [0xC5, 0xC0, 0x80, 0x80, 0x80, 0x80], VUint 0, VBytes [0xC5, 0xC0, 0x80, 0x80, 0x80, 0x80]]"
  have d: "length (enc (to_item dsdT ?v)) = 16" by (simp add: dsdT_def puthead_def min_be_def enc.simps)
  have "EncodeToBytes dsdT ?v = Ok (enc (to_item dsdT ?v))"
    by (rule rlp_roundtrip(1)) (simp_all add: d del: to_item.simps, simp add: dsdT_def)
  then show ?thesis
    by (simp add: minDsdLen_def dsd_MarshalBinary_def rules_roundtrip(1)[OF s] e d)
qed

lemma dsd_roundtrip:
  assumes "dsd_small d"
  obtains e where "dsd_MarshalBinary (Some d) = Ok e" "length e < 2 ^ 26" "20 \<le> length e"
    "dsd_UnmarshalBinary e = Ok d"
proof -
  let ?r = "enc (to_item rulesT (rules_val (d_Rules d)))" and ?t = "enc (to_item rulesT (rules_val (d_TrialRules d)))"
  have s: "rules_small (d_Rules d)" "rules_small (d_TrialRules d)" using assms by (simp_all add: dsd_small_def)
  note br = rules_enc_bounds[OF s(1)] and bt = rules_enc_bounds[OF s(2)]
  let ?v = "VList [VBytes ?r, VUint (d_TrialPeriod d), VBytes ?t]"
  let ?items = "[Str ?r, Str (min_be (unat (d_TrialPeriod d))), Str ?t]"
  have e: "to_item dsdT ?v = Lst ?items" by (simp add: dsdT_def)
  let ?e = "enc (Lst ?items)"
  have mb: "length (min_be (unat (d_TrialPeriod d))) \<le> 8"
    using length_min_be_le[of "unat (d_TrialPeriod d)" 8] unat_u64_less[of "d_TrialPeriod d"] by simp
  have c: "length (concat (map enc ?items)) = length (enc (Str ?r)) + length (enc (Str (min_be (unat (d_TrialPeriod d))))) + length (enc (Str ?t))"
    by simp
  have up: "length ?e < 2 ^ 25"
    using length_enc_Lst[of ?items] length_enc_Str[of ?r] length_enc_Str[of ?t]
      length_enc_Str[of "min_be (unat (d_TrialPeriod d))"] mb br(1) bt(1) unfolding c
    by simp
  have "0 < length (enc (Str (min_be (unat (d_TrialPeriod d)))))"
    using enc_nonempty[of "Str (min_be (unat (d_TrialPeriod d)))"] by (simp only: length_greater_0_conv not_False_eq_True)
  moreover have "7 \<le> length (enc (Str ?r))" "7 \<le> length (enc (Str ?t))"
    using length_enc_Str_lower[of ?r] length_enc_Str_lower[of ?t] br(2) bt(2) by linarith+
  ultimately have lo: "16 \<le> length ?e"
    using length_enc_Lst_lower[of ?items] unfolding c by linarith
  have f: "full dsdT ?v" using unat_u64_less[of "d_TrialPeriod d"] by (simp add: dsdT_def)
  have "length (enc (to_item dsdT ?v)) < 2 ^ 63" using up unfolding e by simp
  note r = rlp_roundtrip[OF wf_types(2) f this, unfolded e]
  show ?thesis
  proof (rule that[of "bePut32 (length ?e) @ ?e"])
    show "dsd_MarshalBinary (Some d) = Ok (bePut32 (length ?e) @ ?e)"
      by (simp add: dsd_MarshalBinary_def rules_roundtrip(1)[OF s(1)] rules_roundtrip(1)[OF s(2)] r(1)
          )
    show "length (bePut32 (length ?e) @ ?e) < 2 ^ 26" "20 \<le> length (bePut32 (length ?e) @ ?e)"
      using up lo by simp_all
    have "go_slice (bePut32 (length ?e) @ ?e) 4 (4 + length ?e) = Ok ?e"
      using go_slice_append[of "bePut32 (length ?e)" 4 "4 + length ?e" ?e "[]"] by simp
    moreover have "beUint32 (bePut32 (length ?e)) = Ok (length ?e)"
      using beUint32_bePut32[of "length ?e" "[]"] up by simp
    ultimately show "dsd_UnmarshalBinary (bePut32 (length ?e) @ ?e) = Ok d"
      using lo r(2) rules_roundtrip(2)[OF s(1)] rules_roundtrip(2)[OF s(2)]
      by (simp add: dsd_UnmarshalBinary_def minDsdLen_20)
  qed
qed

section \<open>Deposit, exit and withdrawal\<close>

lemma deposit_extended_dsd:
  assumes "dsd_UnmarshalBinary e = Ok d" "length e < 2 ^ 26" "20 \<le> length e"
  shows "deposit_extended (bePut32 (length e) @ e) = Ok (Some d)"
proof -
  let ?ext = "bePut32 (length e) @ e"
  have "beUint32 (bePut32 (length e)) = Ok (length e)"
    using beUint32_bePut32[of "length e" "[]"] assms(2) by simp
  moreover have "go_slice ?ext 4 (4 + length e) = Ok e"
    using go_slice_append[of "bePut32 (length e)" 4 "4 + length e" e "[]"] by simp
  moreover have "?ext \<noteq> []" using assms(3) by auto
  ultimately show ?thesis
    by (simp add: deposit_extended_def NewDelegatingStakeDataFromBinary_def assms(1))
qed

definition deposit_valid :: "bitfield_api \<Rightarrow> depositOperation \<Rightarrow> bool" where
  "deposit_valid bf op \<longleftrightarrow> length (dep_pubkey op) = 48 \<and> length (dep_creator op) = 20 \<and>
     length (dep_withdrawal op) = 20 \<and> length (dep_signature op) = 96 \<and>
     (case dep_delegate op of None \<Rightarrow> True | Some d \<Rightarrow> dsd_small d) \<and>
     deposit_init bf (dep_pubkey op) (dep_creator op) (dep_withdrawal op) (dep_signature op)
       (dep_delegate op) = Ok op"

lemma deposit_roundtrip:
  assumes "deposit_valid bf op"
  shows "\<exists>b. deposit_MarshalBinary op = Ok b \<and> deposit_UnmarshalBinary bf b = Ok op"
proof (cases "dep_delegate op")
  case None
  then show ?thesis
    using assms
    by (simp add: deposit_valid_def deposit_MarshalBinary_def deposit_UnmarshalBinary_def
        dsd_MarshalBinary_def deposit_minBinaryLen_def go_slice_def go_from_def deposit_extended_def Let_def)
next
  case (Some d)
  then have d: "dsd_small d" using assms by (simp add: deposit_valid_def)
  obtain e where e: "dsd_MarshalBinary (Some d) = Ok e" "length e < 2 ^ 26" "20 \<le> length e"
    "dsd_UnmarshalBinary e = Ok d" using dsd_roundtrip[OF d] by blast
  note x = deposit_extended_dsd[OF e(4,2,3)]
  show ?thesis
    using assms Some e(1) x
    by (simp add: deposit_valid_def deposit_MarshalBinary_def deposit_UnmarshalBinary_def
        deposit_minBinaryLen_def go_slice_def go_from_def Let_def)
qed

definition exit_valid :: "exitOperation \<Rightarrow> bool" where
  "exit_valid op \<longleftrightarrow> length (ex_pubKey op) = 48 \<and> length (ex_creator op) = 20 \<and>
     exit_init (ex_pubKey op) (ex_creator op) (ex_exitAfterEpoch op) = Ok op"

lemma exit_roundtrip: "exit_valid op \<Longrightarrow> exit_UnmarshalBinary (exit_MarshalBinary op) = Ok op"
  by (cases "ex_exitAfterEpoch op")
     (simp_all add: exit_valid_def exit_MarshalBinary_def exit_UnmarshalBinary_def
        minExitRequestLen_def go_slice_def go_from_def)

definition withdrawal_valid :: "withdrawalOperation \<Rightarrow> bool" where
  "withdrawal_valid op \<longleftrightarrow> length (wd_creator op) = 20 \<and> (\<exists>a. wd_amount op = Some a \<and> 0 \<le> a) \<and>
     withdrawal_init (wd_creator op) (wd_amount op) = Ok op"

lemma bigBytes_inverse [simp]: "0 \<le> a \<Longrightarrow> int (of_be (bigBytes a)) = a"
  by (simp add: bigBytes_def)

lemma withdrawal_roundtrip:
  "withdrawal_valid op \<Longrightarrow>
   \<exists>b. withdrawal_MarshalBinary op = Ok b \<and> withdrawal_UnmarshalBinary b = Ok op"
  by (auto simp: withdrawal_valid_def withdrawal_MarshalBinary_def withdrawal_UnmarshalBinary_def
      go_slice_def go_from_def)

section \<open>Validator sync\<close>

definition opt_small :: "int option \<Rightarrow> bool" where
  "opt_small i \<longleftrightarrow> (case i of None \<Rightarrow> True | Some a \<Rightarrow> 0 \<le> a \<and> length (bigBytes a) < 2 ^ 16)"

definition sync_valid :: "validatorSyncOperation \<Rightarrow> bool" where
  "sync_valid op \<longleftrightarrow> so_version op \<in> {NoVer, Ver1} \<and>
     so_opType op \<in> {Activate, Deactivate, UpdateBalance} \<and>
     length (so_initTxHash op) = 32 \<and> length (so_creator op) = 20 \<and>
     (\<forall>w. so_withdrawal op = Some w \<longrightarrow> length w = 20) \<and>
     opt_small (so_amount op) \<and> opt_small (so_balance op) \<and>
     sync_init (so_version op) (so_opType op) (so_initTxHash op) (so_procEpoch op) (so_index op)
       (so_creator op) (so_amount op) (so_withdrawal op) (so_balance op) = Ok op"

text \<open>What survives a round trip: an operation that updates no balance carries no amount,
  and the unversioned layout has no balance.\<close>

definition sync_norm :: "validatorSyncOperation \<Rightarrow> validatorSyncOperation" where
  "sync_norm op = op\<lparr>
     so_amount := (if so_opType op = UpdateBalance then so_amount op
                   else if so_version op = Ver1 then Some 0 else None),
     so_balance := (if so_version op = NoVer then None else so_balance op)\<rparr>"

lemma sync_init_Ok:
  "sync_init v ot ih pe ix ca am wa bl = Ok op \<longleftrightarrow>
     ih \<noteq> zero_array 32 \<and> ca \<noteq> zero_array 20 \<and>
     (ot = UpdateBalance \<longrightarrow> am \<noteq> None \<and> wa \<noteq> None \<and> (v > NoVer \<longrightarrow> bl \<noteq> None)) \<and>
     op = \<lparr>so_version = v, so_opType = ot, so_initTxHash = ih, so_procEpoch = pe, so_index = ix,
       so_creator = ca, so_amount = am, so_withdrawal = (if ot = UpdateBalance then wa else None),
       so_balance = (if ot = UpdateBalance then bl else None)\<rparr>"
  by (auto simp: sync_init_def rbind_eq_Ok)

lemma legacy_head:
  assumes "so_opType op \<in> {Activate, Deactivate, UpdateBalance}"
  shows "sync_marshalLegacy op \<noteq> []" "hd (sync_marshalLegacy op) < 0xC0"
  using assms by (auto simp: sync_marshalLegacy_def bePut64_def codec_simps)

lemma sync_validD:
  assumes "sync_valid op"
  shows "so_initTxHash op \<noteq> zero_array 32" "so_creator op \<noteq> zero_array 20"
    "length (so_initTxHash op) = 32" "length (so_creator op) = 20"
    "so_opType op = UpdateBalance \<Longrightarrow> \<exists>a w. so_amount op = Some a \<and> 0 \<le> a \<and>
       length (bigBytes a) < 2 ^ 16 \<and> so_withdrawal op = Some w \<and> length w = 20"
    "so_opType op = UpdateBalance \<Longrightarrow> so_version op = Ver1 \<Longrightarrow>
       \<exists>l. so_balance op = Some l \<and> 0 \<le> l \<and> length (bigBytes l) < 2 ^ 16"
    "so_opType op \<noteq> UpdateBalance \<Longrightarrow> so_withdrawal op = None \<and> so_balance op = None"
  using assms
  by (cases op; auto simp: sync_valid_def sync_init_Ok opt_small_def word_gt_0)+

lemma sync_roundtrip_legacy:
  assumes v: "sync_valid op" "so_version op = NoVer"
  shows "\<exists>b. sync_MarshalBinary op = Ok b \<and> sync_UnmarshalBinary b = Ok (sync_norm op)"
proof -
  let ?b = "sync_marshalLegacy op"
  have ot: "so_opType op \<in> {Activate, Deactivate, UpdateBalance}" using v(1) by (simp add: sync_valid_def)
  note d = sync_validD[OF v(1)]
  have am: "length (case so_amount op of None \<Rightarrow> [] | Some a \<Rightarrow> bigBytes a) < 2 ^ 16"
    using v(1) by (auto simp: sync_valid_def opt_small_def split: option.splits)
  have wl: "length (case so_withdrawal op of None \<Rightarrow> [] | Some w \<Rightarrow> w) \<le> 20"
    using v(1) by (auto simp: sync_valid_def split: option.splits)
  have "length ?b < 2 ^ 63" using am wl d(3,4) by (simp add: sync_marshalLegacy_def)
  then obtain e where "DecodeBytes wrapperT ?b = Err e"
    using DecodeBytes_struct_head[of "[TUint 16, TBytes]" ?b] legacy_head[OF ot] wf_types(4)
    by (auto simp: wrapperT_def)
  then have "sync_UnmarshalBinary ?b = sync_unmarshalLegacy ?b"
    by (simp add: sync_UnmarshalBinary_def unwrapVersionedData_def)
  also have "\<dots> = Ok (sync_norm op)"
  proof (cases "so_opType op = UpdateBalance")
    case True
    then obtain a w where a: "so_amount op = Some a" "0 \<le> a" "so_withdrawal op = Some w" "length w = 20"
      using d(5) by blast
    show ?thesis
      using d(1-4) True a v(2)
      by (simp add: sync_unmarshalLegacy_def sync_marshalLegacy_def valSyncOpDataMinLen_def go_slice_def
          go_from_def sync_init_Ok sync_norm_def)
  next
    case False
    then show ?thesis
      using d(1-4) d(7)[OF False] v(2)
      by (simp add: sync_unmarshalLegacy_def sync_marshalLegacy_def valSyncOpDataMinLen_def go_slice_def
          go_from_def sync_init_Ok sync_norm_def)
  qed
  finally show ?thesis using v(2) by (simp add: sync_MarshalBinary_def Let_def)
qed

lemma sync_fields_small:
  fixes ot pe ix :: u64
  assumes "length ih = 32" "length ca = 20" "length w = 20" "0 \<le> a" "length (bigBytes a) < 2 ^ 16"
    "0 \<le> l" "length (bigBytes l) < 2 ^ 16"
  defines "v \<equiv> VList [VUint ot, VBytes ih, VUint pe, VUint ix, VBytes ca, VBytes w, VBig (Some a), VBig (Some l)]"
  shows "full syncT v" "length (enc (to_item syncT v)) < 2 ^ 18"
proof -
  show "full syncT v" using assms unat_u64_less by (simp add: v_def syncT_def)
  let ?n = "\<lambda>u :: u64. Str (min_be (unat u))"
  let ?items = "[?n ot, Str ih, ?n pe, ?n ix, Str ca, Str w, Str (min_be (nat a)), Str (min_be (nat l))]"
  have e: "to_item syncT v = Lst ?items" by (simp add: v_def syncT_def)
  have u: "length (enc (?n x)) \<le> 17" for x
    using length_enc_Str[of "min_be (unat x)"] length_min_be_le[of "unat x" 8] unat_u64_less[of x] by simp
  have "length (enc (Lst ?items)) < 2 ^ 18"
    using length_enc_Lst[of ?items] u[of ot] u[of pe] u[of ix] length_enc_Str[of ih] length_enc_Str[of ca]
      length_enc_Str[of w] length_enc_Str[of "min_be (nat a)"] length_enc_Str[of "min_be (nat l)"] assms(1-7)
    by (simp add: bigBytes_def)
  then show "length (enc (to_item syncT v)) < 2 ^ 18" by (simp add: e)
qed

lemma wrap_roundtrip:
  assumes "length bin < 2 ^ 18"
  obtains b where "wrapVersionedData ver bin = Ok b" "unwrapVersionedData b = Ok (ver, bin)"
proof -
  let ?v = "VList [VUint (ucast ver), VBytes bin]"
  have u: "unat (ucast ver :: u64) = unat ver" 
  proof -
    have "unat ver < 2 ^ 16" using unsigned_less[of ver, where ?'a = nat] by simp
    then have "unat ver < 2 ^ 64" by simp
    then show ?thesis by (simp add: unsigned_ucast_eq take_bit_nat_eq_self)
  qed
  have "unat ver < 2 ^ 16" using unsigned_less[of ver, where ?'a = nat] by simp
  then have f: "full wrapperT ?v" by (simp add: wrapperT_def u)
  have e: "to_item wrapperT ?v = Lst [Str (min_be (unat ver)), Str bin]" by (simp add: wrapperT_def u)
  have "length (min_be (unat ver)) \<le> 2" using length_min_be_le[of "unat ver" 2] \<open>unat ver < 2 ^ 16\<close> by simp
  then have "length (enc (to_item wrapperT ?v)) < 2 ^ 63"
    using length_enc_Lst[of "[Str (min_be (unat ver)), Str bin]"] length_enc_Str[of bin]
      length_enc_Str[of "min_be (unat ver)"] assms by (simp add: e)
  note r = rlp_roundtrip[OF wf_types(4) f this]
  have cast: "(ucast (ucast ver :: u64) :: u16) = ver"
    by (simp add: word_unat_eq_iff unsigned_ucast_eq take_bit_word_eq_self)
  show ?thesis
    by (rule that[of "enc (to_item wrapperT ?v)"])
       (simp_all add: wrapVersionedData_def unwrapVersionedData_def r cast)
qed

lemma sync_roundtrip_v1:
  assumes v: "sync_valid op" "so_version op = Ver1"
  shows "\<exists>b. sync_MarshalBinary op = Ok b \<and> sync_UnmarshalBinary b = Ok (sync_norm op)"
proof -
  note d = sync_validD[OF v(1)]
  obtain w a l where x: "length w = 20" "0 \<le> a" "length (bigBytes a) < 2 ^ 16" "0 \<le> l" "length (bigBytes l) < 2 ^ 16"
    and u: "so_opType op = UpdateBalance \<longrightarrow> so_withdrawal op = Some w \<and> so_amount op = Some a \<and> so_balance op = Some l"
    and n: "so_opType op \<noteq> UpdateBalance \<longrightarrow> w = zero_array 20 \<and> a = 0 \<and> l = 0"
  proof (cases "so_opType op = UpdateBalance")
    case True
    then show thesis using d(5) d(6)[OF True v(2)] that by blast
  next
    case False
    have "length (bigBytes 0) < 2 ^ 16" by (simp add: bigBytes_def min_be_def)
    then show thesis using False that[of "zero_array 20" 0 0] by simp
  qed
  let ?v = "VList [VUint (so_opType op), VBytes (so_initTxHash op), VUint (so_procEpoch op), VUint (so_index op),
     VBytes (so_creator op), VBytes w, VBig (Some a), VBig (Some l)]"
  note s = sync_fields_small[OF d(3,4) x, of "so_opType op" "so_procEpoch op" "so_index op"]
  have "length (enc (to_item syncT ?v)) < 2 ^ 63" using s(2) by simp
  note r = rlp_roundtrip[OF wf_types(3) s(1) this]
  obtain b where b: "wrapVersionedData Ver1 (enc (to_item syncT ?v)) = Ok b"
      "unwrapVersionedData b = Ok (Ver1, enc (to_item syncT ?v))"
    using wrap_roundtrip[OF s(2)] by blast
  have "sync_MarshalBinary op = rbind (EncodeToBytes syncT ?v) (wrapVersionedData Ver1)"
    using u n v(2) by (cases "so_opType op = UpdateBalance") (simp_all add: sync_MarshalBinary_def Let_def)
  then have m: "sync_MarshalBinary op = Ok b" by (simp add: r(1) b(1))
  have "sync_UnmarshalBinary b = sync_init Ver1 (so_opType op) (so_initTxHash op) (so_procEpoch op)
      (so_index op) (so_creator op) (Some a) (Some w) (Some l)"
    by (simp add: sync_UnmarshalBinary_def b(2) r(2))
  also have "\<dots> = Ok (sync_norm op)"
    using u n d(1,2,7) v(2)
    by (cases "so_opType op = UpdateBalance") (simp_all add: sync_init_Ok sync_norm_def)
  finally have "sync_UnmarshalBinary b = Ok (sync_norm op)" .
  with m show ?thesis by blast
qed

lemma sync_roundtrip:
  "sync_valid op \<Longrightarrow> \<exists>b. sync_MarshalBinary op = Ok b \<and> sync_UnmarshalBinary b = Ok (sync_norm op)"
  using sync_roundtrip_legacy sync_roundtrip_v1 by (auto simp: sync_valid_def)

section \<open>Operations\<close>

definition op_valid :: "bitfield_api \<Rightarrow> operation \<Rightarrow> bool" where
  "op_valid bf op = (case op of OpDeposit x \<Rightarrow> deposit_valid bf x | OpSync x \<Rightarrow> sync_valid x
     | OpExit x \<Rightarrow> exit_valid x | OpWithdrawal x \<Rightarrow> withdrawal_valid x)"

definition op_norm :: "operation \<Rightarrow> operation" where
  "op_norm op = (case op of OpSync x \<Rightarrow> OpSync (sync_norm x) | _ \<Rightarrow> op)"

lemma go_from_2 [simp]: "go_from (x # y # b) 2 = Ok b"
  using go_from_append[of "[x, y]" 2 b] by simp

lemma GetOpCode_prefix [simp]: "GetOpCode (0xF4 # c # b) = Ok c"
  by (simp add: GetOpCode_def)

lemma op_decode_prefix:
  "op_DecodeBytes bf (0xF4 # c # b) =
     (if c = 0x01 then rbind (deposit_UnmarshalBinary bf b) (\<lambda>x. Ok (OpDeposit x))
      else if c = 0x02 \<or> c = 0x04 \<or> c = 0x05 then rbind (sync_UnmarshalBinary b) (\<lambda>x. Ok (OpSync x))
      else if c = 0x03 then rbind (exit_UnmarshalBinary b) (\<lambda>x. Ok (OpExit x))
      else if c = 0x06 then rbind (withdrawal_UnmarshalBinary b) (\<lambda>x. Ok (OpWithdrawal x))
      else Err (OpErr ErrOpNotValid))"
  by (simp add: op_DecodeBytes_def)

lemma op_roundtrip:
  assumes "op_valid bf op"
  shows "\<exists>b. op_EncodeToBytes op = Ok b \<and> op_DecodeBytes bf b = Ok (op_norm op) \<and>
    GetOpCode b = Ok (op_OpCode op)"
proof (cases op)
  case (OpDeposit x)
  then have "deposit_valid bf x" using assms by (simp add: op_valid_def)
  then obtain b where "deposit_MarshalBinary x = Ok b" "deposit_UnmarshalBinary bf b = Ok x"
    using deposit_roundtrip by blast
  with OpDeposit show ?thesis
    by (intro exI[of _ "0xF4 # 0x01 # b"])
       (simp add: op_EncodeToBytes_def op_norm_def op_OpCode_def op_decode_prefix)
next
  case (OpSync x)
  then have v: "sync_valid x" using assms by (simp add: op_valid_def)
  then have "sync_OpCode x \<in> {0x02, 0x04, 0x05}" by (auto simp: sync_valid_def sync_OpCode_def)
  moreover have "sync_OpCode (sync_norm x) = sync_OpCode x" by (simp add: sync_OpCode_def sync_norm_def)
  moreover obtain b where "sync_MarshalBinary x = Ok b" "sync_UnmarshalBinary b = Ok (sync_norm x)"
    using sync_roundtrip[OF v] by blast
  ultimately show ?thesis using OpSync
    by (intro exI[of _ "0xF4 # sync_OpCode x # b"])
       (auto simp: op_EncodeToBytes_def op_norm_def op_OpCode_def op_decode_prefix)
next
  case (OpExit x)
  then have "exit_valid x" using assms by (simp add: op_valid_def)
  with exit_roundtrip[OF this] OpExit show ?thesis
    by (simp add: op_EncodeToBytes_def op_norm_def op_OpCode_def op_decode_prefix)
next
  case (OpWithdrawal x)
  then have "withdrawal_valid x" using assms by (simp add: op_valid_def)
  then obtain b where "withdrawal_MarshalBinary x = Ok b" "withdrawal_UnmarshalBinary b = Ok x"
    using withdrawal_roundtrip by blast
  with OpWithdrawal show ?thesis
    by (intro exI[of _ "0xF4 # 0x06 # b"])
       (simp add: op_EncodeToBytes_def op_norm_def op_OpCode_def op_decode_prefix)
qed

section \<open>Input that panics\<close>

lemma withdrawal_short: "length d < 20 \<Longrightarrow> withdrawal_UnmarshalBinary d = Panic"
  by (simp add: withdrawal_UnmarshalBinary_def go_slice_def)

lemma exit_partial_epoch: "68 < length d \<Longrightarrow> length d < 76 \<Longrightarrow> exit_UnmarshalBinary d = Panic"
proof -
  assume a: "68 < length d" "length d < 76"
  then have "length d - 68 < 8" by linarith
  with a show ?thesis
    by (simp add: exit_UnmarshalBinary_def minExitRequestLen_def go_slice_def go_from_def beUint64_def)
qed

lemma sync_legacy_short:
  assumes "68 \<le> length d" "length d < 76" "hd d < 0xC0"
  shows "sync_UnmarshalBinary d = Panic"
proof -
  have "d \<noteq> []" using assms(1) by auto
  then obtain e where "DecodeBytes wrapperT d = Err e"
    using DecodeBytes_struct_head[of "[TUint 16, TBytes]" d] assms wf_types(4) by (auto simp: wrapperT_def)
  then have "sync_UnmarshalBinary d = sync_unmarshalLegacy d"
    by (simp add: sync_UnmarshalBinary_def unwrapVersionedData_def)
  also have "\<dots> = Panic"
    using assms(1,2) by (simp add: sync_unmarshalLegacy_def valSyncOpDataMinLen_def go_slice_def beUint64_def)
  finally show ?thesis .
qed

text \<open>Rules with fewer shares than addresses pass the RLP decoder and make \<^verbatim>\<open>Copy\<close> index out of
  range.\<close>

lemma deposit_short_shares:
  assumes "dsd_small d" "length (r_profitShare (d_Rules d)) < length (r_addrs (d_Rules d))"
    "length pk = 48" "length ca = 20" "length wa = 20" "length sg = 96"
    "pk \<noteq> zero_array 48" "ca \<noteq> zero_array 20" "sg \<noteq> zero_array 96"
  shows "\<exists>b. deposit_MarshalBinary \<lparr>dep_pubkey = pk, dep_creator = ca, dep_withdrawal = wa,
      dep_signature = sg, dep_delegate = Some d\<rparr> = Ok b \<and> deposit_UnmarshalBinary bf b = Panic"
proof -
  obtain e where e: "dsd_MarshalBinary (Some d) = Ok e" "length e < 2 ^ 26" "20 \<le> length e"
    "dsd_UnmarshalBinary e = Ok d" using dsd_roundtrip[OF assms(1)] by blast
  note x = deposit_extended_dsd[OF e(4,2,3)]
  have "dsd_Copy bf d = Panic" using assms(2)
    by (simp add: dsd_Copy_def rules_Copy_def copy_shares_def Let_def)
  then show ?thesis
    using assms(3-9) e(1) x
    by (simp add: deposit_MarshalBinary_def deposit_UnmarshalBinary_def deposit_init_def
        deposit_minBinaryLen_def go_slice_def go_from_def Let_def)
qed

section \<open>Properties\<close>

text \<open>A concrete instance of the bit list parameter for the witnesses: one byte per flag.\<close>

definition sample_bitfield :: bitfield_api where
  "sample_bitfield = \<lparr>NewBitlist = (\<lambda>n. replicate n 0), SetBitAt = (\<lambda>l i b. l[i := if b then 1 else 0]),
     BitIndices = (\<lambda>l. filter (\<lambda>i. l ! i \<noteq> 0) [0..<length l])\<rparr>"

text \<open>C17. Validator operations survive encoding: an operation that its constructor accepts is
  encoded, its op code is readable from the encoding, and decoding gives the operation back
  (up to the amount of a sync operation that updates no balance and the balance of the
  unversioned layout, which the formats do not carry).\<close>

theorem operation_codec:
  assumes "op_valid bf op"
  shows "\<exists>b. op_EncodeToBytes op = Ok b \<and> op_DecodeBytes bf b = Ok (op_norm op) \<and>
    GetOpCode b = Ok (op_OpCode op)"
  using assms by (rule op_roundtrip)

theorem operation_codec_witness:
  "\<exists>b. op_EncodeToBytes (OpExit \<lparr>ex_pubKey = replicate 48 1, ex_creator = replicate 20 2, ex_exitAfterEpoch = Some 7\<rparr>) = Ok b \<and>
    op_DecodeBytes sample_bitfield b =
      Ok (OpExit \<lparr>ex_pubKey = replicate 48 1, ex_creator = replicate 20 2, ex_exitAfterEpoch = Some 7\<rparr>) \<and>
    GetOpCode b = Ok 0x03"
proof -
  let ?op = "OpExit \<lparr>ex_pubKey = replicate 48 1, ex_creator = replicate 20 2, ex_exitAfterEpoch = Some 7\<rparr>"
  have "replicate 48 (1 :: byte) \<noteq> zero_array 48" "replicate 20 (2 :: byte) \<noteq> zero_array 20"
    by (simp_all add: replicate_eq_replicate)
  then have "op_valid sample_bitfield ?op" by (simp add: op_valid_def exit_valid_def exit_init_def)
  from operation_codec[OF this] show ?thesis by (simp add: op_norm_def op_OpCode_def)
qed

text \<open>C18. Decoding can crash: a withdrawal shorter than an address, an exit with a partial
  epoch, an unversioned sync operation of 68 to 75 bytes (the declared minimum is 68, the
  layout needs 76) and a deposit whose delegation rules have fewer profit shares than
  addresses all index out of range instead of returning an error.\<close>

theorem operation_decode_panics:
  "(length d < 20 \<longrightarrow> op_DecodeBytes bf (0xF4 # 0x06 # d) = Panic) \<and>
   (68 < length d \<and> length d < 76 \<longrightarrow> op_DecodeBytes bf (0xF4 # 0x03 # d) = Panic) \<and>
   (valSyncOpDataMinLen \<le> length d \<and> length d < 76 \<and> hd d < 0xC0 \<longrightarrow>
      op_DecodeBytes bf (0xF4 # 0x05 # d) = Panic) \<and>
   (dsd_small g \<and> length (r_profitShare (d_Rules g)) < length (r_addrs (d_Rules g)) \<longrightarrow>
      (\<exists>b. op_EncodeToBytes (OpDeposit \<lparr>dep_pubkey = replicate 48 1, dep_creator = replicate 20 1,
          dep_withdrawal = zero_array 20, dep_signature = replicate 96 1, dep_delegate = Some g\<rparr>) = Ok b \<and>
        op_DecodeBytes bf b = Panic))"
proof (intro conjI impI)
  assume g: "dsd_small g \<and> length (r_profitShare (d_Rules g)) < length (r_addrs (d_Rules g))"
  let ?x = "\<lparr>dep_pubkey = replicate 48 1, dep_creator = replicate 20 1,
      dep_withdrawal = zero_array 20, dep_signature = replicate 96 1, dep_delegate = Some g\<rparr>"
  obtain b where b: "deposit_MarshalBinary ?x = Ok b" "deposit_UnmarshalBinary bf b = Panic"
    using deposit_short_shares[of g "replicate 48 1" "replicate 20 1" "zero_array 20" "replicate 96 1" bf] g
    by (auto simp: replicate_eq_replicate)
  then show "\<exists>b. op_EncodeToBytes (OpDeposit ?x) = Ok b \<and> op_DecodeBytes bf b = Panic"
    by (intro exI[of _ "0xF4 # 0x01 # b"]) (simp add: op_EncodeToBytes_def op_decode_prefix)
qed (simp_all add: op_decode_prefix withdrawal_short exit_partial_epoch sync_legacy_short valSyncOpDataMinLen_def)

theorem operation_decode_panics_witness:
  "op_DecodeBytes sample_bitfield [0xF4, 0x06, 0x01] = Panic \<and>
   op_DecodeBytes sample_bitfield (0xF4 # 0x05 # replicate 70 0) = Panic"
  using operation_decode_panics[of "[0x01]" sample_bitfield "\<lparr>d_Rules = empty_rules, d_TrialPeriod = 0, d_TrialRules = empty_rules\<rparr>"]
    operation_decode_panics[of "replicate 70 0" sample_bitfield "\<lparr>d_Rules = empty_rules, d_TrialPeriod = 0, d_TrialRules = empty_rules\<rparr>"]
  by (simp add: valSyncOpDataMinLen_def hd_replicate)

end
