(* ===== verification/Validator.thy ===== *)
theory Validator
  imports Operation_Correct
begin

text \<open>
  The validator record kept in an account's code (\<^verbatim>\<open>src/validator/storage/validator.go\<close>):
  its accessors with their version checks, the stake list, and the binary layout (address,
  length-prefixed RLP base data, optional length-prefixed delegation data, optional version
  and version-1 data). A stake holds its amount by pointer and is changed in place; the last
  section keeps the amounts in a store and says when the record may hold them as values.
\<close>

section \<open>The record and its accessors\<close>

type_synonym StakeByAddress = "address \<times> int"

record Validator =
  v_Address :: address
  v_PubKey :: pubkey
  v_WithdrawalAddress :: "address option"
  v_Index :: u64
  v_ActivationEra :: u64
  v_ExitEra :: u64
  v_Stake :: "StakeByAddress list"
  v_DelegatingStake :: "DelegatingStakeData option"
  v_Ver :: "u16 option"
  v_DepositTxs :: "hash list"
  v_WithdrawalTx :: "hash option"
  v_ExitTx :: "hash option"

abbreviation MaxUint64 :: u64 where "MaxUint64 \<equiv> - 1"

definition NewValidator :: "pubkey \<Rightarrow> address \<Rightarrow> address option \<Rightarrow> Validator" where
  "NewValidator pk addr withdrawal =
     \<lparr>v_Address = addr, v_PubKey = pk, v_WithdrawalAddress = withdrawal, v_Index = MaxUint64,
      v_ActivationEra = MaxUint64, v_ExitEra = MaxUint64, v_Stake = [], v_DelegatingStake = None,
      v_Ver = None, v_DepositTxs = [], v_WithdrawalTx = None, v_ExitTx = None\<rparr>"

text \<open>\<^verbatim>\<open>Copy\<close> does not carry the delegation and version data.\<close>

definition Validator_Copy :: "Validator \<Rightarrow> Validator" where
  "Validator_Copy v =
     \<lparr>v_Address = v_Address v, v_PubKey = v_PubKey v, v_WithdrawalAddress = v_WithdrawalAddress v,
      v_Index = v_Index v, v_ActivationEra = v_ActivationEra v, v_ExitEra = v_ExitEra v,
      v_Stake = v_Stake v, v_DelegatingStake = None, v_Ver = None, v_DepositTxs = [],
      v_WithdrawalTx = None, v_ExitTx = None\<rparr>"

fun AddStake_list :: "address \<Rightarrow> int \<Rightarrow> StakeByAddress list \<Rightarrow> StakeByAddress list" where
  "AddStake_list a amt [] = [(a, amt)]"
| "AddStake_list a amt ((b, x) # st) =
     (if b = a then (b, x + amt) # st else (b, x) # AddStake_list a amt st)"

definition AddStake :: "address \<Rightarrow> int \<Rightarrow> Validator \<Rightarrow> Validator" where
  "AddStake a amt v = v\<lparr>v_Stake := AddStake_list a amt (v_Stake v)\<rparr>"

fun SubtractStake_list :: "address \<Rightarrow> int \<Rightarrow> StakeByAddress list \<Rightarrow> StakeByAddress list res" where
  "SubtractStake_list a amt [] = Err (StoreErr NoStakeForAddress)"
| "SubtractStake_list a amt ((b, x) # st) =
     (if b = a then
        (if x < amt then Err (StoreErr SubtractMoreThanStake) else Ok ((b, x - amt) # st))
      else rbind (SubtractStake_list a amt st) (\<lambda>st'. Ok ((b, x) # st')))"

definition SubtractStake :: "address \<Rightarrow> int \<Rightarrow> Validator \<Rightarrow> Validator res" where
  "SubtractStake a amt v =
     rbind (SubtractStake_list a amt (v_Stake v)) (\<lambda>st. Ok (v\<lparr>v_Stake := st\<rparr>))"

definition TotalStake :: "Validator \<Rightarrow> int" where
  "TotalStake v = fold (\<lambda>(a, x) total. total + x) (v_Stake v) 0"

fun StakeByAddress_list :: "address \<Rightarrow> StakeByAddress list \<Rightarrow> int" where
  "StakeByAddress_list a [] = 0"
| "StakeByAddress_list a ((b, x) # st) = (if b = a then x else StakeByAddress_list a st)"

definition StakeByAddress :: "address \<Rightarrow> Validator \<Rightarrow> int" where
  "StakeByAddress a v = StakeByAddress_list a (v_Stake v)"

definition RmStakeByAddress :: "address \<Rightarrow> Validator \<Rightarrow> Validator" where
  "RmStakeByAddress a v = v\<lparr>v_Stake := filter (\<lambda>(b, x). b \<noteq> a) (v_Stake v)\<rparr>"

definition UnsetStake :: "Validator \<Rightarrow> Validator" where
  "UnsetStake v = v\<lparr>v_Stake := []\<rparr>"

definition HasDelegatingStake :: "bitfield_api \<Rightarrow> Validator \<Rightarrow> bool res" where
  "HasDelegatingStake bf v = rbind (dsd_IsEmpty bf (v_DelegatingStake v)) (\<lambda>e. Ok (\<not> e))"

definition Version :: "Validator \<Rightarrow> u16" where
  "Version v = (case v_Ver v of None \<Rightarrow> 0 | Some ver \<Rightarrow> ver)"

text \<open>The reset to nil is overwritten: the function goes on after it.\<close>

definition SetVersion :: "u16 \<Rightarrow> Validator \<Rightarrow> Validator" where
  "SetVersion ver v = v\<lparr>v_Ver := Some ver\<rparr>"

definition get_tx :: "Validator \<Rightarrow> hash option \<Rightarrow> hash option" where
  "get_tx v tx = (if Version v = NoVer \<or> tx = Some (zero_array 32) then None else tx)"

definition GetWithdrawalTx :: "Validator \<Rightarrow> hash option" where
  "GetWithdrawalTx v = get_tx v (v_WithdrawalTx v)"

definition SetWithdrawalTx :: "hash option \<Rightarrow> Validator \<Rightarrow> Validator" where
  "SetWithdrawalTx tx v = v\<lparr>v_WithdrawalTx := get_tx v tx\<rparr>"

definition GetExitTx :: "Validator \<Rightarrow> hash option" where
  "GetExitTx v = get_tx v (v_ExitTx v)"

definition SetExitTx :: "hash option \<Rightarrow> Validator \<Rightarrow> Validator" where
  "SetExitTx tx v = v\<lparr>v_ExitTx := get_tx v tx\<rparr>"

definition GetDepositTxs :: "Validator \<Rightarrow> hash list" where
  "GetDepositTxs v = (if Version v = NoVer then [] else v_DepositTxs v)"

definition setDepositTxs :: "hash list \<Rightarrow> Validator \<Rightarrow> Validator" where
  "setDepositTxs txs v =
     v\<lparr>v_DepositTxs := (if Version v = NoVer then [] else ha_Deduplicate txs)\<rparr>"

definition AddDepositTxs :: "hash \<Rightarrow> Validator \<Rightarrow> Validator" where
  "AddDepositTxs h v =
     v\<lparr>v_DepositTxs := (if Version v = NoVer then [] else ha_Deduplicate (GetDepositTxs v @ [h]))\<rparr>"

definition ResetDepositTxs :: "Validator \<Rightarrow> Validator" where
  "ResetDepositTxs v = v\<lparr>v_DepositTxs := []\<rparr>"

section \<open>Binary layout\<close>

definition stakeT :: rtype where
  "stakeT = TPtr (TStruct [TByteArray 20, TBigInt])"

definition baseT :: rtype where
  "baseT = TStruct [TByteArray 48, TPtr (TByteArray 20), TUint 64, TUint 64, TUint 64, TSlice stakeT]"

definition ver1T :: rtype where
  "ver1T = TStruct [TSlice (TByteArray 32), TPtr (TByteArray 32), TPtr (TByteArray 32)]"

definition stake_val :: "StakeByAddress \<Rightarrow> rval" where
  "stake_val s = VPtr (Some (VList [VBytes (fst s), VBig (Some (snd s))]))"

definition stake_of_val :: "rval \<Rightarrow> StakeByAddress" where
  "stake_of_val v = (case v of VPtr (Some x) \<Rightarrow> (vbytes (vlist x ! 0), the (vbig (vlist x ! 1))) | _ \<Rightarrow> ([], 0))"

definition vptr_bytes :: "rval \<Rightarrow> bytes" where
  "vptr_bytes v = (case v of VPtr (Some x) \<Rightarrow> vbytes x | _ \<Rightarrow> [])"

definition hasExtendedData :: "Validator \<Rightarrow> bool" where
  "hasExtendedData v \<longleftrightarrow> v_DelegatingStake v \<noteq> None \<or> Version v \<noteq> NoVer"

definition base_val :: "Validator \<Rightarrow> rval" where
  "base_val v = VList [VBytes (v_PubKey v),
     VPtr (Some (VBytes (case v_WithdrawalAddress v of None \<Rightarrow> zero_array 20 | Some w \<Rightarrow> w))),
     VUint (v_Index v), VUint (v_ActivationEra v), VUint (v_ExitEra v),
     VList (map stake_val (v_Stake v))]"

definition ver1_val :: "Validator \<Rightarrow> rval" where
  "ver1_val v = VList [VList (map VBytes (GetDepositTxs v)),
     VPtr (Some (VBytes (case GetWithdrawalTx v of None \<Rightarrow> zero_array 32 | Some h \<Rightarrow> h))),
     VPtr (Some (VBytes (case GetExitTx v of None \<Rightarrow> zero_array 32 | Some h \<Rightarrow> h)))]"

definition versionData :: "Validator \<Rightarrow> bytes res" where
  "versionData v =
     (if Version v > NoVer then
        (if Version v = Ver1
         then rbind (EncodeToBytes ver1T (ver1_val v)) (\<lambda>d. Ok (to_be 2 (unat (Version v)) @ d))
         else Err (StoreErr InvalidValidatorVersion))
      else Ok [])"

definition val_MarshalBinary :: "Validator \<Rightarrow> bytes res" where
  "val_MarshalBinary v =
     rbind (EncodeToBytes baseT (base_val v)) (\<lambda>baseData.
     rbind (if hasExtendedData v
            then rbind (dsd_MarshalBinary (v_DelegatingStake v)) (\<lambda>delegateBin.
                 rbind (versionData v) (\<lambda>ver.
                 Ok (bePut32 (length delegateBin) @ delegateBin @ ver)))
            else Ok []) (\<lambda>ext.
     Ok (v_Address v @ bePut32 (length baseData) @ baseData @ ext)))"

definition unmarshal_version :: "bytes \<Rightarrow> Validator \<Rightarrow> Validator res" where
  "unmarshal_version d v =
     (if d = [] then Ok v
      else rbind (go_slice d 0 2) (\<lambda>ver. (let v1 = SetVersion (word_of_nat (of_be ver)) v in
        if Version v1 = Ver1 then
          rbind (go_from d 2) (\<lambda>r. rbind (DecodeBytes ver1T r) (\<lambda>x.
          Ok (SetExitTx (Some (vptr_bytes (vlist x ! 2)))
               (SetWithdrawalTx (Some (vptr_bytes (vlist x ! 1)))
                 (setDepositTxs (map vbytes (vlist (vlist x ! 0))) v1)))))
        else Err (StoreErr InvalidValidatorVersion))))"

definition unmarshal_extended :: "bytes \<Rightarrow> Validator \<Rightarrow> Validator res" where
  "unmarshal_extended ext v =
     (if ext = [] then Ok v
      else rbind (go_slice ext 0 4) (\<lambda>l. rbind (beUint32 l) (\<lambda>n.
        rbind (go_from ext 4) (\<lambda>tail.
        if n > length tail then Err (StoreErr ErrBadBinaryData)
        else rbind (go_slice ext 4 (4 + n)) (\<lambda>db. rbind (NewDelegatingStakeDataFromBinary db) (\<lambda>ds.
          rbind (go_from ext (4 + n)) (\<lambda>vd.
          unmarshal_version vd (v\<lparr>v_DelegatingStake := ds\<rparr>))))))))"

definition val_UnmarshalBinary :: "bytes \<Rightarrow> Validator res" where
  "val_UnmarshalBinary data =
     rbind (go_slice data 0 20) (\<lambda>addr.
     rbind (go_slice data 20 24) (\<lambda>l. rbind (beUint32 l) (\<lambda>n.
     rbind (go_from data 24) (\<lambda>tail.
     if n > length tail then Err (StoreErr ErrBadBinaryData)
     else rbind (go_slice data 24 (24 + n)) (\<lambda>bd. rbind (DecodeBytes baseT bd) (\<lambda>x. (let f = vlist x in
       rbind (go_from data (24 + n)) (\<lambda>ext.
       unmarshal_extended ext
         \<lparr>v_Address = addr, v_PubKey = vbytes (f ! 0),
          v_WithdrawalAddress =
            (if vptr_bytes (f ! 1) = zero_array 20 then None else Some (vptr_bytes (f ! 1))),
          v_Index = vuint (f ! 2), v_ActivationEra = vuint (f ! 3), v_ExitEra = vuint (f ! 4),
          v_Stake = map stake_of_val (vlist (f ! 5)), v_DelegatingStake = None, v_Ver = None,
          v_DepositTxs = [], v_WithdrawalTx = None, v_ExitTx = None\<rparr>))))))))"

section \<open>Stakes\<close>

lemma TotalStake_sum: "TotalStake v = sum_list (map snd (v_Stake v))"
proof -
  have "fold (\<lambda>(a, x) total. total + x) st t = t + sum_list (map snd st)" for st :: "StakeByAddress list" and t
    by (induction st arbitrary: t) auto
  then show ?thesis by (simp add: TotalStake_def)
qed

lemma AddStake_list_sum: "sum_list (map snd (AddStake_list a x st)) = sum_list (map snd st) + x"
  by (induction a x st rule: AddStake_list.induct) auto

lemma AddStake_list_by: "StakeByAddress_list b (AddStake_list a x st) =
   StakeByAddress_list b st + (if a = b then x else 0)"
  by (induction a x st rule: AddStake_list.induct) auto

lemma SubtractStake_list_Ok:
  "SubtractStake_list a x st = Ok st' \<Longrightarrow>
   sum_list (map snd st') = sum_list (map snd st) - x \<and>
   StakeByAddress_list b st' = StakeByAddress_list b st - (if a = b then x else 0) \<and>
   x \<le> StakeByAddress_list a st"
proof (induction st arbitrary: st')
  case (Cons s st)
  obtain c y where s: "s = (c, y)" by fastforce
  show ?case
  proof (cases "c = a")
    case True
    with Cons.prems s have "\<not> y < x" "st' = (c, y - x) # st" by (auto split: if_splits)
    with True s show ?thesis by simp
  next
    case False
    with Cons.prems s obtain st1 where "SubtractStake_list a x st = Ok st1" "st' = (c, y) # st1"
      by (auto simp: rbind_eq_Ok)
    with Cons.IH[OF this(1)] False s show ?thesis by auto
  qed
qed simp

lemma RmStake_by: "StakeByAddress b (RmStakeByAddress a v) = (if a = b then 0 else StakeByAddress b v)"
proof -
  have "StakeByAddress_list b (filter (\<lambda>(b, x). b \<noteq> a) st) = (if a = b then 0 else StakeByAddress_list b st)" for st
    by (induction st) auto
  then show ?thesis by (simp add: StakeByAddress_def RmStakeByAddress_def)
qed

section \<open>Round trip\<close>

definition stake_small :: "StakeByAddress list \<Rightarrow> bool" where
  "stake_small st \<longleftrightarrow> length st < 2 ^ 12 \<and>
     list_all (\<lambda>(a, x). length a = 20 \<and> 0 \<le> x \<and> length (bigBytes x) < 2 ^ 8) st"

definition tx_ok :: "hash option \<Rightarrow> bool" where
  "tx_ok tx \<longleftrightarrow> (case tx of None \<Rightarrow> True | Some h \<Rightarrow> length h = 32 \<and> h \<noteq> zero_array 32)"

definition val_wf :: "Validator \<Rightarrow> bool" where
  "val_wf v \<longleftrightarrow> length (v_Address v) = 20 \<and> length (v_PubKey v) = 48 \<and>
     (\<forall>w. v_WithdrawalAddress v = Some w \<longrightarrow> length w = 20 \<and> w \<noteq> zero_array 20) \<and>
     stake_small (v_Stake v) \<and> (\<forall>d. v_DelegatingStake v = Some d \<longrightarrow> dsd_small d) \<and>
     (v_Ver v = None \<and> v_DepositTxs v = [] \<and> v_WithdrawalTx v = None \<and> v_ExitTx v = None \<or>
      v_Ver v = Some Ver1 \<and> length (v_DepositTxs v) < 2 ^ 16 \<and> distinct (v_DepositTxs v) \<and>
        list_all (\<lambda>h. length h = 32) (v_DepositTxs v) \<and> tx_ok (v_WithdrawalTx v) \<and> tx_ok (v_ExitTx v))"

lemma wf_val_types [simp]: "wf_rtype baseT" "wf_rtype ver1T"
  by (simp_all add: baseT_def stakeT_def ver1T_def uint_width_def)

lemma stake_val_inverse [simp]: "stake_of_val (stake_val s) = s"
  by (simp add: stake_of_val_def stake_val_def)

lemma stake_enc_le:
  assumes "length a = 20" "length (bigBytes x) < 2 ^ 8" "0 \<le> x"
  shows "length (enc (to_item stakeT (stake_val (a, x)))) \<le> 302"
proof -
  have e: "to_item stakeT (stake_val (a, x)) = Lst [Str a, Str (min_be (nat x))]"
    by (simp add: stakeT_def stake_val_def)
  show ?thesis
    using length_enc_Lst[of "[Str a, Str (min_be (nat x))]"] length_enc_Str[of a]
      length_enc_Str[of "min_be (nat x)"] assms
    unfolding e by (simp add: bigBytes_def)
qed

lemma u64_enc_le: "length (enc (Str (min_be (unat (x :: u64))))) \<le> 17"
  using length_enc_Str[of "min_be (unat x)"] length_min_be_le[of "unat x" 8] unat_u64_less[of x] by simp

lemma base_roundtrip:
  assumes "val_wf v"
  obtains d where "EncodeToBytes baseT (base_val v) = Ok d" "DecodeBytes baseT d = Ok (base_val v)"
    "length d < 2 ^ 24"
proof -
  let ?w = "case v_WithdrawalAddress v of None \<Rightarrow> zero_array 20 | Some w \<Rightarrow> w"
  have w: "length ?w = 20" using assms by (auto simp: val_wf_def split: option.splits)
  have st: "stake_small (v_Stake v)" and pk: "length (v_PubKey v) = 48" using assms by (simp_all add: val_wf_def)
  have stl: "list_all (full stakeT) (map stake_val (v_Stake v))"
    using st by (auto simp: stake_small_def list_all_iff stakeT_def stake_val_def)
  have f: "full baseT (base_val v)"
    using w pk stl unat_u64_less by (simp add: baseT_def base_val_def)
  let ?n = "\<lambda>u :: u64. Str (min_be (unat u))"
  let ?sts = "map (to_item stakeT) (map stake_val (v_Stake v))"
  let ?items = "[Str (v_PubKey v), Str ?w, ?n (v_Index v), ?n (v_ActivationEra v), ?n (v_ExitEra v), Lst ?sts]"
  have e: "to_item baseT (base_val v) = Lst ?items" by (simp add: baseT_def base_val_def)
  have "length (enc x) \<le> 302" if x: "x \<in> set ?sts" for x
  proof -
    obtain a y where "x = to_item stakeT (stake_val (a, y))" "(a, y) \<in> set (v_Stake v)" using x by auto
    then show ?thesis using st stake_enc_le[of a y] by (auto simp: stake_small_def list_all_iff)
  qed
  then have "length (concat (map enc ?sts)) \<le> 302 * length ?sts" by (rule length_items_le)
  then have "length (enc (Lst ?sts)) < 9 + 302 * 2 ^ 12"
    using length_enc_Lst[of ?sts] st by (simp add: stake_small_def)
  then have l: "length (enc (Lst ?items)) < 2 ^ 24"
    using length_enc_Lst[of ?items] length_enc_Str[of "v_PubKey v"] length_enc_Str[of ?w]
      u64_enc_le[of "v_Index v"] u64_enc_le[of "v_ActivationEra v"] u64_enc_le[of "v_ExitEra v"] pk w
    by simp
  then have "length (enc (to_item baseT (base_val v))) < 2 ^ 63" by (simp add: e)
  note r = rlp_roundtrip[OF wf_val_types(1) f this]
  show ?thesis by (rule that[OF r]) (use l in \<open>simp add: e\<close>)
qed

lemma version_roundtrip:
  assumes "val_wf v"
  obtains d where "versionData v = Ok d"
    "unmarshal_version d (v\<lparr>v_Ver := None, v_DepositTxs := [], v_WithdrawalTx := None, v_ExitTx := None\<rparr>) = Ok v"
    "length d < 2 ^ 24"
proof (cases "v_Ver v")
  case None
  then have n: "v_DepositTxs v = []" "v_WithdrawalTx v = None" "v_ExitTx v = None" using assms by (auto simp: val_wf_def)
  have "Version v = NoVer" using None by (simp add: Version_def)
  then have "versionData v = Ok []" by (simp add: versionData_def)
  moreover have "unmarshal_version [] (v\<lparr>v_Ver := None, v_DepositTxs := [], v_WithdrawalTx := None, v_ExitTx := None\<rparr>) = Ok v"
    using None n by (simp add: unmarshal_version_def)
  ultimately show ?thesis by (rule that) simp
next
  case (Some ver)
  then have ver: "v_Ver v = Some Ver1" and dp: "length (v_DepositTxs v) < 2 ^ 16" "distinct (v_DepositTxs v)"
      "list_all (\<lambda>h. length h = 32) (v_DepositTxs v)" and tx: "tx_ok (v_WithdrawalTx v)" "tx_ok (v_ExitTx v)"
    using assms by (auto simp: val_wf_def)
  have V: "Version v = Ver1" using ver by (simp add: Version_def)
  have g: "GetWithdrawalTx v = v_WithdrawalTx v" "GetExitTx v = v_ExitTx v" "GetDepositTxs v = v_DepositTxs v"
    using tx V by (auto simp: GetWithdrawalTx_def GetExitTx_def GetDepositTxs_def get_tx_def tx_ok_def split: option.splits)
  let ?w = "case v_WithdrawalTx v of None \<Rightarrow> zero_array 32 | Some h \<Rightarrow> h"
  let ?x = "case v_ExitTx v of None \<Rightarrow> zero_array 32 | Some h \<Rightarrow> h"
  have wx: "length ?w = 32" "length ?x = 32" using tx by (auto simp: tx_ok_def split: option.splits)
  have f: "full ver1T (ver1_val v)"
    using dp(3) wx by (simp add: ver1T_def ver1_val_def g list_all_iff)
  let ?items = "[Lst (map Str (v_DepositTxs v)), Str ?w, Str ?x]"
  have e: "to_item ver1T (ver1_val v) = Lst ?items" by (simp add: ver1T_def ver1_val_def g comp_def)
  have "length (enc y) \<le> 41" if y: "y \<in> set (map Str (v_DepositTxs v))" for y
  proof -
    obtain h where "y = Str h" "length h = 32" using y dp(3) by (auto simp: list_all_iff)
    then show ?thesis using length_enc_Str[of h] by simp
  qed
  then have "length (concat (map enc (map Str (v_DepositTxs v)))) \<le> 41 * length (map Str (v_DepositTxs v))"
    by (rule length_items_le)
  then have "length (enc (Lst (map Str (v_DepositTxs v)))) \<le> 9 + 41 * length (v_DepositTxs v)"
    using length_enc_Lst[of "map Str (v_DepositTxs v)"] by simp
  then have l: "length (enc (Lst ?items)) < 2 ^ 23"
    using length_enc_Lst[of ?items] length_enc_Str[of ?w] length_enc_Str[of ?x] wx dp(1) by simp
  then have "length (enc (to_item ver1T (ver1_val v))) < 2 ^ 63" by (simp add: e)
  note r = rlp_roundtrip[OF wf_val_types(2) f this]
  let ?d = "to_be 2 (unat (1 :: u16)) @ enc (to_item ver1T (ver1_val v))"
  have two: "to_be 2 (unat (1 :: u16)) = [0, 1]" by (simp add: codec_simps)
  show ?thesis
  proof (rule that[of ?d])
    show "versionData v = Ok ?d" using V by (simp add: versionData_def r(1) word_gt_0)
    show "length ?d < 2 ^ 24" using l by (simp add: e)
    have dd: "ha_Deduplicate (v_DepositTxs v) = v_DepositTxs v"
      using dp(2) by (simp add: ha_Deduplicate_Uniq ha_Uniq_def uniq_loop_id)
    have tw: "(if ?w = zero_array 32 then None else Some ?w) = v_WithdrawalTx v"
      "(if ?x = zero_array 32 then None else Some ?x) = v_ExitTx v"
      using tx by (auto simp: tx_ok_def split: option.splits)
    have go: "go_slice ?d 0 2 = Ok [0, 1]" "go_from ?d 2 = Ok (enc (to_item ver1T (ver1_val v)))" "?d \<noteq> []"
      unfolding two by (simp_all add: go_slice_def go_from_def)
    have w1: "(word_of_nat (of_be [0, 1]) :: u16) = 1" by simp
    have pr: "map vbytes (vlist (vlist (ver1_val v) ! 0)) = v_DepositTxs v"
      "vptr_bytes (vlist (ver1_val v) ! 1) = ?w" "vptr_bytes (vlist (ver1_val v) ! 2) = ?x"
      by (simp_all add: ver1_val_def g comp_def vptr_bytes_def)
    show "unmarshal_version ?d (v\<lparr>v_Ver := None, v_DepositTxs := [], v_WithdrawalTx := None, v_ExitTx := None\<rparr>) = Ok v"
      using ver tw
      by (simp add: unmarshal_version_def go r(2) w1 SetVersion_def Version_def setDepositTxs_def pr dd
          SetWithdrawalTx_def SetExitTx_def get_tx_def Let_def
          del: of_be.simps append_Cons One_nat_def split del: if_split cong: if_cong)
  qed
qed

lemma delegating_roundtrip:
  assumes "\<forall>d. ds = Some d \<longrightarrow> dsd_small d"
  obtains e where "dsd_MarshalBinary ds = Ok e" "length e < 2 ^ 26" "NewDelegatingStakeDataFromBinary e = Ok ds"
proof (cases ds)
  case None
  have "NewDelegatingStakeDataFromBinary (zero_array 4) = Ok None"
    by (simp add: NewDelegatingStakeDataFromBinary_def dsd_UnmarshalBinary_def minDsdLen_20)
  then show ?thesis using None by (intro that[of "zero_array 4"]) (simp_all add: dsd_MarshalBinary_def)
next
  case (Some d)
  then have "dsd_small d" using assms by simp
  then obtain e where e: "dsd_MarshalBinary (Some d) = Ok e" "length e < 2 ^ 26" "dsd_UnmarshalBinary e = Ok d"
    by (rule dsd_roundtrip) blast
  show ?thesis by (rule that[of e]) (use e in \<open>simp_all add: Some NewDelegatingStakeDataFromBinary_def\<close>)
qed

definition val_bare :: "Validator \<Rightarrow> Validator" where
  "val_bare v = v\<lparr>v_DelegatingStake := None, v_Ver := None, v_DepositTxs := [], v_WithdrawalTx := None, v_ExitTx := None\<rparr>"

definition extendedData :: "Validator \<Rightarrow> bytes res" where
  "extendedData v =
     (if hasExtendedData v
      then rbind (dsd_MarshalBinary (v_DelegatingStake v)) (\<lambda>delegateBin.
           rbind (versionData v) (\<lambda>ver. Ok (bePut32 (length delegateBin) @ delegateBin @ ver)))
      else Ok [])"

lemma extended_roundtrip:
  assumes "val_wf v"
  obtains ext where "extendedData v = Ok ext" "unmarshal_extended ext (val_bare v) = Ok v"
proof (cases "hasExtendedData v")
  case False
  then have d: "v_DelegatingStake v = None" and n: "Version v = NoVer" by (simp_all add: hasExtendedData_def)
  from n have "v_Ver v = None" using assms by (auto simp: val_wf_def Version_def)
  moreover from this have "v_DepositTxs v = []" "v_WithdrawalTx v = None" "v_ExitTx v = None"
    using assms by (auto simp: val_wf_def)
  ultimately show ?thesis using False d
    by (intro that[of "[]"]) (simp_all add: unmarshal_extended_def extendedData_def val_bare_def)
next
  case True
  obtain vd where vd: "versionData v = Ok vd"
      "unmarshal_version vd (v\<lparr>v_Ver := None, v_DepositTxs := [], v_WithdrawalTx := None, v_ExitTx := None\<rparr>) = Ok v"
    using version_roundtrip[OF assms] by blast
  have "\<forall>d. v_DelegatingStake v = Some d \<longrightarrow> dsd_small d" using assms by (simp add: val_wf_def)
  then obtain e where e: "dsd_MarshalBinary (v_DelegatingStake v) = Ok e" "length e < 2 ^ 26"
      "NewDelegatingStakeDataFromBinary e = Ok (v_DelegatingStake v)" by (rule delegating_roundtrip)
  let ?ext = "bePut32 (length e) @ e @ vd"
  have l: "beUint32 (bePut32 (length e)) = Ok (length e)" using beUint32_bePut32[of "length e" "[]"] e(2) by simp
  have s: "go_slice ?ext 4 (4 + length e) = Ok e" by (rule go_slice_append) simp_all
  have f: "go_from ?ext (4 + length e) = Ok vd" using go_from_append[of "bePut32 (length e) @ e" "4 + length e" vd] by simp
  have h: "go_slice ?ext 0 4 = Ok (bePut32 (length e))" "go_from ?ext 4 = Ok (e @ vd)" by simp_all
  have "length (bePut32 (length e)) = 4" by simp
  then have ne: "?ext \<noteq> []" by (cases "bePut32 (length e)") simp_all
  have b: "(val_bare v)\<lparr>v_DelegatingStake := v_DelegatingStake v\<rparr> =
      v\<lparr>v_Ver := None, v_DepositTxs := [], v_WithdrawalTx := None, v_ExitTx := None\<rparr>"
    by (cases v) (simp add: val_bare_def)
  show ?thesis
  proof (rule that[of ?ext])
    show "extendedData v = Ok ?ext" using True e(1) vd(1) by (simp add: extendedData_def)
    show "unmarshal_extended ?ext (val_bare v) = Ok v"
      unfolding unmarshal_extended_def if_not_P[OF ne] h rbind_simps l s f e(3) b vd(2) by simp
  qed
qed

lemma val_roundtrip:
  assumes "val_wf v"
  obtains b where "val_MarshalBinary v = Ok b" "val_UnmarshalBinary b = Ok v"
proof -
  obtain bd where bd: "EncodeToBytes baseT (base_val v) = Ok bd" "DecodeBytes baseT bd = Ok (base_val v)"
      "length bd < 2 ^ 24" using base_roundtrip[OF assms] by blast
  obtain ext where ext: "extendedData v = Ok ext" "unmarshal_extended ext (val_bare v) = Ok v"
    using extended_roundtrip[OF assms] by blast
  let ?b = "v_Address v @ bePut32 (length bd) @ bd @ ext"
  have a: "length (v_Address v) = 20" using assms by (simp add: val_wf_def)
  have m: "val_MarshalBinary v = Ok ?b" using ext(1) by (simp add: val_MarshalBinary_def bd(1) extendedData_def)
  have g: "go_slice ?b 0 20 = Ok (v_Address v)" "go_slice ?b 20 24 = Ok (bePut32 (length bd))"
      "go_from ?b 24 = Ok (bd @ ext)" "go_slice ?b 24 (24 + length bd) = Ok bd" "go_from ?b (24 + length bd) = Ok ext"
    using a go_from_append[of "v_Address v @ bePut32 (length bd)" 24 "bd @ ext"]
      go_slice_append[of "v_Address v @ bePut32 (length bd)" 24 "24 + length bd" bd ext]
      go_from_append[of "v_Address v @ bePut32 (length bd) @ bd" "24 + length bd" ext] by simp_all
  have n: "beUint32 (bePut32 (length bd)) = Ok (length bd)" using beUint32_bePut32[of "length bd" "[]"] bd(3) by simp
  have w: "(if (case v_WithdrawalAddress v of None \<Rightarrow> zero_array 20 | Some w \<Rightarrow> w) = zero_array 20 then None
      else Some (case v_WithdrawalAddress v of None \<Rightarrow> zero_array 20 | Some w \<Rightarrow> w)) = v_WithdrawalAddress v"
    using assms by (auto simp: val_wf_def split: option.splits)
  have f: "vlist (base_val v) ! 0 = VBytes (v_PubKey v)"
      "vptr_bytes (vlist (base_val v) ! 1) = (case v_WithdrawalAddress v of None \<Rightarrow> zero_array 20 | Some w \<Rightarrow> w)"
      "vlist (base_val v) ! 2 = VUint (v_Index v)" "vlist (base_val v) ! 3 = VUint (v_ActivationEra v)"
      "vlist (base_val v) ! 4 = VUint (v_ExitEra v)" "map stake_of_val (vlist (vlist (base_val v) ! 5)) = v_Stake v"
    by (simp_all add: base_val_def vptr_bytes_def comp_def)
  have "val_UnmarshalBinary ?b = unmarshal_extended ext (val_bare v)"
    unfolding val_UnmarshalBinary_def g rbind_simps n bd(2) Let_def f w
    by (cases v) (simp add: val_bare_def)
  then show ?thesis using m ext(2) that by simp
qed

section \<open>Properties\<close>

text \<open>C19. A stored validator is read back unchanged: for a well-formed validator (field lengths
  as declared, bounded stake list, version absent or 1 with distinct deposit transactions),
  \<^verbatim>\<open>MarshalBinary\<close> succeeds and \<^verbatim>\<open>UnmarshalBinary\<close> of its result restores every field,
  delegation and version data included.\<close>

theorem validator_codec:
  assumes "val_wf v"
  shows "\<exists>b. val_MarshalBinary v = Ok b \<and> val_UnmarshalBinary b = Ok v"
  using val_roundtrip[OF assms] by blast

definition sample_validator :: Validator where
  "sample_validator = \<lparr>v_Address = replicate 20 1, v_PubKey = replicate 48 2,
     v_WithdrawalAddress = Some (replicate 20 3), v_Index = 4, v_ActivationEra = 5, v_ExitEra = MaxUint64,
     v_Stake = [(replicate 20 6, 1000), (replicate 20 7, 0)],
     v_DelegatingStake = Some \<lparr>d_Rules = empty_rules, d_TrialPeriod = 0, d_TrialRules = empty_rules\<rparr>,
     v_Ver = Some Ver1, v_DepositTxs = [replicate 32 8], v_WithdrawalTx = None, v_ExitTx = Some (replicate 32 9)\<rparr>"

lemma sample_validator_wf: "val_wf sample_validator"
proof -
  have "length (bigBytes 1000) \<le> 2" "length (bigBytes 0) \<le> 1" unfolding bigBytes_def
    by (rule length_min_be_le, simp)+
  then have "stake_small [(replicate 20 6, 1000), (replicate 20 7, 0)]"
    by (simp add: stake_small_def bigBytes_def)
  then show ?thesis
    by (simp add: val_wf_def sample_validator_def tx_ok_def replicate_eq_replicate dsd_small_def
        rules_small_def empty_rules_def)
qed

theorem validator_codec_witness:
  "\<exists>b. val_MarshalBinary sample_validator = Ok b \<and> val_UnmarshalBinary b = Ok sample_validator"
  by (rule validator_codec[OF sample_validator_wf])

text \<open>C20. The stake list is a ledger: adding a stake raises the total and the contributor's own
  stake by the amount and no one else's; subtracting succeeds only up to the contributor's own
  stake and then lowers exactly that stake and the total; removing a contributor zeroes their
  stake and keeps the others'.\<close>

theorem stake_ledger:
  "TotalStake (AddStake a x v) = TotalStake v + x \<and>
   StakeByAddress b (AddStake a x v) = StakeByAddress b v + (if a = b then x else 0) \<and>
   (SubtractStake a x v = Ok v' \<longrightarrow>
      x \<le> StakeByAddress a v \<and> TotalStake v' = TotalStake v - x \<and>
      StakeByAddress b v' = StakeByAddress b v - (if a = b then x else 0)) \<and>
   (0 < x \<and> x \<le> StakeByAddress a v \<longrightarrow> (\<exists>w. SubtractStake a x v = Ok w)) \<and>
   SubtractStake a x v \<noteq> Panic \<and>
   StakeByAddress b (RmStakeByAddress a v) = (if a = b then 0 else StakeByAddress b v) \<and>
   TotalStake (UnsetStake v) = 0"
proof -
  have r: "SubtractStake_list a x st \<noteq> Panic" for st
    by (induction a x st rule: SubtractStake_list.induct) (auto simp: rbind_eq_Panic)
  have e: "\<exists>w. SubtractStake_list a x st = Ok w" if "0 < x" "x \<le> StakeByAddress_list a st" for st
    using that by (induction a x st rule: SubtractStake_list.induct) (auto simp: rbind_eq_Ok)
  have "SubtractStake a x v = Ok v' \<Longrightarrow> x \<le> StakeByAddress a v \<and> TotalStake v' = TotalStake v - x \<and>
      StakeByAddress b v' = StakeByAddress b v - (if a = b then x else 0)"
    using SubtractStake_list_Ok[of a x "v_Stake v" _ b]
    by (auto simp: SubtractStake_def rbind_eq_Ok TotalStake_sum StakeByAddress_def)
  moreover have "0 < x \<and> x \<le> StakeByAddress a v \<Longrightarrow> \<exists>w. SubtractStake a x v = Ok w"
    using e[of "v_Stake v"] by (auto simp: SubtractStake_def StakeByAddress_def)
  moreover have "SubtractStake a x v \<noteq> Panic" using r by (auto simp: SubtractStake_def rbind_eq_Panic)
  ultimately show ?thesis
    by (simp add: TotalStake_sum AddStake_def AddStake_list_sum AddStake_list_by StakeByAddress_def
        RmStake_by[unfolded StakeByAddress_def] UnsetStake_def)
qed

theorem stake_ledger_witness:
  "TotalStake (AddStake (replicate 20 6) 5 sample_validator) = 1005 \<and>
   (\<exists>w. SubtractStake (replicate 20 6) 400 sample_validator = Ok w \<and> TotalStake w = 600)"
proof -
  have t: "TotalStake sample_validator = 1000" by (simp add: TotalStake_def sample_validator_def)
  have b: "StakeByAddress (replicate 20 6) sample_validator = 1000" by (simp add: StakeByAddress_def sample_validator_def)
  obtain w where "SubtractStake (replicate 20 6) 400 sample_validator = Ok w"
    using stake_ledger[of "replicate 20 6" 400 sample_validator] b by auto
  then show ?thesis
    using stake_ledger[of "replicate 20 6" 400 sample_validator _ w] stake_ledger[of "replicate 20 6" 5 sample_validator] t
    by auto
qed

section \<open>Amounts behind pointers\<close>

text \<open>The stakes as the code keeps them: each refers to its amount, and the amounts are in a store.
  Adding for a new contributor keeps the caller's pointer; every other change is made in place.\<close>

type_synonym stake_mem = "(address \<times> nat) list \<times> int list"

fun find_stake :: "address \<Rightarrow> (address \<times> nat) list \<Rightarrow> nat option" where
  "find_stake a [] = None"
| "find_stake a ((b, r) # st) = (if b = a then Some r else find_stake a st)"

definition AddStake_ptr :: "address \<Rightarrow> nat \<Rightarrow> stake_mem \<Rightarrow> nat \<times> stake_mem" where
  "AddStake_ptr address amt m =
     (case m of (stake, sums) \<Rightarrow>
        (case find_stake address stake of
           Some r \<Rightarrow> (r, stake, sums[r := sums ! r + sums ! amt])
         | None \<Rightarrow> (amt, stake @ [(address, amt)], sums)))"

definition SubtractStake_ptr :: "address \<Rightarrow> nat \<Rightarrow> stake_mem \<Rightarrow> (nat \<times> stake_mem) res" where
  "SubtractStake_ptr address amt m =
     (case m of (stake, sums) \<Rightarrow>
        (case find_stake address stake of
           Some r \<Rightarrow>
             if sums ! r < sums ! amt then Err (StoreErr SubtractMoreThanStake)
             else Ok (r, stake, sums[r := sums ! r - sums ! amt])
         | None \<Rightarrow> Err (StoreErr NoStakeForAddress)))"

definition ledger :: "stake_mem \<Rightarrow> StakeByAddress list" where
  "ledger m = (case m of (stake, sums) \<Rightarrow> map (\<lambda>(a, r). (a, sums ! r)) stake)"

definition unshared :: "stake_mem \<Rightarrow> bool" where
  "unshared m \<longleftrightarrow>
     (case m of (stake, sums) \<Rightarrow> distinct (map snd stake) \<and> (\<forall>r \<in> set (map snd stake). r < length sums))"

lemma ledger_other: "r \<notin> set (map snd stake) \<Longrightarrow> ledger (stake, sums[r := x]) = ledger (stake, sums)"
  by (auto simp: ledger_def) (metis imageI nth_list_update_neq snd_conv)

lemma find_stake_in: "find_stake a stake = Some r \<Longrightarrow> r \<in> set (map snd stake)"
  by (induction a stake rule: find_stake.induct) (auto split: if_splits)

lemma find_stake_ledger:
  "StakeByAddress_list a (ledger (stake, sums)) = (case find_stake a stake of None \<Rightarrow> 0 | Some r \<Rightarrow> sums ! r)"
  by (induction a stake rule: find_stake.induct) (auto simp: ledger_def)

lemma ledger_Cons: "ledger ((b, r) # stake, sums) = (b, sums ! r) # ledger (stake, sums)"
  by (simp add: ledger_def)

lemma unshared_Cons:
  "unshared ((b, r) # stake, sums) \<longleftrightarrow> r < length sums \<and> r \<notin> set (map snd stake) \<and> unshared (stake, sums)"
  by (auto simp: unshared_def)

lemma AddStake_list_ledger:
  assumes "unshared (stake, sums)"
  shows "find_stake a stake = Some r \<Longrightarrow> AddStake_list a x (ledger (stake, sums)) = ledger (stake, sums[r := sums ! r + x])"
    "find_stake a stake = None \<Longrightarrow> AddStake_list a x (ledger (stake, sums)) = ledger (stake, sums) @ [(a, x)]"
  using assms
proof (induction a stake rule: find_stake.induct)
  case (2 a b q stake)
  { case 1
    show ?case
    proof (cases "b = a")
      case True
      then show ?thesis using 1 by (auto simp: ledger_Cons unshared_Cons ledger_other)
    next
      case False
      moreover have "q \<noteq> r" using 1 False find_stake_in[of a stake r] by (auto simp: unshared_Cons)
      ultimately show ?thesis using 1 2(1) by (simp add: ledger_Cons unshared_Cons)
    qed
  next
    case 2
    then show ?case using "2.IH"(2) by (simp add: ledger_Cons unshared_Cons split: if_splits)
  }
qed (simp_all add: ledger_def)

lemma SubtractStake_list_ledger:
  assumes "unshared (stake, sums)"
  shows "SubtractStake_list a x (ledger (stake, sums)) =
    (case find_stake a stake of
       None \<Rightarrow> Err (StoreErr NoStakeForAddress)
     | Some r \<Rightarrow> if sums ! r < x then Err (StoreErr SubtractMoreThanStake) else Ok (ledger (stake, sums[r := sums ! r - x])))"
  using assms
proof (induction a stake rule: find_stake.induct)
  case (2 a b q stake)
  show ?case
  proof (cases "b = a")
    case True
    then show ?thesis using 2(2) by (auto simp: ledger_Cons unshared_Cons ledger_other)
  next
    case False
    have "q \<noteq> r" if "find_stake a stake = Some r" for r
      using that 2(2) find_stake_in[of a stake r] by (auto simp: unshared_Cons)
    then show ?thesis using False 2 by (auto simp: ledger_Cons unshared_Cons split: option.splits)
  qed
qed (simp add: ledger_def)

text \<open>C39. The in-place changes of the stake amounts are those of the ledger as long as no two stakes
  share an amount: the stakes after adding or subtracting are those of \<^verbatim>\<open>AddStake\<close> and
  \<^verbatim>\<open>SubtractStake\<close> on values, with the same errors, the returned pointer holds the contributor's
  new stake, and amounts stay unshared when the added one is not a stake already. When two new
  contributors are added with one pointer, they share it, and a later addition for one of them
  raises the stake of the other as well.\<close>

theorem stake_pointers_refine:
  assumes "unshared m" "v_Stake v = ledger m" "s < length (snd m)" "t < length (snd m)"
  shows "(case AddStake_ptr a s m of (r, m') \<Rightarrow>
      v_Stake (AddStake a (snd m ! s) v) = ledger m' \<and>
      snd m' ! r = StakeByAddress a (AddStake a (snd m ! s) v) \<and>
      (s \<notin> set (map snd (fst m)) \<longrightarrow> unshared m')) \<and>
    (case SubtractStake_ptr a s m of
       Ok (r, m') \<Rightarrow> SubtractStake a (snd m ! s) v = Ok (v\<lparr>v_Stake := ledger m'\<rparr>) \<and> unshared m' \<and>
         snd m' ! r = StakeByAddress a (v\<lparr>v_Stake := ledger m'\<rparr>)
     | Err e \<Rightarrow> SubtractStake a (snd m ! s) v = Err e
     | Panic \<Rightarrow> False) \<and>
    (a \<noteq> b \<and> find_stake a (fst m) = None \<and> find_stake b (fst m) = None \<longrightarrow>
      (let m3 = snd (AddStake_ptr a t (snd (AddStake_ptr b s (snd (AddStake_ptr a s m))))) in
       StakeByAddress_list b (ledger m3) = snd m ! s + snd m ! t))"
proof -
  obtain stake sums where m: "m = (stake, sums)" by (cases m)
  have u: "unshared (stake, sums)" using assms(1) m by simp
  have st: "StakeByAddress_list a (v_Stake v) = (case find_stake a stake of None \<Rightarrow> 0 | Some r \<Rightarrow> sums ! r)"
    using assms(2) m find_stake_ledger by simp
  have by_a: "StakeByAddress_list a (AddStake_list a (sums ! s) (v_Stake v)) =
      (case find_stake a stake of None \<Rightarrow> 0 | Some r \<Rightarrow> sums ! r) + sums ! s"
    unfolding AddStake_list_by st by simp
  have add: "case AddStake_ptr a s m of (r, m') \<Rightarrow> v_Stake (AddStake a (snd m ! s) v) = ledger m' \<and>
      snd m' ! r = StakeByAddress a (AddStake a (snd m ! s) v) \<and> (s \<notin> set (map snd (fst m)) \<longrightarrow> unshared m')"
  proof (cases "find_stake a stake")
    case None
    have "unshared (stake @ [(a, s)], sums)" if "s \<notin> set (map snd stake)"
      using u that assms(3) m by (auto simp: unshared_def)
    then show ?thesis
      using None AddStake_list_ledger(2)[OF u None, of "sums ! s"] assms(2) m by_a
      by (simp add: AddStake_ptr_def AddStake_def StakeByAddress_def) (simp add: ledger_def)
  next
    case (Some r)
    then have "r < length sums" using find_stake_in[OF Some] u by (auto simp: unshared_def)
    then show ?thesis
      using Some AddStake_list_ledger(1)[OF u Some, of "sums ! s"] assms(2) m by_a u
      by (simp add: AddStake_ptr_def AddStake_def StakeByAddress_def) (simp add: unshared_def)
  qed
  have subtract: "case SubtractStake_ptr a s m of
       Ok (r, m') \<Rightarrow> SubtractStake a (snd m ! s) v = Ok (v\<lparr>v_Stake := ledger m'\<rparr>) \<and> unshared m' \<and>
         snd m' ! r = StakeByAddress a (v\<lparr>v_Stake := ledger m'\<rparr>)
     | Err e \<Rightarrow> SubtractStake a (snd m ! s) v = Err e
     | Panic \<Rightarrow> False"
    using SubtractStake_list_ledger[OF u, of a "sums ! s"] assms(2) m u find_stake_in[of a stake]
    by (auto simp: SubtractStake_ptr_def SubtractStake_def StakeByAddress_def find_stake_ledger unshared_def
        split: option.splits)
  have "StakeByAddress_list b (ledger (snd (AddStake_ptr a t (snd (AddStake_ptr b s (snd (AddStake_ptr a s m))))))) =
      sums ! s + sums ! t" if n: "a \<noteq> b" "find_stake a stake = None" "find_stake b stake = None"
  proof -
    have app: "find_stake c (stake @ xs) = find_stake c xs" if "find_stake c stake = None" for c xs
      using that by (induction c stake rule: find_stake.induct) (auto split: if_splits)
    show ?thesis using n assms(3) m by (simp add: AddStake_ptr_def app find_stake_ledger)
  qed
  then show ?thesis using add subtract m by (simp add: Let_def)
qed

theorem stake_pointers_refine_witness:
  "ledger (snd (AddStake_ptr (replicate 20 6) 2 ([(replicate 20 6, 0), (replicate 20 7, 1)], [1000, 0, 5]))) =
     [(replicate 20 6, 1005), (replicate 20 7, 0)] \<and>
   v_Stake (AddStake (replicate 20 6) 5 sample_validator) = [(replicate 20 6, 1005), (replicate 20 7, 0)]"
proof -
  let ?m = "([(replicate 20 6, 0), (replicate 20 7, 1)], [1000, 0, 5]) :: stake_mem"
  have "unshared ?m" "v_Stake sample_validator = ledger ?m" "2 < length (snd ?m)"
    by (simp_all add: unshared_def ledger_def sample_validator_def)
  from stake_pointers_refine[OF this this(3), of "replicate 20 6"] show ?thesis
    by (simp add: AddStake_ptr_def ledger_def)
qed

end
