(* ===== verification/Statedb.thy ===== *)
theory Statedb
  imports Access_List Validator
begin

text \<open>
  The account state a transaction executes on (\<^verbatim>\<open>src/core/state\<close>: \<^verbatim>\<open>statedb.go\<close>,
  \<^verbatim>\<open>state_object.go\<close>, \<^verbatim>\<open>journal.go\<close>): live state objects loaded on demand from the snapshot or
  the account trie, the journal of undo entries, revisions, logs, refunds, preimages and the
  access list. The backing store is a parameter, read but not written between commits. A
  pointer to a live object is its address; code slices live in an explicit store, because the
  journal keeps references to them and one caller writes through such a reference.
\<close>

section \<open>Backing store\<close>

text \<open>
  What the state reads of the database: the account trie, the optional snapshot, the storage
  tries by root, contract code by hash, and Keccak-256. \<open>None\<close> is a read error (a code lookup
  that finds nothing is one). Opening a storage trie can fail for a missing root and never
  fails for the zero root.
\<close>

record snapAccount =
  na_Nonce :: u64
  na_Balance :: int
  na_Root :: bytes
  na_CodeHash :: bytes

record backend =
  be_keccak :: "bytes \<Rightarrow> hash"
  be_snap :: bool
  be_snapAccount :: "hash \<Rightarrow> snapAccount option option"
  be_snapStorage :: "hash \<Rightarrow> hash \<Rightarrow> bytes option"
  be_TryGet :: "bytes \<Rightarrow> bytes option"
  be_hasStorageTrie :: "hash \<Rightarrow> hash \<Rightarrow> bool"
  be_StorageTryGet :: "hash \<Rightarrow> hash \<Rightarrow> bytes \<Rightarrow> bytes option"
  be_ContractCode :: "hash \<Rightarrow> hash \<Rightarrow> bytes option"

definition emptyCodeHash :: "backend \<Rightarrow> hash" where
  "emptyCodeHash be = be_keccak be []"

definition emptyRoot :: hash where
  "emptyRoot = [0x56, 0xe8, 0x1f, 0x17, 0x1b, 0xcc, 0x55, 0xa6, 0xff, 0x83, 0x45, 0xe6, 0x92, 0xc0,
     0xf8, 0x6e, 0x5b, 0x48, 0xe0, 0x1b, 0x99, 0x6c, 0xad, 0xc0, 0x01, 0x62, 0x2f, 0xb5, 0xe3, 0x63,
     0xb4, 0x21]"

datatype db_error = TrieReadError | CodeNotFound | StorageTrieMissing | StorageReadError | StorageDecodeError

section \<open>State objects\<close>

record StateAccount =
  sa_Nonce :: u64
  sa_Balance :: "int option"
  sa_Root :: hash
  sa_CodeHash :: "bytes option"

record stateObject =
  so_address :: address
  so_addrHash :: hash
  so_nonce :: u64
  so_balance :: int
  so_root :: hash
  so_codeHash :: bytes
  so_dbErr :: "db_error option"
  so_trie :: "hash option"
  so_code :: "nat option"
  so_originStorage :: "hash \<rightharpoonup> hash"
  so_pendingStorage :: "hash \<rightharpoonup> hash"
  so_dirtyStorage :: "hash \<rightharpoonup> hash"
  so_dirtyCode :: bool
  so_suicided :: bool
  so_deleted :: bool

definition newObject :: "backend \<Rightarrow> address \<Rightarrow> StateAccount \<Rightarrow> stateObject" where
  "newObject be a data =
     \<lparr>so_address = a, so_addrHash = be_keccak be a, so_nonce = sa_Nonce data,
      so_balance = (case sa_Balance data of None \<Rightarrow> 0 | Some b \<Rightarrow> b),
      so_root = (if sa_Root data = zero_array 32 then emptyRoot else sa_Root data),
      so_codeHash = (case sa_CodeHash data of None \<Rightarrow> emptyCodeHash be | Some h \<Rightarrow> h),
      so_dbErr = None, so_trie = None, so_code = None,
      so_originStorage = Map.empty, so_pendingStorage = Map.empty, so_dirtyStorage = Map.empty,
      so_dirtyCode = False, so_suicided = False, so_deleted = False\<rparr>"

definition emptyAccount :: StateAccount where
  "emptyAccount = \<lparr>sa_Nonce = 0, sa_Balance = None, sa_Root = zero_array 32, sa_CodeHash = None\<rparr>"

definition so_empty :: "backend \<Rightarrow> stateObject \<Rightarrow> bool" where
  "so_empty be obj \<longleftrightarrow> so_nonce obj = 0 \<and> so_balance obj = 0 \<and> so_codeHash obj = emptyCodeHash be"

definition so_setError :: "db_error \<Rightarrow> stateObject \<Rightarrow> stateObject" where
  "so_setError e obj = (if so_dbErr obj = None then obj\<lparr>so_dbErr := Some e\<rparr> else obj)"

text \<open>\<^verbatim>\<open>getTrie\<close> opens the storage trie at the account's root, or at the zero root when that
  fails; the model keeps the root it was opened at.\<close>

definition getTrie :: "backend \<Rightarrow> stateObject \<Rightarrow> hash \<times> stateObject" where
  "getTrie be obj =
     (case so_trie obj of
        Some r \<Rightarrow> (r, obj)
      | None \<Rightarrow>
          if be_hasStorageTrie be (so_addrHash obj) (so_root obj)
          then (so_root obj, obj\<lparr>so_trie := Some (so_root obj)\<rparr>)
          else (zero_array 32, so_setError StorageTrieMissing (obj\<lparr>so_trie := Some (zero_array 32)\<rparr>)))"

definition decodeSlot :: "bytes \<Rightarrow> hash" where
  "decodeSlot e = (if length e > 0 then (case Split e of Ok (k, content, rest) \<Rightarrow> BytesToHash content | _ \<Rightarrow> BytesToHash [])
     else zero_array 32)"

definition slotError :: "bytes \<Rightarrow> bool" where
  "slotError e \<longleftrightarrow> length e > 0 \<and> \<not> is_Ok (Split e)"

definition GetCommittedState :: "backend \<Rightarrow> hash set \<Rightarrow> hash \<Rightarrow> stateObject \<Rightarrow> hash \<times> stateObject" where
  "GetCommittedState be destructs key obj =
     (case so_pendingStorage obj key of
        Some v \<Rightarrow> (v, obj)
      | None \<Rightarrow>
     (case so_originStorage obj key of
        Some v \<Rightarrow> (v, obj)
      | None \<Rightarrow>
         if be_snap be \<and> so_addrHash obj \<in> destructs then (zero_array 32, obj)
         else
           (let cached = \<lambda>e obj1.
                  (decodeSlot e,
                   (if slotError e then so_setError StorageDecodeError obj1 else obj1)
                     \<lparr>so_originStorage := (so_originStorage obj)(key \<mapsto> decodeSlot e)\<rparr>);
                fromTrie =
                  (case getTrie be obj of (r, obj1) \<Rightarrow>
                     (case be_StorageTryGet be (so_addrHash obj) r key of
                        None \<Rightarrow> (zero_array 32, so_setError StorageReadError obj1)
                      | Some e \<Rightarrow> cached e obj1))
            in if be_snap be then
                 (case be_snapStorage be (so_addrHash obj) (be_keccak be key) of
                    Some e \<Rightarrow> cached e obj
                  | None \<Rightarrow> fromTrie)
               else fromTrie)))"

definition so_GetState :: "backend \<Rightarrow> hash set \<Rightarrow> hash \<Rightarrow> stateObject \<Rightarrow> hash \<times> stateObject" where
  "so_GetState be destructs key obj =
     (case so_dirtyStorage obj key of Some v \<Rightarrow> (v, obj) | None \<Rightarrow> GetCommittedState be destructs key obj)"

definition so_setState :: "hash \<Rightarrow> hash \<Rightarrow> stateObject \<Rightarrow> stateObject" where
  "so_setState key v obj = obj\<lparr>so_dirtyStorage := (so_dirtyStorage obj)(key \<mapsto> v)\<rparr>"

definition so_setCode :: "hash \<Rightarrow> nat option \<Rightarrow> stateObject \<Rightarrow> stateObject" where
  "so_setCode h c obj = obj\<lparr>so_code := c, so_codeHash := h, so_dirtyCode := True\<rparr>"

definition so_finalise :: "stateObject \<Rightarrow> stateObject" where
  "so_finalise obj = obj\<lparr>so_pendingStorage := so_pendingStorage obj ++ so_dirtyStorage obj,
     so_dirtyStorage := Map.empty\<rparr>"

section \<open>Journal and state\<close>

datatype journalEntry =
    createObjectChange address
  | resetObjectChange stateObject bool
  | suicideChange address bool int
  | balanceChange address int
  | nonceChange address u64
  | storageChange address hash hash
  | codeChange address "nat option" bytes
  | refundChange u64
  | addLogChange hash
  | addPreimageChange hash
  | touchChange address
  | accessListAddAccountChange address
  | accessListAddSlotChange address hash

primrec dirtied :: "journalEntry \<Rightarrow> address option" where
  "dirtied (createObjectChange a) = Some a"
| "dirtied (resetObjectChange prev d) = None"
| "dirtied (suicideChange a p b) = Some a"
| "dirtied (balanceChange a p) = Some a"
| "dirtied (nonceChange a p) = Some a"
| "dirtied (storageChange a k p) = Some a"
| "dirtied (codeChange a c h) = Some a"
| "dirtied (refundChange p) = None"
| "dirtied (addLogChange t) = None"
| "dirtied (addPreimageChange h) = None"
| "dirtied (touchChange a) = Some a"
| "dirtied (accessListAddAccountChange a) = None"
| "dirtied (accessListAddSlotChange a s) = None"

record Log =
  l_Address :: address
  l_Topics :: "hash list"
  l_Data :: bytes
  l_BlockNumber :: u64
  l_TxHash :: hash
  l_TxIndex :: u64
  l_BlockHash :: hash
  l_Index :: u64
  l_Removed :: bool

record StateDB =
  s_snapDestructs :: "hash set"
  s_objs :: "address \<rightharpoonup> stateObject"
  s_pending :: "address set"
  s_dirty :: "address set"
  s_dbErr :: "db_error option"
  s_refund :: u64
  s_thash :: hash
  s_txIndex :: u64
  s_logs :: "hash \<rightharpoonup> Log list"
  s_logSize :: u64
  s_preimages :: "hash \<rightharpoonup> bytes"
  s_accessList :: accessList
  s_entries :: "journalEntry list"
  s_dirties :: "(address \<times> int) list"
  s_validRevisions :: "(nat \<times> nat) list"
  s_nextRevisionId :: nat
  s_codes :: "bytes list"

definition statedb_New :: StateDB where
  "statedb_New = \<lparr>s_snapDestructs = {}, s_objs = Map.empty, s_pending = {}, s_dirty = {},
     s_dbErr = None, s_refund = 0, s_thash = zero_array 32, s_txIndex = 0, s_logs = Map.empty,
     s_logSize = 0, s_preimages = Map.empty, s_accessList = newAccessList, s_entries = [],
     s_dirties = [], s_validRevisions = [], s_nextRevisionId = 0, s_codes = []\<rparr>"

text \<open>Code slices: a reference indexes \<^const>\<open>s_codes\<close>; the nil slice is \<open>None\<close>.\<close>

definition deref :: "StateDB \<Rightarrow> nat option \<Rightarrow> bytes" where
  "deref st r = (case r of None \<Rightarrow> [] | Some i \<Rightarrow> if i < length (s_codes st) then s_codes st ! i else [])"

definition new_slice :: "bytes \<Rightarrow> StateDB \<Rightarrow> nat option \<times> StateDB" where
  "new_slice b st = (Some (length (s_codes st)), st\<lparr>s_codes := s_codes st @ [b]\<rparr>)"

definition write_slice :: "nat option \<Rightarrow> bytes \<Rightarrow> StateDB \<Rightarrow> StateDB" where
  "write_slice r b st = (case r of None \<Rightarrow> st | Some i \<Rightarrow> st\<lparr>s_codes := (s_codes st)[i := b]\<rparr>)"

text \<open>Reading an absent key of a Go map gives zero.\<close>

definition dirties :: "StateDB \<Rightarrow> address \<Rightarrow> int" where
  "dirties st a = (case map_of (s_dirties st) a of None \<Rightarrow> 0 | Some n \<Rightarrow> n)"

definition journal_dirty :: "address \<Rightarrow> StateDB \<Rightarrow> StateDB" where
  "journal_dirty a st = st\<lparr>s_dirties := AList.update a (dirties st a + 1) (s_dirties st)\<rparr>"

definition journal_append :: "journalEntry \<Rightarrow> StateDB \<Rightarrow> StateDB" where
  "journal_append e st =
     (let st1 = st\<lparr>s_entries := s_entries st @ [e]\<rparr>
      in case dirtied e of None \<Rightarrow> st1 | Some a \<Rightarrow> journal_dirty a st1)"

definition s_setError :: "db_error \<Rightarrow> StateDB \<Rightarrow> StateDB" where
  "s_setError e st = (if s_dbErr st = None then st\<lparr>s_dbErr := Some e\<rparr> else st)"

definition setStateObject :: "stateObject \<Rightarrow> StateDB \<Rightarrow> StateDB" where
  "setStateObject obj st = st\<lparr>s_objs := (s_objs st)(so_address obj \<mapsto> obj)\<rparr>"

section \<open>Loading accounts\<close>

definition accountT :: rtype where
  "accountT = TStruct [TUint 64, TBigInt, TByteArray 32, TBytes]"

definition snapToAccount :: "backend \<Rightarrow> snapAccount \<Rightarrow> StateAccount" where
  "snapToAccount be acc =
     \<lparr>sa_Nonce = na_Nonce acc, sa_Balance = Some (na_Balance acc),
      sa_Root = (if BytesToHash (na_Root acc) = zero_array 32 then emptyRoot else BytesToHash (na_Root acc)),
      sa_CodeHash = Some (if length (na_CodeHash acc) = 0 then emptyCodeHash be else na_CodeHash acc)\<rparr>"

definition trieAccount :: "backend \<Rightarrow> address \<Rightarrow> StateAccount option" where
  "trieAccount be a =
     (case be_TryGet be a of
        None \<Rightarrow> None
      | Some e \<Rightarrow>
          if length e = 0 then None
          else (case DecodeBytes accountT e of
                  Ok v \<Rightarrow> (let f = vlist v in
                    Some \<lparr>sa_Nonce = vuint (f ! 0), sa_Balance = vbig (f ! 1), sa_Root = vbytes (f ! 2),
                      sa_CodeHash = Some (vbytes (f ! 3))\<rparr>)
                | _ \<Rightarrow> None))"

definition loadAccount :: "backend \<Rightarrow> address \<Rightarrow> StateAccount option" where
  "loadAccount be a =
     (if be_snap be then
        (case be_snapAccount be (be_keccak be a) of
           Some None \<Rightarrow> None
         | Some (Some acc) \<Rightarrow> Some (snapToAccount be acc)
         | None \<Rightarrow> trieAccount be a)
      else trieAccount be a)"

definition loadFails :: "backend \<Rightarrow> address \<Rightarrow> bool" where
  "loadFails be a \<longleftrightarrow> (be_snap be \<longrightarrow> be_snapAccount be (be_keccak be a) = None) \<and> be_TryGet be a = None"

definition getDeletedStateObject :: "backend \<Rightarrow> address \<Rightarrow> StateDB \<Rightarrow> stateObject option \<times> StateDB" where
  "getDeletedStateObject be a st =
     (case s_objs st a of
        Some obj \<Rightarrow> (Some obj, st)
      | None \<Rightarrow>
          (case loadAccount be a of
             None \<Rightarrow> (None, if loadFails be a then s_setError TrieReadError st else st)
           | Some data \<Rightarrow> (let obj = newObject be a data in (Some obj, setStateObject obj st))))"

definition getStateObject :: "backend \<Rightarrow> address \<Rightarrow> StateDB \<Rightarrow> stateObject option \<times> StateDB" where
  "getStateObject be a st =
     (case getDeletedStateObject be a st of
        (Some obj, st1) \<Rightarrow> (if \<not> so_deleted obj then Some obj else None, st1)
      | (None, st1) \<Rightarrow> (None, st1))"

definition createObject :: "backend \<Rightarrow> address \<Rightarrow> StateDB \<Rightarrow> (stateObject \<times> stateObject option) \<times> StateDB" where
  "createObject be a st =
     (case getDeletedStateObject be a st of (prev, st1) \<Rightarrow>
       (let newobj = newObject be a emptyAccount in
        case prev of
          None \<Rightarrow> ((newobj, None), setStateObject newobj (journal_append (createObjectChange a) st1))
        | Some p \<Rightarrow>
           (let prevdestruct = be_snap be \<and> so_addrHash p \<in> s_snapDestructs st1;
                st2 = (if be_snap be \<and> \<not> prevdestruct
                       then st1\<lparr>s_snapDestructs := insert (so_addrHash p) (s_snapDestructs st1)\<rparr> else st1)
            in ((newobj, if \<not> so_deleted p then Some p else None),
                setStateObject newobj (journal_append (resetObjectChange p prevdestruct) st2)))))"

definition GetOrNewStateObject :: "backend \<Rightarrow> address \<Rightarrow> StateDB \<Rightarrow> stateObject \<times> StateDB" where
  "GetOrNewStateObject be a st =
     (case getStateObject be a st of
        (Some obj, st1) \<Rightarrow> (obj, st1)
      | (None, st1) \<Rightarrow> (case createObject be a st1 of ((obj, prev), st2) \<Rightarrow> (obj, st2)))"

definition CreateAccount :: "backend \<Rightarrow> address \<Rightarrow> StateDB \<Rightarrow> StateDB" where
  "CreateAccount be a st =
     (case createObject be a st of ((newObj, prev), st1) \<Rightarrow>
       (case prev of None \<Rightarrow> st1 | Some p \<Rightarrow> setStateObject (newObj\<lparr>so_balance := so_balance p\<rparr>) st1))"

section \<open>Operations of a state object\<close>

definition ripemd :: address where
  "ripemd = zero_array 19 @ [3]"

definition touch :: "stateObject \<Rightarrow> StateDB \<Rightarrow> StateDB" where
  "touch obj st =
     (let st1 = journal_append (touchChange (so_address obj)) st
      in if so_address obj = ripemd then journal_dirty (so_address obj) st1 else st1)"

definition so_SetBalance :: "int \<Rightarrow> stateObject \<Rightarrow> StateDB \<Rightarrow> StateDB" where
  "so_SetBalance amount obj st =
     setStateObject (obj\<lparr>so_balance := amount\<rparr>)
       (journal_append (balanceChange (so_address obj) (so_balance obj)) st)"

definition so_AddBalance :: "backend \<Rightarrow> int \<Rightarrow> stateObject \<Rightarrow> StateDB \<Rightarrow> StateDB" where
  "so_AddBalance be amount obj st =
     (if amount = 0 then (if so_empty be obj then touch obj st else st)
      else so_SetBalance (so_balance obj + amount) obj st)"

definition so_SubBalance :: "int \<Rightarrow> stateObject \<Rightarrow> StateDB \<Rightarrow> StateDB" where
  "so_SubBalance amount obj st = (if amount = 0 then st else so_SetBalance (so_balance obj - amount) obj st)"

definition so_SetNonce :: "u64 \<Rightarrow> stateObject \<Rightarrow> StateDB \<Rightarrow> StateDB" where
  "so_SetNonce nonce obj st =
     setStateObject (obj\<lparr>so_nonce := nonce\<rparr>)
       (journal_append (nonceChange (so_address obj) (so_nonce obj)) st)"

definition so_Code :: "backend \<Rightarrow> stateObject \<Rightarrow> StateDB \<Rightarrow> nat option \<times> stateObject \<times> StateDB" where
  "so_Code be obj st =
     (case so_code obj of
        Some i \<Rightarrow> (Some i, obj, st)
      | None \<Rightarrow>
         if so_codeHash obj = emptyCodeHash be then (None, obj, st)
         else (case be_ContractCode be (so_addrHash obj) (BytesToHash (so_codeHash obj)) of
                 Some c \<Rightarrow> (case new_slice c st of (r, st1) \<Rightarrow>
                   (let obj1 = obj\<lparr>so_code := r\<rparr> in (r, obj1, setStateObject obj1 st1)))
               | None \<Rightarrow> (let obj1 = so_setError CodeNotFound obj in (None, obj1, setStateObject obj1 st))))"

definition so_SetCode :: "backend \<Rightarrow> hash \<Rightarrow> nat option \<Rightarrow> stateObject \<Rightarrow> StateDB \<Rightarrow> StateDB" where
  "so_SetCode be codeHash code obj st =
     (case so_Code be obj st of (prevcode, obj1, st1) \<Rightarrow>
        setStateObject (so_setCode codeHash code obj1)
          (journal_append (codeChange (so_address obj1) prevcode (so_codeHash obj1)) st1))"

definition so_SetState :: "backend \<Rightarrow> hash \<Rightarrow> hash \<Rightarrow> stateObject \<Rightarrow> StateDB \<Rightarrow> StateDB" where
  "so_SetState be key v obj st =
     (case so_GetState be (s_snapDestructs st) key obj of (prev, obj1) \<Rightarrow>
        if prev = v then setStateObject obj1 st
        else setStateObject (so_setState key v obj1)
               (journal_append (storageChange (so_address obj1) key prev) st))"

section \<open>Operations of the state\<close>

definition AddBalance :: "backend \<Rightarrow> address \<Rightarrow> int \<Rightarrow> StateDB \<Rightarrow> StateDB" where
  "AddBalance be a x st = (case GetOrNewStateObject be a st of (obj, st1) \<Rightarrow> so_AddBalance be x obj st1)"

definition SubBalance :: "backend \<Rightarrow> address \<Rightarrow> int \<Rightarrow> StateDB \<Rightarrow> StateDB" where
  "SubBalance be a x st = (case GetOrNewStateObject be a st of (obj, st1) \<Rightarrow> so_SubBalance x obj st1)"

definition SetBalance :: "backend \<Rightarrow> address \<Rightarrow> int \<Rightarrow> StateDB \<Rightarrow> StateDB" where
  "SetBalance be a x st = (case GetOrNewStateObject be a st of (obj, st1) \<Rightarrow> so_SetBalance x obj st1)"

definition SetNonce :: "backend \<Rightarrow> address \<Rightarrow> u64 \<Rightarrow> StateDB \<Rightarrow> StateDB" where
  "SetNonce be a n st = (case GetOrNewStateObject be a st of (obj, st1) \<Rightarrow> so_SetNonce n obj st1)"

definition SetCode :: "backend \<Rightarrow> address \<Rightarrow> nat option \<Rightarrow> StateDB \<Rightarrow> StateDB" where
  "SetCode be a code st =
     (case GetOrNewStateObject be a st of (obj, st1) \<Rightarrow>
        so_SetCode be (be_keccak be (deref st1 code)) code obj st1)"

definition SetState :: "backend \<Rightarrow> address \<Rightarrow> hash \<Rightarrow> hash \<Rightarrow> StateDB \<Rightarrow> StateDB" where
  "SetState be a key v st = (case GetOrNewStateObject be a st of (obj, st1) \<Rightarrow> so_SetState be key v obj st1)"

definition Suicide :: "backend \<Rightarrow> address \<Rightarrow> StateDB \<Rightarrow> bool \<times> StateDB" where
  "Suicide be a st =
     (case getStateObject be a st of
        (None, st1) \<Rightarrow> (False, st1)
      | (Some obj, st1) \<Rightarrow>
          (True, setStateObject (obj\<lparr>so_suicided := True, so_balance := 0\<rparr>)
             (journal_append (suicideChange a (so_suicided obj) (so_balance obj)) st1)))"

definition Exist :: "backend \<Rightarrow> address \<Rightarrow> StateDB \<Rightarrow> bool \<times> StateDB" where
  "Exist be a st = (case getStateObject be a st of (o1, st1) \<Rightarrow> (o1 \<noteq> None, st1))"

definition Empty :: "backend \<Rightarrow> address \<Rightarrow> StateDB \<Rightarrow> bool \<times> StateDB" where
  "Empty be a st = (case getStateObject be a st of
     (None, st1) \<Rightarrow> (True, st1) | (Some obj, st1) \<Rightarrow> (so_empty be obj, st1))"

definition GetBalance :: "backend \<Rightarrow> address \<Rightarrow> StateDB \<Rightarrow> int \<times> StateDB" where
  "GetBalance be a st = (case getStateObject be a st of
     (None, st1) \<Rightarrow> (0, st1) | (Some obj, st1) \<Rightarrow> (so_balance obj, st1))"

definition GetNonce :: "backend \<Rightarrow> address \<Rightarrow> StateDB \<Rightarrow> u64 \<times> StateDB" where
  "GetNonce be a st = (case getStateObject be a st of
     (None, st1) \<Rightarrow> (0, st1) | (Some obj, st1) \<Rightarrow> (so_nonce obj, st1))"

definition GetCode :: "backend \<Rightarrow> address \<Rightarrow> StateDB \<Rightarrow> nat option \<times> StateDB" where
  "GetCode be a st = (case getStateObject be a st of
     (None, st1) \<Rightarrow> (None, st1)
   | (Some obj, st1) \<Rightarrow> (case so_Code be obj st1 of (r, obj1, st2) \<Rightarrow> (r, st2)))"

definition GetCodeHash :: "backend \<Rightarrow> address \<Rightarrow> StateDB \<Rightarrow> hash \<times> StateDB" where
  "GetCodeHash be a st = (case getStateObject be a st of
     (None, st1) \<Rightarrow> (zero_array 32, st1) | (Some obj, st1) \<Rightarrow> (BytesToHash (so_codeHash obj), st1))"

definition GetState :: "backend \<Rightarrow> address \<Rightarrow> hash \<Rightarrow> StateDB \<Rightarrow> hash \<times> StateDB" where
  "GetState be a key st = (case getStateObject be a st of
     (None, st1) \<Rightarrow> (zero_array 32, st1)
   | (Some obj, st1) \<Rightarrow> (case so_GetState be (s_snapDestructs st1) key obj of
        (v, obj1) \<Rightarrow> (v, setStateObject obj1 st1)))"

definition HasSuicided :: "backend \<Rightarrow> address \<Rightarrow> StateDB \<Rightarrow> bool \<times> StateDB" where
  "HasSuicided be a st = (case getStateObject be a st of
     (None, st1) \<Rightarrow> (False, st1) | (Some obj, st1) \<Rightarrow> (so_suicided obj, st1))"

definition IsValidatorAddress :: "backend \<Rightarrow> address \<Rightarrow> StateDB \<Rightarrow> bool \<times> StateDB" where
  "IsValidatorAddress be a st = (case GetCode be a st of (r, st1) \<Rightarrow>
     (let code = deref st1 r in (if length code < 20 then False else take 20 code = a, st1)))"

definition AddLog :: "Log \<Rightarrow> StateDB \<Rightarrow> StateDB" where
  "AddLog log st =
     (let st1 = journal_append (addLogChange (s_thash st)) st;
          log1 = log\<lparr>l_TxHash := s_thash st, l_TxIndex := s_txIndex st, l_Index := s_logSize st\<rparr>;
          old = (case s_logs st (s_thash st) of None \<Rightarrow> [] | Some ls \<Rightarrow> ls)
      in st1\<lparr>s_logs := (s_logs st1)(s_thash st \<mapsto> old @ [log1]), s_logSize := s_logSize st1 + 1\<rparr>)"

definition AddPreimage :: "hash \<Rightarrow> bytes \<Rightarrow> StateDB \<Rightarrow> StateDB" where
  "AddPreimage h pre st =
     (if s_preimages st h = None
      then (let st1 = journal_append (addPreimageChange h) st
            in st1\<lparr>s_preimages := (s_preimages st1)(h \<mapsto> pre)\<rparr>)
      else st)"

definition AddRefund :: "u64 \<Rightarrow> StateDB \<Rightarrow> StateDB" where
  "AddRefund gas st = (let st1 = journal_append (refundChange (s_refund st)) st in st1\<lparr>s_refund := s_refund st + gas\<rparr>)"

definition SubRefund :: "u64 \<Rightarrow> StateDB \<Rightarrow> StateDB res" where
  "SubRefund gas st =
     (let st1 = journal_append (refundChange (s_refund st)) st
      in if gas > s_refund st then Panic else Ok (st1\<lparr>s_refund := s_refund st - gas\<rparr>))"

definition AddAddressToAccessList :: "address \<Rightarrow> StateDB \<Rightarrow> StateDB" where
  "AddAddressToAccessList a st =
     (case AddAddress (s_accessList st) a of (added, al) \<Rightarrow>
        (let st1 = st\<lparr>s_accessList := al\<rparr>
         in if added then journal_append (accessListAddAccountChange a) st1 else st1))"

definition AddSlotToAccessList :: "address \<Rightarrow> hash \<Rightarrow> StateDB \<Rightarrow> StateDB res" where
  "AddSlotToAccessList a slot st =
     rbind (AddSlot (s_accessList st) a slot) (\<lambda>((addrMod, slotMod), al).
       (let st1 = st\<lparr>s_accessList := al\<rparr>;
            st2 = (if addrMod then journal_append (accessListAddAccountChange a) st1 else st1)
        in Ok (if slotMod then journal_append (accessListAddSlotChange a slot) st2 else st2)))"

primrec addSlots :: "address \<Rightarrow> hash list \<Rightarrow> StateDB \<Rightarrow> StateDB res" where
  "addSlots a [] st = Ok st"
| "addSlots a (k # ks) st = rbind (AddSlotToAccessList a k st) (addSlots a ks)"

primrec addTuples :: "(address \<times> hash list) list \<Rightarrow> StateDB \<Rightarrow> StateDB res" where
  "addTuples [] st = Ok st"
| "addTuples (el # els) st = rbind (addSlots (fst el) (snd el) (AddAddressToAccessList (fst el) st)) (addTuples els)"

definition PrepareAccessList ::
  "address \<Rightarrow> address option \<Rightarrow> address list \<Rightarrow> (address \<times> hash list) list \<Rightarrow> StateDB \<Rightarrow> StateDB res" where
  "PrepareAccessList sender dst precompiles lst st =
     (let st1 = AddAddressToAccessList sender st;
          st2 = (case dst of None \<Rightarrow> st1 | Some d \<Rightarrow> AddAddressToAccessList d st1)
      in addTuples lst (fold AddAddressToAccessList precompiles st2))"

definition Prepare :: "hash \<Rightarrow> u64 \<Rightarrow> StateDB \<Rightarrow> StateDB" where
  "Prepare thash ti st = st\<lparr>s_thash := thash, s_txIndex := ti, s_accessList := newAccessList\<rparr>"

section \<open>Undoing\<close>

text \<open>Undo functions that dereference the state object of an account panic when it is gone.\<close>

definition on_object :: "backend \<Rightarrow> address \<Rightarrow> (stateObject \<Rightarrow> stateObject) \<Rightarrow> StateDB \<Rightarrow> StateDB res" where
  "on_object be a f st =
     (case getStateObject be a st of
        (None, st1) \<Rightarrow> Panic
      | (Some obj, st1) \<Rightarrow> Ok (setStateObject (f obj) st1))"

primrec revert :: "backend \<Rightarrow> journalEntry \<Rightarrow> StateDB \<Rightarrow> StateDB res" where
  "revert be (createObjectChange a) st =
     Ok (st\<lparr>s_objs := (s_objs st)(a := None), s_dirty := s_dirty st - {a}\<rparr>)"
| "revert be (resetObjectChange prev prevdestruct) st =
     (let st1 = setStateObject prev st
      in Ok (if \<not> prevdestruct \<and> be_snap be
             then st1\<lparr>s_snapDestructs := s_snapDestructs st1 - {so_addrHash prev}\<rparr> else st1))"
| "revert be (suicideChange a prev prevbalance) st =
     (case getStateObject be a st of
        (None, st1) \<Rightarrow> Ok st1
      | (Some obj, st1) \<Rightarrow> Ok (setStateObject (obj\<lparr>so_suicided := prev, so_balance := prevbalance\<rparr>) st1))"
| "revert be (balanceChange a prev) st = on_object be a (\<lambda>obj. obj\<lparr>so_balance := prev\<rparr>) st"
| "revert be (nonceChange a prev) st = on_object be a (\<lambda>obj. obj\<lparr>so_nonce := prev\<rparr>) st"
| "revert be (storageChange a key prevalue) st = on_object be a (so_setState key prevalue) st"
| "revert be (codeChange a prevcode prevhash) st = on_object be a (so_setCode (BytesToHash prevhash) prevcode) st"
| "revert be (refundChange prev) st = Ok (st\<lparr>s_refund := prev\<rparr>)"
| "revert be (addLogChange txhash) st =
     (let logs = (case s_logs st txhash of None \<Rightarrow> [] | Some ls \<Rightarrow> ls)
      in if length logs = 1
         then Ok (st\<lparr>s_logs := (s_logs st)(txhash := None), s_logSize := s_logSize st - 1\<rparr>)
         else if length logs = 0 then Panic
         else Ok (st\<lparr>s_logs := (s_logs st)(txhash \<mapsto> butlast logs), s_logSize := s_logSize st - 1\<rparr>))"
| "revert be (addPreimageChange h) st = Ok (st\<lparr>s_preimages := (s_preimages st)(h := None)\<rparr>)"
| "revert be (touchChange a) st = Ok st"
| "revert be (accessListAddAccountChange a) st = Ok (st\<lparr>s_accessList := DeleteAddress (s_accessList st) a\<rparr>)"
| "revert be (accessListAddSlotChange a slot) st =
     rbind (DeleteSlot (s_accessList st) a slot) (\<lambda>al. Ok (st\<lparr>s_accessList := al\<rparr>))"

definition undirty :: "journalEntry \<Rightarrow> StateDB \<Rightarrow> StateDB" where
  "undirty e st =
     (case dirtied e of
        None \<Rightarrow> st
      | Some a \<Rightarrow>
          (let n = dirties st a - 1
           in st\<lparr>s_dirties := (if n = 0 then AList.delete a (s_dirties st) else AList.update a n (s_dirties st))\<rparr>))"

definition undo :: "backend \<Rightarrow> journalEntry \<Rightarrow> StateDB \<Rightarrow> StateDB res" where
  "undo be e st = rbind (revert be e st) (\<lambda>st1. Ok (undirty e st1))"

primrec undo_all :: "backend \<Rightarrow> journalEntry list \<Rightarrow> StateDB \<Rightarrow> StateDB res" where
  "undo_all be [] st = Ok st"
| "undo_all be (e # es) st = rbind (undo be e st) (undo_all be es)"

definition journal_revert :: "backend \<Rightarrow> nat \<Rightarrow> StateDB \<Rightarrow> StateDB res" where
  "journal_revert be snapshot st =
     rbind (undo_all be (rev (drop snapshot (s_entries st))) st) (\<lambda>st1.
     rbind (go_slice (s_entries st1) 0 snapshot) (\<lambda>es. Ok (st1\<lparr>s_entries := es\<rparr>)))"

text \<open>\<^verbatim>\<open>sort.Search\<close>: binary search for the first index that satisfies a predicate.\<close>

function search_loop :: "(nat \<Rightarrow> bool) \<Rightarrow> nat \<Rightarrow> nat \<Rightarrow> nat" where
  "search_loop f i j =
     (if i < j then
        (let h = (i + j) div 2
         in if \<not> f h then search_loop f (h + 1) j else search_loop f i h)
      else i)"
  by pat_completeness auto
termination
  by (relation "measure (\<lambda>(f, i, j). j - i)") auto

definition Search :: "nat \<Rightarrow> (nat \<Rightarrow> bool) \<Rightarrow> nat" where
  "Search n f = search_loop f 0 n"

definition Snapshot :: "StateDB \<Rightarrow> nat \<times> StateDB" where
  "Snapshot st =
     (s_nextRevisionId st,
      st\<lparr>s_nextRevisionId := s_nextRevisionId st + 1,
         s_validRevisions := s_validRevisions st @ [(s_nextRevisionId st, length (s_entries st))]\<rparr>)"

definition RevertToSnapshot :: "backend \<Rightarrow> nat \<Rightarrow> StateDB \<Rightarrow> StateDB res" where
  "RevertToSnapshot be revid st =
     (let revs = s_validRevisions st;
          idx = Search (length revs) (\<lambda>i. fst (revs ! i) \<ge> revid)
      in if idx = length revs \<or> fst (revs ! idx) \<noteq> revid then Panic
         else rbind (journal_revert be (snd (revs ! idx)) st) (\<lambda>st1.
              Ok (st1\<lparr>s_validRevisions := take idx revs\<rparr>)))"

definition clearJournalAndRefund :: "StateDB \<Rightarrow> StateDB" where
  "clearJournalAndRefund st =
     (let st1 = (if length (s_entries st) > 0
                 then st\<lparr>s_entries := [], s_dirties := [], s_refund := 0\<rparr> else st)
      in st1\<lparr>s_validRevisions := []\<rparr>)"

definition finalise_object :: "backend \<Rightarrow> bool \<Rightarrow> stateObject \<Rightarrow> stateObject" where
  "finalise_object be deleteEmptyObjects obj =
     (if so_suicided obj \<or> deleteEmptyObjects \<and> so_empty be obj then obj\<lparr>so_deleted := True\<rparr>
      else so_finalise obj)"

definition finalise_addr :: "backend \<Rightarrow> bool \<Rightarrow> address \<Rightarrow> StateDB \<Rightarrow> StateDB" where
  "finalise_addr be deleteEmptyObjects a st =
     (case s_objs st a of
        None \<Rightarrow> st
      | Some obj \<Rightarrow>
          (let obj1 = finalise_object be deleteEmptyObjects obj
           in st\<lparr>s_objs := (s_objs st)(a \<mapsto> obj1),
                 s_snapDestructs :=
                   (if be_snap be \<and> (so_suicided obj \<or> deleteEmptyObjects \<and> so_empty be obj)
                    then insert (so_addrHash obj) (s_snapDestructs st) else s_snapDestructs st),
                 s_pending := insert a (s_pending st), s_dirty := insert a (s_dirty st)\<rparr>))"

text \<open>The deletions from \<^verbatim>\<open>snapAccounts\<close> and \<^verbatim>\<open>snapStorage\<close> are left out: those maps are filled and read
  by the commit only.\<close>

definition Finalise :: "backend \<Rightarrow> bool \<Rightarrow> StateDB \<Rightarrow> StateDB" where
  "Finalise be deleteEmptyObjects st =
     clearJournalAndRefund (fold (finalise_addr be deleteEmptyObjects) (map fst (s_dirties st)) st)"

end
