(* ===== verification/Statedb_Correct.thy ===== *)
theory Statedb_Correct
  imports Statedb
begin

text \<open>
  The account state refines a map from addresses to accounts: caching loads do not change what
  is read, each operation changes the accounts as its name says, and undoing the journal
  restores them.
\<close>

section \<open>Undo journals\<close>

text \<open>
  An undo log over states: undoing respects a preorder of states (here: same observable
  content, possibly more caches), and entries stay applicable along it. Then undo logs compose.
\<close>

locale journaled =
  fixes leq :: "'s \<Rightarrow> 's \<Rightarrow> bool"
    and undo1 :: "'e \<Rightarrow> 's \<Rightarrow> 's res"
    and undos :: "'e list \<Rightarrow> 's \<Rightarrow> 's res"
    and ok :: "'s \<Rightarrow> 'e \<Rightarrow> bool"
    and good :: "'s \<Rightarrow> bool"
  assumes leq_trans: "leq a b \<Longrightarrow> leq b c \<Longrightarrow> leq a c"
    and undos_Nil: "undos [] t = Ok t"
    and undos_Cons: "undos (e # es) t = rbind (undo1 e t) (undos es)"
    and ok_undo: "ok t f \<Longrightarrow> undo1 e t = Ok s \<Longrightarrow> ok s f"
    and undo_mono: "leq t t' \<Longrightarrow> ok t e \<Longrightarrow> undo1 e t = Ok s \<Longrightarrow> \<exists>s'. undo1 e t' = Ok s' \<and> leq s s'"
    and good_mono: "leq t t' \<Longrightarrow> good t \<Longrightarrow> good t'"
begin

text \<open>The entries, last one first, lead from \<open>t\<close> back to \<open>s\<close> through good states.\<close>

primrec undone :: "'s \<Rightarrow> 'e list \<Rightarrow> 's \<Rightarrow> bool" where
  "undone s [] t \<longleftrightarrow> leq s t"
| "undone s (e # es) t \<longleftrightarrow> (\<exists>u. undo1 e t = Ok u \<and> good u \<and> undone s es u)"

lemma undone_mono: "leq t t' \<Longrightarrow> (\<forall>e\<in>set es. ok t e) \<Longrightarrow> undone s es t \<Longrightarrow> undone s es t'"
proof (induction es arbitrary: t t')
  case (Cons e es)
  from Cons.prems(3) obtain u where u: "undo1 e t = Ok u" "good u" "undone s es u" by auto
  from undo_mono[OF Cons.prems(1) _ u(1)] Cons.prems(2) obtain u' where u': "undo1 e t' = Ok u'" "leq u u'" by auto
  have "\<forall>f\<in>set es. ok u f" using Cons.prems(2) ok_undo u(1) by auto
  then have "undone s es u'" using Cons.IH[OF u'(2)] u(3) by blast
  then show ?case using u' u(2) good_mono by auto
qed (auto intro: leq_trans)

lemma undone_append:
  "undone t fs u \<Longrightarrow> undone s es t \<Longrightarrow> (\<forall>e\<in>set es. ok t e) \<Longrightarrow> undone s (fs @ es) u"
  by (induction fs arbitrary: u) (auto intro: undone_mono)

lemma undone_split:
  assumes "undone s (fs @ es) u" "good u"
  obtains t where "undos fs u = Ok t" "undone s es t" "good t"
proof -
  have "\<exists>t. undos fs u = Ok t \<and> undone s es t \<and> good t" using assms
    by (induction fs arbitrary: u) (auto simp: undos_Nil undos_Cons)
  then show ?thesis using that by blast
qed

lemma undone_undos: "undone s es t \<Longrightarrow> \<exists>u. undos es t = Ok u \<and> leq s u"
  by (induction es arbitrary: t) (auto simp: undos_Nil undos_Cons)

lemma undone_leq: "leq s' s \<Longrightarrow> undone s es t \<Longrightarrow> undone s' es t"
  by (induction es arbitrary: t) (auto intro: leq_trans)

end

section \<open>The accounts a state represents\<close>

record account =
  a_nonce :: u64
  a_balance :: int
  a_root :: hash
  a_codeHash :: bytes
  a_code :: bytes
  a_storage :: "hash \<Rightarrow> hash"
  a_suicided :: bool
  a_deleted :: bool

definition code_val :: "backend \<Rightarrow> bytes list \<Rightarrow> hash \<Rightarrow> bytes \<Rightarrow> nat option \<Rightarrow> bytes" where
  "code_val be codes addrHash h c =
     (case c of
        Some i \<Rightarrow> codes ! i
      | None \<Rightarrow> if h = emptyCodeHash be then []
          else (case be_ContractCode be addrHash (BytesToHash h) of Some b \<Rightarrow> b | None \<Rightarrow> []))"

definition view :: "backend \<Rightarrow> hash set \<Rightarrow> bytes list \<Rightarrow> stateObject \<Rightarrow> account" where
  "view be destructs codes obj =
     \<lparr>a_nonce = so_nonce obj, a_balance = so_balance obj, a_root = so_root obj,
      a_codeHash = so_codeHash obj,
      a_code = code_val be codes (so_addrHash obj) (so_codeHash obj) (so_code obj),
      a_storage = (\<lambda>k. fst (so_GetState be destructs k obj)),
      a_suicided = so_suicided obj, a_deleted = so_deleted obj\<rparr>"

definition acct :: "backend \<Rightarrow> StateDB \<Rightarrow> address \<Rightarrow> account option" where
  "acct be st a =
     (if length a = 20 then
        (case s_objs st a of
           Some obj \<Rightarrow> Some (view be (s_snapDestructs st) (s_codes st) obj)
         | None \<Rightarrow> map_option (\<lambda>d. view be (s_snapDestructs st) (s_codes st) (newObject be a d)) (loadAccount be a))
      else None)"

definition live :: "backend \<Rightarrow> StateDB \<Rightarrow> address \<Rightarrow> account option" where
  "live be st a = (case acct be st a of Some x \<Rightarrow> if a_deleted x then None else Some x | None \<Rightarrow> None)"

text \<open>What is assumed of the backing store: hashes have 32 bytes, addresses do not collide, and
  stored accounts carry 32-byte code hashes.\<close>

definition be_ok :: "backend \<Rightarrow> bool" where
  "be_ok be \<longleftrightarrow> (\<forall>b. length (be_keccak be b) = 32) \<and>
     (\<forall>a b. length a = 20 \<and> length b = 20 \<and> be_keccak be a = be_keccak be b \<longrightarrow> a = b) \<and>
     (\<forall>a d. loadAccount be a = Some d \<longrightarrow> (\<exists>h. sa_CodeHash d = Some h \<and> length h = 32))"

definition trie_root :: "backend \<Rightarrow> stateObject \<Rightarrow> hash" where
  "trie_root be obj = (if be_hasStorageTrie be (so_addrHash obj) (so_root obj) then so_root obj else zero_array 32)"

definition obj_ok :: "backend \<Rightarrow> nat \<Rightarrow> address \<Rightarrow> stateObject \<Rightarrow> bool" where
  "obj_ok be n a obj \<longleftrightarrow> length a = 20 \<and> so_address obj = a \<and> so_addrHash obj = be_keccak be a \<and>
     length (so_codeHash obj) = 32 \<and> (\<forall>i. so_code obj = Some i \<longrightarrow> i < n) \<and>
     (so_trie obj = None \<or> so_trie obj = Some (trie_root be obj))"

lemma obj_ok_new:
  assumes "be_ok be" "length a = 20" "loadAccount be a = Some d \<or> d = emptyAccount"
  shows "obj_ok be n a (newObject be a d)"
proof (cases "d = emptyAccount")
  case True
  then show ?thesis using assms(1,2) by (simp add: obj_ok_def newObject_def be_ok_def emptyAccount_def emptyCodeHash_def)
next
  case False
  then obtain h where "sa_CodeHash d = Some h" "length h = 32" using assms unfolding be_ok_def by blast
  then show ?thesis using assms(2) by (simp add: obj_ok_def newObject_def)
qed

lemma obj_ok_mono: "obj_ok be n a obj \<Longrightarrow> n \<le> m \<Longrightarrow> obj_ok be m a obj"
  by (fastforce simp: obj_ok_def)

section \<open>Reading storage and code through the caches\<close>

lemma setError_sel [simp]:
  "so_address (so_setError e obj) = so_address obj" "so_addrHash (so_setError e obj) = so_addrHash obj"
  "so_nonce (so_setError e obj) = so_nonce obj" "so_balance (so_setError e obj) = so_balance obj"
  "so_root (so_setError e obj) = so_root obj" "so_codeHash (so_setError e obj) = so_codeHash obj"
  "so_trie (so_setError e obj) = so_trie obj" "so_code (so_setError e obj) = so_code obj"
  "so_originStorage (so_setError e obj) = so_originStorage obj"
  "so_pendingStorage (so_setError e obj) = so_pendingStorage obj"
  "so_dirtyStorage (so_setError e obj) = so_dirtyStorage obj"
  "so_suicided (so_setError e obj) = so_suicided obj" "so_deleted (so_setError e obj) = so_deleted obj"
  by (simp_all add: so_setError_def)

text \<open>The value read from the backing store when no cache has it.\<close>

definition stored :: "backend \<Rightarrow> hash set \<Rightarrow> hash \<Rightarrow> hash \<Rightarrow> hash \<Rightarrow> hash" where
  "stored be destructs addrHash root key =
     (if be_snap be \<and> addrHash \<in> destructs then zero_array 32
      else (let t = (case be_StorageTryGet be addrHash root key of None \<Rightarrow> zero_array 32 | Some e \<Rightarrow> decodeSlot e)
            in if be_snap be then
                 (case be_snapStorage be addrHash (be_keccak be key) of Some e \<Rightarrow> decodeSlot e | None \<Rightarrow> t)
               else t))"

definition storage_val :: "backend \<Rightarrow> hash set \<Rightarrow> stateObject \<Rightarrow> hash \<Rightarrow> hash" where
  "storage_val be destructs obj key =
     (case so_dirtyStorage obj key of Some v \<Rightarrow> v | None \<Rightarrow>
     (case so_pendingStorage obj key of Some v \<Rightarrow> v | None \<Rightarrow>
     (case so_originStorage obj key of Some v \<Rightarrow> v | None \<Rightarrow>
        stored be destructs (so_addrHash obj) (trie_root be obj) key)))"

lemma getTrie_root: "so_trie obj = None \<or> so_trie obj = Some (trie_root be obj) \<Longrightarrow> fst (getTrie be obj) = trie_root be obj"
  by (auto simp: getTrie_def trie_root_def)

lemma getTrie_obj:
  assumes "getTrie be obj = (r, obj1)" "so_trie obj = None \<or> so_trie obj = Some (trie_root be obj)"
  shows "r = trie_root be obj" "\<exists>e. obj1 = obj\<lparr>so_trie := Some r, so_dbErr := e\<rparr>"
proof -
  show r: "r = trie_root be obj" using getTrie_root[OF assms(2)] assms(1) by simp
  have "obj1 = obj\<lparr>so_trie := Some r, so_dbErr := so_dbErr obj1\<rparr>"
    using assms by (auto simp: getTrie_def so_setError_def split: option.splits if_splits)
  then show "\<exists>e. obj1 = obj\<lparr>so_trie := Some r, so_dbErr := e\<rparr>" by blast
qed

lemma GetState_value:
  assumes "obj_ok be n a obj"
  shows "fst (so_GetState be d k obj) = storage_val be d obj k"
proof -
  obtain r obj1 where g: "getTrie be obj = (r, obj1)" by fastforce
  then have "r = trie_root be obj" using getTrie_obj[OF g] assms by (simp add: obj_ok_def)
  then show ?thesis
    by (auto simp: so_GetState_def GetCommittedState_def storage_val_def stored_def g Let_def split: option.splits)
qed

lemma GetState_object:
  assumes ok: "obj_ok be n a obj" and g: "so_GetState be d k obj = (v, obj1)"
  shows "obj1 = obj\<lparr>so_trie := so_trie obj1, so_dbErr := so_dbErr obj1, so_originStorage := so_originStorage obj1\<rparr> \<and>
      (so_trie obj1 = so_trie obj \<or> so_trie obj1 = Some (trie_root be obj)) \<and>
      (so_originStorage obj1 = so_originStorage obj \<or>
       so_dirtyStorage obj k = None \<and> so_pendingStorage obj k = None \<and> so_originStorage obj k = None \<and>
       so_originStorage obj1 = (so_originStorage obj)(k \<mapsto> stored be d (so_addrHash obj) (trie_root be obj) k))"
proof -
  obtain r o1 where t: "getTrie be obj = (r, o1)" by fastforce
  have tr: "so_trie obj = None \<or> so_trie obj = Some (trie_root be obj)" using ok by (simp add: obj_ok_def)
  obtain e1 where o1: "r = trie_root be obj" "o1 = obj\<lparr>so_trie := Some r, so_dbErr := e1\<rparr>" using getTrie_obj[OF t tr] by blast
  show ?thesis
    using g t o1 unfolding so_GetState_def GetCommittedState_def stored_def Let_def
    by (auto simp: so_setError_def split: option.splits if_splits)
qed

lemma storage_val_object:
  assumes ok: "obj_ok be n a obj" and g: "so_GetState be d k obj = (v, obj1)"
  shows "storage_val be d obj1 = storage_val be d obj" "obj_ok be n a obj1"
proof -
  note o = GetState_object[OF assms]
  then obtain e t c where eq: "obj1 = obj\<lparr>so_trie := t, so_dbErr := e, so_originStorage := c\<rparr>" by blast
  from o eq have t: "t = so_trie obj \<or> t = Some (trie_root be obj)" by simp
  from o eq have c: "c = so_originStorage obj \<or> so_originStorage obj k = None \<and>
      c = (so_originStorage obj)(k \<mapsto> stored be d (so_addrHash obj) (trie_root be obj) k)" by auto
  have r: "trie_root be obj1 = trie_root be obj" using eq by (simp add: trie_root_def)
  show "obj_ok be n a obj1" using ok t r unfolding eq by (auto simp: obj_ok_def trie_root_def)
  show "storage_val be d obj1 = storage_val be d obj"
    by (rule ext) (use c r eq in \<open>auto simp: storage_val_def split: option.splits if_splits\<close>)
qed

lemma view_simps [simp]:
  "a_nonce (view be d codes obj) = so_nonce obj" "a_balance (view be d codes obj) = so_balance obj"
  "a_root (view be d codes obj) = so_root obj" "a_codeHash (view be d codes obj) = so_codeHash obj"
  "a_code (view be d codes obj) = code_val be codes (so_addrHash obj) (so_codeHash obj) (so_code obj)"
  "a_suicided (view be d codes obj) = so_suicided obj" "a_deleted (view be d codes obj) = so_deleted obj"
  by (simp_all add: view_def)

lemma view_ok:
  assumes "obj_ok be n a obj"
  shows "view be d codes obj =
     \<lparr>a_nonce = so_nonce obj, a_balance = so_balance obj, a_root = so_root obj, a_codeHash = so_codeHash obj,
      a_code = code_val be codes (be_keccak be a) (so_codeHash obj) (so_code obj),
      a_storage = storage_val be d obj, a_suicided = so_suicided obj, a_deleted = so_deleted obj\<rparr>"
  using GetState_value[OF assms] assms by (simp add: view_def obj_ok_def)

lemma GetState_view:
  assumes ok: "obj_ok be n a obj" and g: "so_GetState be d k obj = (v, obj1)"
  shows "v = a_storage (view be d codes obj) k" "view be d codes obj1 = view be d codes obj" "obj_ok be n a obj1"
    "so_deleted obj1 = so_deleted obj" "so_dirtyStorage obj1 = so_dirtyStorage obj"
    "so_address obj1 = so_address obj"
proof -
  note o = storage_val_object[OF assms]
  from GetState_object[OF assms] obtain e t c where eq: "obj1 = obj\<lparr>so_trie := t, so_dbErr := e, so_originStorage := c\<rparr>" by blast
  show "v = a_storage (view be d codes obj) k" using g by (simp add: view_def)
  show "view be d codes obj1 = view be d codes obj"
    unfolding view_ok[OF ok] view_ok[OF o(2)] using o(1) by (simp add: eq)
  show "obj_ok be n a obj1" by (rule o(2))
  show "so_deleted obj1 = so_deleted obj" "so_dirtyStorage obj1 = so_dirtyStorage obj"
    "so_address obj1 = so_address obj" by (simp_all add: eq)
qed

section \<open>State invariant\<close>

primrec entry_ok :: "backend \<Rightarrow> nat \<Rightarrow> journalEntry \<Rightarrow> bool" where
  "entry_ok be n (createObjectChange a) \<longleftrightarrow> length a = 20"
| "entry_ok be n (resetObjectChange prev d) \<longleftrightarrow> obj_ok be n (so_address prev) prev"
| "entry_ok be n (suicideChange a p b) \<longleftrightarrow> length a = 20"
| "entry_ok be n (balanceChange a p) \<longleftrightarrow> length a = 20"
| "entry_ok be n (nonceChange a p) \<longleftrightarrow> length a = 20"
| "entry_ok be n (storageChange a k p) \<longleftrightarrow> length a = 20"
| "entry_ok be n (codeChange a c h) \<longleftrightarrow> length a = 20 \<and> length h = 32 \<and> (\<forall>i. c = Some i \<longrightarrow> i < n)"
| "entry_ok be n (refundChange p) \<longleftrightarrow> True"
| "entry_ok be n (addLogChange t) \<longleftrightarrow> True"
| "entry_ok be n (addPreimageChange h) \<longleftrightarrow> True"
| "entry_ok be n (touchChange a) \<longleftrightarrow> True"
| "entry_ok be n (accessListAddAccountChange a) \<longleftrightarrow> True"
| "entry_ok be n (accessListAddSlotChange a s) \<longleftrightarrow> True"

lemma entry_ok_mono: "entry_ok be n e \<Longrightarrow> n \<le> m \<Longrightarrow> entry_ok be m e"
  by (cases e) (auto intro: obj_ok_mono)

definition sdb_inv :: "backend \<Rightarrow> StateDB \<Rightarrow> bool" where
  "sdb_inv be st \<longleftrightarrow> (\<forall>a obj. s_objs st a = Some obj \<longrightarrow> obj_ok be (length (s_codes st)) a obj)"

lemma inv_obj: "sdb_inv be st \<Longrightarrow> s_objs st a = Some obj \<Longrightarrow> obj_ok be (length (s_codes st)) a obj"
  by (simp add: sdb_inv_def)

text \<open>The part of the state beside accounts that execution reads.\<close>

definition rest :: "StateDB \<Rightarrow> u64 \<times> hash \<times> u64 \<times> (hash \<rightharpoonup> Log list) \<times> u64 \<times> (hash \<rightharpoonup> bytes) \<times> accessList \<times> hash set" where
  "rest st = (s_refund st, s_thash st, s_txIndex st, s_logs st, s_logSize st, s_preimages st, s_accessList st, s_snapDestructs st)"

text \<open>What holds of that part in every reachable state: the access list is well formed and a
  log list, once present, is not empty.\<close>

definition rest_ok :: "StateDB \<Rightarrow> bool" where
  "rest_ok st \<longleftrightarrow> (case rest st of (refund, thash, txIndex, logs, logSize, preimages, al, destructs) \<Rightarrow>
     al_inv al \<and> (\<forall>h. logs h \<noteq> Some []))"

definition code_prefix :: "StateDB \<Rightarrow> StateDB \<Rightarrow> bool" where
  "code_prefix st st' \<longleftrightarrow> (\<exists>cs. s_codes st' = s_codes st @ cs)"

lemma code_prefix_refl [simp]: "code_prefix st st"
  by (simp add: code_prefix_def)

lemma code_prefix_trans: "code_prefix a b \<Longrightarrow> code_prefix b c \<Longrightarrow> code_prefix a c"
  by (auto simp: code_prefix_def)

lemma code_prefix_length: "code_prefix a b \<Longrightarrow> length (s_codes a) \<le> length (s_codes b)"
  by (auto simp: code_prefix_def)

lemma code_val_prefix:
  "code_prefix st st' \<Longrightarrow> (\<forall>i. c = Some i \<longrightarrow> i < length (s_codes st)) \<Longrightarrow>
   code_val be (s_codes st') ah h c = code_val be (s_codes st) ah h c"
  by (auto simp: code_val_def code_prefix_def nth_append split: option.splits)

lemma view_prefix:
  assumes "obj_ok be (length (s_codes st)) a obj" "code_prefix st st'"
  shows "view be d (s_codes st') obj = view be d (s_codes st) obj"
  using code_val_prefix[OF assms(2)] assms(1) by (simp add: view_def obj_ok_def)

text \<open>Two states that differ only in what has been cached and in the journal.\<close>

definition same :: "backend \<Rightarrow> StateDB \<Rightarrow> StateDB \<Rightarrow> bool" where
  "same be st st' \<longleftrightarrow> be_ok be \<and> sdb_inv be st \<and> sdb_inv be st' \<and> acct be st = acct be st' \<and> rest st = rest st' \<and>
     code_prefix st st'"

lemma same_refl: "be_ok be \<Longrightarrow> sdb_inv be st \<Longrightarrow> same be st st"
  by (simp add: same_def)

lemma same_trans: "same be a b \<Longrightarrow> same be b c \<Longrightarrow> same be a c"
  unfolding same_def by (metis code_prefix_trans)

lemma put_sel [simp]:
  "s_snapDestructs (setStateObject obj st) = s_snapDestructs st" "s_codes (setStateObject obj st) = s_codes st"
  "s_dirties (setStateObject obj st) = s_dirties st" "s_entries (setStateObject obj st) = s_entries st"
  "s_accessList (setStateObject obj st) = s_accessList st" "rest (setStateObject obj st) = rest st"
  "s_validRevisions (setStateObject obj st) = s_validRevisions st"
  "s_nextRevisionId (setStateObject obj st) = s_nextRevisionId st"
  "s_objs (setStateObject obj st) = (s_objs st)(so_address obj \<mapsto> obj)"
  by (simp_all add: setStateObject_def rest_def)

lemma put_inv: "sdb_inv be st \<Longrightarrow> obj_ok be (length (s_codes st)) a obj \<Longrightarrow> sdb_inv be (setStateObject obj st)"
  by (auto simp: sdb_inv_def obj_ok_def)

lemma acct_put:
  assumes "obj_ok be n a obj"
  shows "acct be (setStateObject obj st) = (acct be st)(a \<mapsto> view be (s_snapDestructs st) (s_codes st) obj)"
  using assms by (auto simp: acct_def obj_ok_def fun_eq_iff split: option.split)

lemma setError_rest [simp]:
  "s_snapDestructs (s_setError e st) = s_snapDestructs st" "s_codes (s_setError e st) = s_codes st"
  "s_dirties (s_setError e st) = s_dirties st" "s_entries (s_setError e st) = s_entries st"
  "s_accessList (s_setError e st) = s_accessList st" "rest (s_setError e st) = rest st"
  "s_validRevisions (s_setError e st) = s_validRevisions st" "s_objs (s_setError e st) = s_objs st"
  "s_nextRevisionId (s_setError e st) = s_nextRevisionId st"
  by (simp_all add: s_setError_def rest_def)

lemma acct_cong:
  "s_objs st = s_objs st' \<Longrightarrow> s_snapDestructs st = s_snapDestructs st' \<Longrightarrow> s_codes st = s_codes st' \<Longrightarrow> acct be st = acct be st'"
  by (auto simp: acct_def fun_eq_iff split: option.split)

text \<open>The journal and the revisions, which loads leave alone.\<close>

definition hist :: "StateDB \<Rightarrow> journalEntry list \<times> (nat \<times> nat) list \<times> nat" where
  "hist st = (s_entries st, s_validRevisions st, s_nextRevisionId st)"

lemma hist_put [simp]: "hist (setStateObject obj st) = hist st" "hist (s_setError e st) = hist st"
  by (simp_all add: hist_def)

lemma getDeleted_spec:
  assumes "be_ok be" "sdb_inv be st" "length a = 20" and g: "getDeletedStateObject be a st = (r, st1)"
  shows "same be st st1" "hist st1 = hist st" "s_objs st1 a = r" "s_codes st1 = s_codes st"
    "s_dirties st1 = s_dirties st"
    "acct be st a = map_option (view be (s_snapDestructs st) (s_codes st)) r"
proof -
  have "same be st st1 \<and> hist st1 = hist st \<and> s_objs st1 a = r \<and> s_codes st1 = s_codes st \<and> s_dirties st1 = s_dirties st \<and>
    acct be st a = map_option (view be (s_snapDestructs st) (s_codes st)) r" (is ?all)
  proof (cases "s_objs st a")
    case (Some obj)
    then show ?all
      using g assms(1-3) same_refl by (auto simp: getDeletedStateObject_def acct_def split: option.split)
  next
    case None
    show ?all
    proof (cases "loadAccount be a")
      case l: None
      then have st1: "st1 = st \<or> st1 = s_setError TrieReadError st" and r: "r = None"
        using g None by (auto simp: getDeletedStateObject_def split: if_splits)
      have i: "sdb_inv be (s_setError TrieReadError st)" using assms(2) by (simp add: sdb_inv_def)
      have "acct be (s_setError TrieReadError st) = acct be st" by (rule acct_cong) simp_all
      then have "same be st st1" using st1 i assms(1,2) by (auto simp: same_def code_prefix_def)
      then show ?all using st1 r None l assms(3) by (auto simp: acct_def)
    next
      case (Some d)
      let ?o = "newObject be a d"
      have st1: "st1 = setStateObject ?o st" "r = Some ?o" using g None Some by (simp_all add: getDeletedStateObject_def Let_def)
      have ok: "obj_ok be n a ?o" for n using obj_ok_new[OF assms(1,3)] Some by blast
      have v: "acct be st a = Some (view be (s_snapDestructs st) (s_codes st) ?o)"
        using None Some assms(3) by (simp add: acct_def)
      have "acct be st1 = acct be st" using acct_put[OF ok, of st] v st1(1) by (simp add: fun_upd_idem)
      moreover have "sdb_inv be st1" unfolding st1(1) by (rule put_inv[OF assms(2) ok])
      moreover have "so_address ?o = a" by (simp add: newObject_def)
      ultimately show ?all using v st1 assms(1,2) by (simp add: same_def code_prefix_def)
    qed
  qed
  then show "same be st st1" "hist st1 = hist st" "s_objs st1 a = r" "s_codes st1 = s_codes st"
    "s_dirties st1 = s_dirties st" "acct be st a = map_option (view be (s_snapDestructs st) (s_codes st)) r"
    by blast+
qed

lemma live_iff: "live be st a = Some x \<longleftrightarrow> acct be st a = Some x \<and> \<not> a_deleted x"
  by (auto simp: live_def split: option.splits)

lemma getStateObject_spec:
  assumes "be_ok be" "sdb_inv be st" "length a = 20" and g: "getStateObject be a st = (r, st1)"
  shows "same be st st1" "hist st1 = hist st" "s_codes st1 = s_codes st" "s_dirties st1 = s_dirties st"
    "live be st a = map_option (view be (s_snapDestructs st) (s_codes st)) r"
    "r = Some obj \<Longrightarrow> s_objs st1 a = Some obj \<and> \<not> so_deleted obj \<and> obj_ok be (length (s_codes st)) a obj"
proof -
  obtain r1 s1 where d: "getDeletedStateObject be a st = (r1, s1)" by fastforce
  note sp = getDeleted_spec[OF assms(1-3) d]
  have st1: "st1 = s1" and r: "r = (case r1 of None \<Rightarrow> None | Some obj \<Rightarrow> if so_deleted obj then None else Some obj)"
    using g d by (auto simp: getStateObject_def split: option.splits)
  show "same be st st1" "hist st1 = hist st" "s_codes st1 = s_codes st" "s_dirties st1 = s_dirties st" using sp st1 by simp_all
  show "live be st a = map_option (view be (s_snapDestructs st) (s_codes st)) r"
    using sp(6) r by (auto simp: live_def split: option.splits)
  assume "r = Some obj"
  then have o: "r1 = Some obj" "\<not> so_deleted obj" using r by (auto split: option.splits if_splits)
  have "sdb_inv be s1" using sp(1) by (simp add: same_def)
  then show "s_objs st1 a = Some obj \<and> \<not> so_deleted obj \<and> obj_ok be (length (s_codes st)) a obj"
    using o sp(3,4) inv_obj st1 by fastforce
qed

section \<open>Undoing respects the representation\<close>

lemma undirty_sel [simp]:
  "rest (undirty e st) = rest st" "s_objs (undirty e st) = s_objs st" "s_codes (undirty e st) = s_codes st"
  "s_snapDestructs (undirty e st) = s_snapDestructs st" "s_accessList (undirty e st) = s_accessList st"
  "hist (undirty e st) = hist st" "s_entries (undirty e st) = s_entries st"
  by (simp_all add: undirty_def rest_def hist_def Let_def split: option.split)

lemma undirty_dirties:
  "map_of (s_dirties (undirty e st)) = (case dirtied e of None \<Rightarrow> map_of (s_dirties st)
     | Some a \<Rightarrow> (map_of (s_dirties st))(a := if dirties st a = 1 then None else Some (dirties st a - 1)))"
  by (auto simp: undirty_def Let_def delete_conv' update_conv' split: option.split)

lemma acct_undirty [simp]: "acct be (undirty e st) = acct be st"
  by (rule acct_cong) simp_all

lemma undirty_same [simp]: "same be (undirty e st) (undirty e st') \<longleftrightarrow> same be st st'"
  by (simp add: same_def code_prefix_def sdb_inv_def)

lemma rest_destructs: "rest st = rest st' \<Longrightarrow> s_snapDestructs st = s_snapDestructs st'"
  by (simp add: rest_def)

lemma put_same_acct:
  assumes "same be st st1" "s_codes st1 = s_codes st" "obj_ok be (length (s_codes st)) a obj"
  shows "sdb_inv be (setStateObject obj st1)" "rest (setStateObject obj st1) = rest st"
    "acct be (setStateObject obj st1) = (acct be st)(a \<mapsto> view be (s_snapDestructs st) (s_codes st) obj)"
  using assms put_inv[of be st1 a obj] acct_put[OF assms(3), of st1] rest_destructs[of st st1]
  by (simp_all add: same_def)

text \<open>A change of a live object, described by its effect \<open>F\<close> on the account.\<close>

definition acts :: "backend \<Rightarrow> nat \<Rightarrow> address \<Rightarrow> (stateObject \<Rightarrow> stateObject) \<Rightarrow> (bytes list \<Rightarrow> account \<Rightarrow> account) \<Rightarrow> bool" where
  "acts be n a f F \<longleftrightarrow> (\<forall>m obj d codes. n \<le> m \<longrightarrow> obj_ok be m a obj \<longrightarrow>
     obj_ok be m a (f obj) \<and> view be d codes (f obj) = F codes (view be d codes obj))"

lemma on_object_None:
  assumes "be_ok be" "sdb_inv be t" "length a = 20" "live be t a = None"
  shows "on_object be a f t = Panic"
proof -
  obtain r t1 where g: "getStateObject be a t = (r, t1)" by fastforce
  have "r = None" using getStateObject_spec(5)[OF assms(1-3) g] assms(4) by simp
  then show ?thesis using g by (simp add: on_object_def)
qed

lemma on_object_Some:
  assumes "be_ok be" "sdb_inv be t" "length a = 20" "live be t a = Some v" "acts be n a f F" "n \<le> length (s_codes t)"
  obtains s where "on_object be a f t = Ok s" "sdb_inv be s" "acct be s = (acct be t)(a \<mapsto> F (s_codes t) v)"
    "rest s = rest t" "s_codes s = s_codes t" "hist s = hist t" "s_dirties s = s_dirties t"
proof -
  obtain r t1 where g: "getStateObject be a t = (r, t1)" by fastforce
  note sp = getStateObject_spec[OF assms(1-3) g]
  obtain obj where r: "r = Some obj" and v: "v = view be (s_snapDestructs t) (s_codes t) obj"
    using sp(5) assms(4) by (cases r) auto
  note o = sp(6)[OF r]
  have f: "obj_ok be (length (s_codes t)) a (f obj)" "view be (s_snapDestructs t) (s_codes t) (f obj) = F (s_codes t) v"
    using assms(5,6) o v unfolding acts_def by blast+
  note p = put_same_acct[OF sp(1,3) f(1)]
  show ?thesis by (rule that[of "setStateObject (f obj) t1"]) (use g r p f sp in \<open>simp_all add: on_object_def\<close>)
qed

lemma on_object_mono:
  assumes eq: "same be t t'" and a: "length a = 20" and u: "on_object be a f t = Ok s"
    and F: "acts be (length (s_codes t)) a f F" "F (s_codes t') = F (s_codes t)"
  shows "\<exists>s'. on_object be a f t' = Ok s' \<and> same be s s'"
proof -
  have i: "be_ok be" "sdb_inv be t" "sdb_inv be t'" "acct be t' = acct be t" "rest t' = rest t" "code_prefix t t'"
    using eq by (simp_all add: same_def)
  obtain v where v: "live be t a = Some v" using on_object_None[OF i(1,2) a, of f] u by (cases "live be t a") auto
  then have v': "live be t' a = Some v" using i(4) by (simp add: live_def)
  have le: "length (s_codes t) \<le> length (s_codes t')" using code_prefix_length[OF i(6)] .
  obtain s1 where s1: "on_object be a f t = Ok s1" "sdb_inv be s1" "acct be s1 = (acct be t)(a \<mapsto> F (s_codes t) v)"
    "rest s1 = rest t" "s_codes s1 = s_codes t" by (rule on_object_Some[OF i(1,2) a v F(1) order_refl])
  obtain s2 where s2: "on_object be a f t' = Ok s2" "sdb_inv be s2" "acct be s2 = (acct be t')(a \<mapsto> F (s_codes t') v)"
    "rest s2 = rest t'" "s_codes s2 = s_codes t'" by (rule on_object_Some[OF i(1,3) a v' F(1) le])
  have "same be s1 s2" using i s1 s2 F(2) by (simp add: same_def code_prefix_def)
  then show ?thesis using s1(1) s2(1) u by simp
qed

lemma storage_val_upd [simp]:
  "storage_val be d (obj\<lparr>so_balance := x\<rparr>) = storage_val be d obj"
  "storage_val be d (obj\<lparr>so_nonce := n\<rparr>) = storage_val be d obj"
  "storage_val be d (obj\<lparr>so_suicided := b\<rparr>) = storage_val be d obj"
  "storage_val be d (obj\<lparr>so_code := c\<rparr>) = storage_val be d obj"
  "storage_val be d (so_setCode h c obj) = storage_val be d obj"
  "storage_val be d (so_setError e obj) = storage_val be d obj"
  "storage_val be d (so_setState k v obj) = (storage_val be d obj)(k := v)"
  by (simp_all add: fun_eq_iff storage_val_def trie_root_def so_setCode_def so_setState_def split: option.split)

lemma actsI:
  assumes ok: "\<And>m obj. n \<le> m \<Longrightarrow> obj_ok be m a obj \<Longrightarrow> obj_ok be m a (f obj)"
    and F: "\<And>obj d codes. F codes
     \<lparr>a_nonce = so_nonce obj, a_balance = so_balance obj, a_root = so_root obj, a_codeHash = so_codeHash obj,
      a_code = code_val be codes (be_keccak be a) (so_codeHash obj) (so_code obj),
      a_storage = storage_val be d obj, a_suicided = so_suicided obj, a_deleted = so_deleted obj\<rparr> =
     \<lparr>a_nonce = so_nonce (f obj), a_balance = so_balance (f obj), a_root = so_root (f obj), a_codeHash = so_codeHash (f obj),
      a_code = code_val be codes (be_keccak be a) (so_codeHash (f obj)) (so_code (f obj)),
      a_storage = storage_val be d (f obj), a_suicided = so_suicided (f obj), a_deleted = so_deleted (f obj)\<rparr>"
  shows "acts be n a f F"
  unfolding acts_def
proof (intro allI impI conjI)
  fix m obj d codes assume m: "n \<le> m" "obj_ok be m a obj"
  show "obj_ok be m a (f obj)" by (rule ok[OF m])
  show "view be d codes (f obj) = F codes (view be d codes obj)"
    unfolding view_ok[OF m(2)] view_ok[OF ok[OF m]] F ..
qed

lemma obj_ok_upd:
  "obj_ok be n a obj \<Longrightarrow> obj_ok be n a (obj\<lparr>so_balance := x\<rparr>)"
  "obj_ok be n a obj \<Longrightarrow> obj_ok be n a (obj\<lparr>so_nonce := m\<rparr>)"
  "obj_ok be n a obj \<Longrightarrow> obj_ok be n a (obj\<lparr>so_suicided := b\<rparr>)"
  "obj_ok be n a obj \<Longrightarrow> obj_ok be n a (so_setState k v obj)"
  "obj_ok be n a obj \<Longrightarrow> obj_ok be n a (so_setError e obj)"
  "obj_ok be n a obj \<Longrightarrow> length h = 32 \<Longrightarrow> (\<forall>i. c = Some i \<longrightarrow> i < n) \<Longrightarrow> obj_ok be n a (so_setCode h c obj)"
  by (auto simp: obj_ok_def trie_root_def so_setState_def so_setCode_def)

lemma acts_balance: "acts be n a (\<lambda>obj. obj\<lparr>so_balance := x\<rparr>) (\<lambda>_ v. v\<lparr>a_balance := x\<rparr>)"
  by (rule actsI) (simp_all add: obj_ok_upd)

lemma acts_nonce: "acts be n a (\<lambda>obj. obj\<lparr>so_nonce := x\<rparr>) (\<lambda>_ v. v\<lparr>a_nonce := x\<rparr>)"
  by (rule actsI) (simp_all add: obj_ok_upd)

lemma acts_suicide: "acts be n a (\<lambda>obj. obj\<lparr>so_suicided := b, so_balance := x\<rparr>) (\<lambda>_ v. v\<lparr>a_suicided := b, a_balance := x\<rparr>)"
  by (rule actsI) (simp_all add: obj_ok_upd)

lemma acts_setState: "acts be n a (so_setState k x) (\<lambda>_ v. v\<lparr>a_storage := (a_storage v)(k := x)\<rparr>)"
proof (rule actsI)
  show "obj_ok be m a (so_setState k x obj)" if "obj_ok be m a obj" for m obj using that by (rule obj_ok_upd)
qed (simp, simp add: so_setState_def)

lemma acts_setCode:
  assumes "length h = 32" "\<forall>i. c = Some i \<longrightarrow> i < n"
  shows "acts be n a (so_setCode h c) (\<lambda>codes v. v\<lparr>a_codeHash := h, a_code := code_val be codes (be_keccak be a) h c\<rparr>)"
proof (rule actsI)
  show "obj_ok be m a (so_setCode h c obj)" if "n \<le> m" "obj_ok be m a obj" for m obj
    using that(2) assms(1) by (rule obj_ok_upd) (use that(1) assms(2) in fastforce)
qed (simp, simp add: so_setCode_def)

lemma stored_destructs: "ah \<noteq> h \<Longrightarrow> insert h D = insert h D' \<Longrightarrow> stored be D ah = stored be D' ah"
  by (auto simp: stored_def fun_eq_iff)

lemma view_destructs:
  assumes "obj_ok be n b obj" "be_keccak be b \<noteq> h" "insert h D = insert h D'"
  shows "view be D codes obj = view be D' codes obj"
proof -
  have "so_addrHash obj \<noteq> h" using assms(1,2) by (simp add: obj_ok_def)
  from stored_destructs[OF this assms(3)] have "storage_val be D obj = storage_val be D' obj"
    by (simp add: storage_val_def fun_eq_iff split: option.split)
  then show ?thesis by (simp add: view_ok[OF assms(1)])
qed

lemma acct_destructs:
  assumes "be_ok be" "sdb_inv be st" "length a = 20" "insert (be_keccak be a) D = insert (be_keccak be a) (s_snapDestructs st)" "b \<noteq> a"
  shows "acct be (st\<lparr>s_snapDestructs := D\<rparr>) b = acct be st b"
proof (cases "length b = 20")
  case True
  then have k: "be_keccak be b \<noteq> be_keccak be a" using assms(1,3,5) unfolding be_ok_def by blast
  show ?thesis
  proof (cases "s_objs st b")
    case None
    have "view be D (s_codes st) (newObject be b d) = view be (s_snapDestructs st) (s_codes st) (newObject be b d)"
      if "loadAccount be b = Some d" for d
      using view_destructs[OF obj_ok_new[OF assms(1) True] k assms(4)] that by blast
    then show ?thesis using None by (cases "loadAccount be b") (simp_all add: acct_def)
  next
    case (Some obj)
    then show ?thesis using view_destructs[OF inv_obj[OF assms(2) Some] k assms(4)] by (simp add: acct_def)
  qed
qed (simp add: acct_def)

lemma revert_rest_mono:
  assumes "same be t t'"
  shows "same be (t\<lparr>s_refund := r\<rparr>) (t'\<lparr>s_refund := r\<rparr>)"
    "same be (t\<lparr>s_logs := l, s_logSize := n\<rparr>) (t'\<lparr>s_logs := l, s_logSize := n\<rparr>)"
    "same be (t\<lparr>s_preimages := p\<rparr>) (t'\<lparr>s_preimages := p\<rparr>)"
    "same be (t\<lparr>s_accessList := al\<rparr>) (t'\<lparr>s_accessList := al\<rparr>)"
proof -
  have "acct be (t\<lparr>s_refund := r\<rparr>) = acct be t" "acct be (t\<lparr>s_logs := l, s_logSize := n\<rparr>) = acct be t"
    "acct be (t\<lparr>s_preimages := p\<rparr>) = acct be t" "acct be (t\<lparr>s_accessList := al\<rparr>) = acct be t" for t
    by (rule acct_cong; simp)+
  then show "same be (t\<lparr>s_refund := r\<rparr>) (t'\<lparr>s_refund := r\<rparr>)"
    "same be (t\<lparr>s_logs := l, s_logSize := n\<rparr>) (t'\<lparr>s_logs := l, s_logSize := n\<rparr>)"
    "same be (t\<lparr>s_preimages := p\<rparr>) (t'\<lparr>s_preimages := p\<rparr>)"
    "same be (t\<lparr>s_accessList := al\<rparr>) (t'\<lparr>s_accessList := al\<rparr>)"
    using assms by (simp_all add: same_def sdb_inv_def rest_def code_prefix_def)
qed

definition fresh_acct :: "backend \<Rightarrow> hash set \<Rightarrow> address \<Rightarrow> account option" where
  "fresh_acct be d a = (if length a = 20 then map_option (\<lambda>x. view be d [] (newObject be a x)) (loadAccount be a) else None)"

lemma view_new_codes: "view be d codes (newObject be a x) = view be d [] (newObject be a x)"
  by (simp add: view_def newObject_def code_val_def)

lemma acct_forget:
  "acct be (st\<lparr>s_objs := (s_objs st)(a := None), s_dirty := X\<rparr>) = (acct be st)(a := fresh_acct be (s_snapDestructs st) a)"
proof
  fix b
  show "acct be (st\<lparr>s_objs := (s_objs st)(a := None), s_dirty := X\<rparr>) b = ((acct be st)(a := fresh_acct be (s_snapDestructs st) a)) b"
    by (cases "loadAccount be b"; cases "s_objs st b")
      (auto simp: acct_def fresh_acct_def view_new_codes[of be _ "s_codes st"])
qed

lemma revert_create_mono:
  assumes "same be t t'" "revert be (createObjectChange a) t = Ok s"
  shows "\<exists>s'. revert be (createObjectChange a) t' = Ok s' \<and> same be s s'"
proof -
  have "s_snapDestructs t' = s_snapDestructs t" using assms(1) by (simp add: same_def rest_def)
  then show ?thesis using assms by (auto simp: same_def acct_forget sdb_inv_def rest_def code_prefix_def split: if_splits)
qed

definition unreset :: "backend \<Rightarrow> stateObject \<Rightarrow> bool \<Rightarrow> hash set \<Rightarrow> hash set" where
  "unreset be p pd D = (if \<not> pd \<and> be_snap be then D - {so_addrHash p} else D)"

lemma revert_reset:
  assumes "be_ok be" "sdb_inv be t" "obj_ok be (length (s_codes t)) a p" "revert be (resetObjectChange p pd) t = Ok s"
  shows "sdb_inv be s" "rest s = rest (t\<lparr>s_snapDestructs := unreset be p pd (s_snapDestructs t)\<rparr>)" "s_codes s = s_codes t"
    "acct be s = (acct be t)(a \<mapsto> view be (unreset be p pd (s_snapDestructs t)) (s_codes t) p)"
proof -
  let ?D = "unreset be p pd (s_snapDestructs t)"
  have s: "s = (setStateObject p t)\<lparr>s_snapDestructs := ?D\<rparr>" using assms(4) by (auto simp: unreset_def Let_def)
  have i: "sdb_inv be (setStateObject p t)" by (rule put_inv[OF assms(2,3)])
  have a: "length a = 20" "so_addrHash p = be_keccak be a" "so_address p = a" using assms(3) by (simp_all add: obj_ok_def)
  show "sdb_inv be s" using i s by (simp add: sdb_inv_def)
  show "rest s = rest (t\<lparr>s_snapDestructs := ?D\<rparr>)" "s_codes s = s_codes t" unfolding s by (simp_all add: rest_def setStateObject_def)
  have D: "insert (be_keccak be a) ?D = insert (be_keccak be a) (s_snapDestructs (setStateObject p t))"
    using a(2) by (auto simp: unreset_def)
  show "acct be s = (acct be t)(a \<mapsto> view be ?D (s_codes t) p)"
  proof
    fix b
    show "acct be s b = ((acct be t)(a \<mapsto> view be ?D (s_codes t) p)) b"
    proof (cases "b = a")
      case True
      then show ?thesis using a unfolding s by (simp add: acct_def)
    next
      case False
      then show ?thesis using acct_destructs[OF assms(1) i a(1) D False] acct_put[OF assms(3), of t] unfolding s by simp
    qed
  qed
qed

lemma revert_reset_mono:
  assumes "same be t t'" "obj_ok be (length (s_codes t)) (so_address p) p" "revert be (resetObjectChange p pd) t = Ok s"
  shows "\<exists>s'. revert be (resetObjectChange p pd) t' = Ok s' \<and> same be s s'"
proof -
  have i: "be_ok be" "sdb_inv be t" "sdb_inv be t'" "acct be t' = acct be t" "rest t' = rest t" "code_prefix t t'"
    using assms(1) by (simp_all add: same_def)
  obtain s' where s': "revert be (resetObjectChange p pd) t' = Ok s'" by (simp add: Let_def)
  have ok': "obj_ok be (length (s_codes t')) (so_address p) p" by (rule obj_ok_mono[OF assms(2) code_prefix_length[OF i(6)]])
  note r = revert_reset[OF i(1,2) assms(2,3)] and r' = revert_reset[OF i(1,3) ok' s']
  have D: "s_snapDestructs t' = s_snapDestructs t" using i(5) by (rule rest_destructs)
  have "same be s s'" unfolding same_def
    using i r r' D view_prefix[OF assms(2) i(6)] by (simp add: rest_def code_prefix_def)
  then show ?thesis using s' by blast
qed

lemma revert_suicide_on_object:
  assumes "live be st a = Some x" "be_ok be" "sdb_inv be st" "length a = 20"
  shows "revert be (suicideChange a p b) st = on_object be a (\<lambda>obj. obj\<lparr>so_suicided := p, so_balance := b\<rparr>) st"
proof -
  obtain r st1 where g: "getStateObject be a st = (r, st1)" by fastforce
  from getStateObject_spec(5)[OF assms(2,3,4) g] assms(1) obtain obj where "r = Some obj" by (cases r) auto
  then show ?thesis by (simp add: g on_object_def)
qed

lemma revert_suicide_mono:
  assumes eq: "same be t t'" and a: "length a = 20" and u: "revert be (suicideChange a p b) t = Ok s"
  shows "\<exists>s'. revert be (suicideChange a p b) t' = Ok s' \<and> same be s s'"
proof -
  have i: "be_ok be" "sdb_inv be t" "sdb_inv be t'" "acct be t' = acct be t" using eq by (simp_all add: same_def)
  have l: "live be t' a = live be t a" using i(4) by (simp add: live_def)
  show ?thesis
  proof (cases "live be t a")
    case None
    obtain r t1 where g: "getStateObject be a t = (r, t1)" by fastforce
    obtain r' t1' where g': "getStateObject be a t' = (r', t1')" by fastforce
    note sp = getStateObject_spec[OF i(1,2) a g] and sp' = getStateObject_spec[OF i(1,3) a g']
    have "r = None" "r' = None" using sp(5) sp'(5) None l by simp_all
    moreover have "same be t1 t1'"
      using eq sp(1,3) sp'(1,3) unfolding same_def code_prefix_def by auto
    ultimately show ?thesis using g g' u by simp
  next
    case (Some x)
    then have x': "live be t' a = Some x" using l by simp
    show ?thesis using on_object_mono[OF eq a _ acts_suicide[where b = p and x = b]] u
      unfolding revert_suicide_on_object[OF Some i(1,2) a] revert_suicide_on_object[OF x' i(1,3) a] by simp
  qed
qed

lemma undo_mono:
  assumes eq: "same be t t'" and ok: "entry_ok be (length (s_codes t)) e" and u: "undo be e t = Ok s"
  shows "\<exists>s'. undo be e t' = Ok s' \<and> same be s s'"
proof -
  from u obtain v where v: "revert be e t = Ok v" "s = undirty e v" by (auto simp: undo_def rbind_eq_Ok)
  have r: "rest t' = rest t" "code_prefix t t'" using eq by (simp_all add: same_def)
  then have f: "s_accessList t' = s_accessList t" "s_logs t' = s_logs t" "s_logSize t' = s_logSize t"
    "s_preimages t' = s_preimages t" by (simp_all add: rest_def)
  have "\<exists>v'. revert be e t' = Ok v' \<and> same be v v'"
  proof (cases e)
    case (createObjectChange a)
    then show ?thesis using revert_create_mono[OF eq] v(1) by blast
  next
    case (resetObjectChange p pd)
    then show ?thesis using revert_reset_mono[OF eq] ok v(1) by simp
  next
    case (suicideChange a p b)
    then show ?thesis using revert_suicide_mono[OF eq] ok v(1) by simp
  next
    case (balanceChange a p)
    then show ?thesis using on_object_mono[OF eq _ _ acts_balance] ok v(1) by simp
  next
    case (nonceChange a p)
    then show ?thesis using on_object_mono[OF eq _ _ acts_nonce] ok v(1) by simp
  next
    case (storageChange a k p)
    then show ?thesis using on_object_mono[OF eq _ _ acts_setState] ok v(1) by simp
  next
    case (codeChange a c h)
    then have k: "length a = 20" "length h = 32" "\<forall>i. c = Some i \<longrightarrow> i < length (s_codes t)" using ok by simp_all
    then show ?thesis
      using on_object_mono[OF eq k(1) _ acts_setCode, of h c v] v(1) codeChange code_val_prefix[OF r(2) k(3)] by simp
  next
    case (addLogChange h)
    then show ?thesis using v(1) f revert_rest_mono(2)[OF eq] by (auto simp: Let_def split: if_splits)
  next
    case (accessListAddSlotChange a k)
    then show ?thesis using v(1) f revert_rest_mono(4)[OF eq] by (auto simp: rbind_eq_Ok)
  qed (use v(1) f revert_rest_mono[OF eq] eq in auto)
  then show ?thesis using v by (auto simp: undo_def)
qed

lemma getStateObject_codes: "getStateObject be a st = (r, st1) \<Longrightarrow> s_codes st1 = s_codes st"
  by (auto simp: getStateObject_def getDeletedStateObject_def Let_def split: option.splits prod.splits if_splits)

lemma revert_codes: "revert be e st = Ok s \<Longrightarrow> s_codes s = s_codes st"
  by (cases e) (auto simp: on_object_def Let_def rbind_eq_Ok dest: getStateObject_codes split: option.splits prod.splits if_splits)

interpretation sdb: journaled "same be" "undo be" "undo_all be" "\<lambda>t e. entry_ok be (length (s_codes t)) e"
  rest_ok for be
proof unfold_locales
  show "same be a b \<Longrightarrow> same be b c \<Longrightarrow> same be a c" for a b c by (rule same_trans)
  show "entry_ok be (length (s_codes t)) f \<Longrightarrow> undo be e t = Ok s \<Longrightarrow> entry_ok be (length (s_codes s)) f" for t f e s
    using revert_codes by (auto simp: undo_def rbind_eq_Ok)
  show "same be t t' \<Longrightarrow> entry_ok be (length (s_codes t)) e \<Longrightarrow> undo be e t = Ok s \<Longrightarrow>
      \<exists>s'. undo be e t' = Ok s' \<and> same be s s'" for t t' e s by (rule undo_mono)
  show "same be t t' \<Longrightarrow> rest_ok t \<Longrightarrow> rest_ok t'" for t t' by (simp add: same_def rest_ok_def)
qed simp_all

end
