(* ===== verification/Statedb_Ops.thy ===== *)
theory Statedb_Ops
  imports Statedb_Correct
begin

text \<open>
  What each operation of the account state does to the accounts it represents, and that the
  journal entries it writes lead back to the state before it. Snapshots and reverts of any
  nesting restore the accounts, logs, refunds, preimages and access list.
\<close>

section \<open>Journalled steps\<close>

definition sdb_wf :: "backend \<Rightarrow> StateDB \<Rightarrow> bool" where
  "sdb_wf be st \<longleftrightarrow> be_ok be \<and> sdb_inv be st \<and> rest_ok st"

definition step :: "backend \<Rightarrow> StateDB \<Rightarrow> journalEntry list \<Rightarrow> StateDB \<Rightarrow> bool" where
  "step be st es st1 \<longleftrightarrow> sdb_wf be st1 \<and> s_entries st1 = s_entries st @ es \<and>
     s_validRevisions st1 = s_validRevisions st \<and> s_nextRevisionId st1 = s_nextRevisionId st \<and>
     code_prefix st st1 \<and> (\<forall>e\<in>set es. entry_ok be (length (s_codes st1)) e) \<and> sdb.undone be st (rev es) st1"

lemma rest_ok_rest: "rest st = rest st' \<Longrightarrow> rest_ok st = rest_ok st'"
  by (simp add: rest_ok_def)

lemma rest_ok_put [simp]: "rest_ok (setStateObject obj st) = rest_ok st"
  by (rule rest_ok_rest) simp

lemma step_trans:
  assumes "step be st es st1" "step be st1 fs st2"
  shows "step be st (es @ fs) st2"
proof -
  have "length (s_codes st1) \<le> length (s_codes st2)" using assms(2) code_prefix_length by (simp add: step_def)
  then have "\<forall>e\<in>set es. entry_ok be (length (s_codes st2)) e" using assms(1) entry_ok_mono unfolding step_def by blast
  moreover have "sdb.undone be st (rev fs @ rev es) st2"
    using assms by (intro sdb.undone_append[where t = st1]) (auto simp: step_def)
  ultimately show ?thesis using assms code_prefix_trans by (auto simp: step_def)
qed

lemma step_same:
  assumes "same be st st1" "hist st1 = hist st" "sdb_wf be st"
  shows "step be st [] st1"
  using assms by (auto simp: step_def same_def hist_def sdb_wf_def rest_ok_def)

lemma wf_same: "sdb_wf be st \<Longrightarrow> same be st st1 \<Longrightarrow> sdb_wf be st1"
  by (simp add: sdb_wf_def same_def rest_ok_def)

lemma append_sel [simp]:
  "s_objs (journal_append e st) = s_objs st" "s_codes (journal_append e st) = s_codes st"
  "s_snapDestructs (journal_append e st) = s_snapDestructs st" "rest (journal_append e st) = rest st"
  "s_entries (journal_append e st) = s_entries st @ [e]" "s_accessList (journal_append e st) = s_accessList st"
  "s_validRevisions (journal_append e st) = s_validRevisions st"
  "s_nextRevisionId (journal_append e st) = s_nextRevisionId st"
  "s_thash (journal_append e st) = s_thash st" "s_txIndex (journal_append e st) = s_txIndex st"
  "s_refund (journal_append e st) = s_refund st" "s_logs (journal_append e st) = s_logs st"
  "s_logSize (journal_append e st) = s_logSize st" "s_preimages (journal_append e st) = s_preimages st"
  by (simp_all add: journal_append_def journal_dirty_def rest_def Let_def split: option.split)

lemma dirty_sel [simp]:
  "s_objs (journal_dirty a st) = s_objs st" "s_codes (journal_dirty a st) = s_codes st"
  "s_snapDestructs (journal_dirty a st) = s_snapDestructs st" "rest (journal_dirty a st) = rest st"
  "s_entries (journal_dirty a st) = s_entries st" "s_accessList (journal_dirty a st) = s_accessList st"
  "s_validRevisions (journal_dirty a st) = s_validRevisions st"
  "s_nextRevisionId (journal_dirty a st) = s_nextRevisionId st"
  by (simp_all add: journal_dirty_def rest_def)

lemma acct_append [simp]: "acct be (journal_append e st) = acct be st" "acct be (journal_dirty a st) = acct be st"
  by (rule acct_cong; simp)+

lemma rest_ok_append [simp]: "rest_ok (journal_append e st) = rest_ok st" "rest_ok (journal_dirty a st) = rest_ok st"
  by (rule rest_ok_rest; simp)+

lemma inv_append [simp]: "sdb_inv be (journal_append e st) = sdb_inv be st" "sdb_inv be (journal_dirty a st) = sdb_inv be st"
  by (simp_all add: sdb_inv_def)

lemma step_one:
  assumes "sdb_wf be st" "sdb_wf be st1" "s_entries st1 = s_entries st @ [e]" "s_validRevisions st1 = s_validRevisions st"
    "s_nextRevisionId st1 = s_nextRevisionId st" "s_codes st1 = s_codes st" "entry_ok be (length (s_codes st)) e"
    "revert be e st1 = Ok u" "sdb_inv be u" "acct be u = acct be st" "rest u = rest st"
  shows "step be st [e] st1"
proof -
  have "s_codes u = s_codes st" using revert_codes[OF assms(8)] assms(6) by simp
  then have "same be st (undirty e u)" using assms by (simp add: same_def sdb_wf_def code_prefix_def sdb_inv_def)
  moreover have "undo be e st1 = Ok (undirty e u)" using assms(8) by (simp add: undo_def)
  moreover have "rest_ok (undirty e u)" using assms(1,11) by (simp add: sdb_wf_def rest_ok_def)
  ultimately show ?thesis using assms by (simp add: step_def code_prefix_def)
qed

section \<open>Changing a live object\<close>

lemma object_change:
  assumes wf: "sdb_wf be st" and a: "length a = 20" and o: "s_objs st a = Some obj" "\<not> so_deleted obj"
    and ok: "obj_ok be (length (s_codes st)) a obj'" and d: "\<not> so_deleted obj'"
    and g: "acts be (length (s_codes st)) a g G"
    and undo: "G (s_codes st) (view be (s_snapDestructs st) (s_codes st) obj') = view be (s_snapDestructs st) (s_codes st) obj"
    and e: "entry_ok be (length (s_codes st)) e"
    and rv: "\<forall>t x. live be t a = Some x \<longrightarrow> be_ok be \<longrightarrow> sdb_inv be t \<longrightarrow> revert be e t = on_object be a g t"
  shows "step be st [e] (setStateObject obj' (journal_append e st))"
    "acct be (setStateObject obj' (journal_append e st)) =
       (acct be st)(a \<mapsto> view be (s_snapDestructs st) (s_codes st) obj')"
    "s_objs (setStateObject obj' (journal_append e st)) a = Some obj'"
    "rest (setStateObject obj' (journal_append e st)) = rest st"
proof -
  let ?t = "setStateObject obj' (journal_append e st)" and ?v = "view be (s_snapDestructs st) (s_codes st)"
  have b: "be_ok be" "sdb_inv be st" "rest_ok st" using wf by (simp_all add: sdb_wf_def)
  show A: "acct be ?t = (acct be st)(a \<mapsto> ?v obj')" using acct_put[OF ok, of "journal_append e st"] by simp
  show "rest ?t = rest st" by simp
  show "s_objs ?t a = Some obj'" using ok by (simp add: obj_ok_def)
  have i: "sdb_inv be ?t" using put_inv[of be "journal_append e st" a obj'] b(2) ok by simp
  have l: "live be ?t a = Some (?v obj')" using A d by (simp add: live_def)
  obtain u where u: "on_object be a g ?t = Ok u" "sdb_inv be u" "acct be u = (acct be ?t)(a \<mapsto> G (s_codes ?t) (?v obj'))"
    "rest u = rest ?t" by (rule on_object_Some[OF b(1) i a l g]) simp
  have "acct be st a = Some (?v obj)" using a o by (simp add: acct_def)
  then have "acct be u = acct be st" using u(3) A undo by (simp add: fun_upd_idem)
  moreover have "revert be e ?t = Ok u" using rv l b(1) i u(1) by simp
  moreover have "sdb_wf be ?t" using b i by (simp add: sdb_wf_def)
  ultimately show "step be st [e] ?t" using u e wf by (intro step_one[where u = u]) simp_all
qed

section \<open>Creating objects\<close>

definition new_account :: "backend \<Rightarrow> hash set \<Rightarrow> address \<Rightarrow> account" where
  "new_account be D a = view be D [] (newObject be a emptyAccount)"

text \<open>The addresses whose stored slots are masked once \<open>a\<close> is created over an existing account.\<close>

definition masked :: "backend \<Rightarrow> StateDB \<Rightarrow> address \<Rightarrow> hash set" where
  "masked be st a = (if be_snap be \<and> acct be st a \<noteq> None then insert (be_keccak be a) (s_snapDestructs st) else s_snapDestructs st)"

lemma new_account_sel [simp]:
  "a_nonce (new_account be D a) = 0" "a_balance (new_account be D a) = 0" "a_code (new_account be D a) = []"
  "a_codeHash (new_account be D a) = emptyCodeHash be" "\<not> a_deleted (new_account be D a)" "\<not> a_suicided (new_account be D a)"
  by (simp_all add: new_account_def newObject_def emptyAccount_def code_val_def)

definition with_destructs :: "hash set \<Rightarrow> StateDB \<Rightarrow> StateDB" where
  "with_destructs D st = st\<lparr>s_snapDestructs := D\<rparr>"

lemma with_destructs_sel [simp]:
  "s_objs (with_destructs D st) = s_objs st" "s_codes (with_destructs D st) = s_codes st"
  "s_snapDestructs (with_destructs D st) = D" "s_entries (with_destructs D st) = s_entries st"
  "s_accessList (with_destructs D st) = s_accessList st" "s_validRevisions (with_destructs D st) = s_validRevisions st"
  "s_nextRevisionId (with_destructs D st) = s_nextRevisionId st" "sdb_inv be (with_destructs D st) = sdb_inv be st"
  by (simp_all add: with_destructs_def sdb_inv_def)

lemma rest_ok_with_destructs [simp]: "rest_ok (with_destructs D st) = rest_ok st"
  by (simp add: rest_ok_def rest_def with_destructs_def)

lemma rest_with_destructs [simp]: "rest (with_destructs D st) = rest st \<longleftrightarrow> D = s_snapDestructs st"
  "rest (with_destructs D st) = rest (with_destructs D st') \<longleftrightarrow>
     rest (with_destructs {} st) = rest (with_destructs {} st')"
  by (auto simp: rest_def with_destructs_def)

lemma with_destructs_id [simp]: "with_destructs (s_snapDestructs st) st = st"
  by (simp add: with_destructs_def)

lemma createObject_eq:
  "createObject be a st =
     (case getDeletedStateObject be a st of (prev, st1) \<Rightarrow>
       (let newobj = newObject be a emptyAccount in
        case prev of
          None \<Rightarrow> ((newobj, None), setStateObject newobj (journal_append (createObjectChange a) st1))
        | Some p \<Rightarrow>
           ((newobj, if \<not> so_deleted p then Some p else None),
            setStateObject newobj (journal_append (resetObjectChange p (be_snap be \<and> so_addrHash p \<in> s_snapDestructs st1))
              (with_destructs (if be_snap be then insert (so_addrHash p) (s_snapDestructs st1) else s_snapDestructs st1) st1)))))"
  by (auto simp: createObject_def Let_def with_destructs_def insert_absorb split: prod.split option.split)

lemma createObject_absent:
  assumes wf: "sdb_wf be st" and a: "length a = 20" and n: "s_objs st a = None" "loadAccount be a = None"
    and st1: "st1 = setStateObject (newObject be a emptyAccount) (journal_append (createObjectChange a) st)"
  shows "step be st [createObjectChange a] st1"
    "acct be st1 = (acct be st)(a \<mapsto> new_account be (s_snapDestructs st) a)" "rest st1 = rest st"
    "s_objs st1 a = Some (newObject be a emptyAccount)"
proof -
  let ?o = "newObject be a emptyAccount" and ?e = "createObjectChange a"
  have b: "be_ok be" "sdb_inv be st" "rest_ok st" using wf by (simp_all add: sdb_wf_def)
  have ok: "obj_ok be m a ?o" for m using obj_ok_new[OF b(1) a] by blast
  show A: "acct be st1 = (acct be st)(a \<mapsto> new_account be (s_snapDestructs st) a)"
    using acct_put[OF ok, of "journal_append ?e st"] by (simp add: st1 new_account_def view_new_codes[of be _ "s_codes st"])
  show r: "rest st1 = rest st" by (simp add: st1)
  have ad: "so_address ?o = a" by (simp add: newObject_def)
  then show "s_objs st1 a = Some ?o" by (simp add: st1)
  have i: "sdb_inv be st1" using put_inv[of be "journal_append ?e st" a ?o] ok b(2) by (simp add: st1)
  obtain u where u: "revert be ?e st1 = Ok u" "u = st1\<lparr>s_objs := (s_objs st1)(a := None), s_dirty := s_dirty st1 - {a}\<rparr>" by simp
  have D: "s_snapDestructs st1 = s_snapDestructs st" by (simp add: st1)
  have "acct be u = (acct be st)(a := fresh_acct be (s_snapDestructs st) a)"
    unfolding u(2) acct_forget A D by simp
  moreover have "acct be st a = None" "fresh_acct be (s_snapDestructs st) a = None" using n by (simp_all add: acct_def fresh_acct_def)
  ultimately have ac: "acct be u = acct be st" by (simp add: fun_upd_idem)
  have iu: "sdb_inv be u" using i unfolding u(2) by (auto simp: sdb_inv_def split: if_splits)
  have ru: "rest u = rest st" unfolding u(2) using r by (simp add: rest_def)
  have w1: "sdb_wf be st1" using b i by (simp add: sdb_wf_def st1)
  show "step be st [?e] st1"
    by (rule step_one[OF wf w1 _ _ _ _ _ u(1) iu ac ru]) (simp_all add: st1 a)
qed

lemma createObject_present:
  assumes wf: "sdb_wf be st" and a: "length a = 20" and p: "s_objs st a = Some p"
    and D: "D = (if be_snap be then insert (so_addrHash p) (s_snapDestructs st) else s_snapDestructs st)"
    and e: "e = resetObjectChange p (be_snap be \<and> so_addrHash p \<in> s_snapDestructs st)"
    and ok: "obj_ok be (length (s_codes st)) a o'"
    and st1: "st1 = setStateObject o' (journal_append e (with_destructs D st))"
  shows "step be st [e] st1" "acct be st1 = (acct be st)(a \<mapsto> view be D (s_codes st) o')" "rest st1 = rest (with_destructs D st)"
    "s_objs st1 a = Some o'"
proof -
  let ?k = "be_keccak be a"
  have b: "be_ok be" "sdb_inv be st" "rest_ok st" using wf by (simp_all add: sdb_wf_def)
  have okp: "obj_ok be (length (s_codes st)) a p" by (rule inv_obj[OF b(2) p])
  then have h: "so_addrHash p = ?k" "so_address p = a" by (simp_all add: obj_ok_def)
  have DD: "insert ?k D = insert ?k (s_snapDestructs st)" using D h by auto
  have ad: "acct be (with_destructs D st) b = acct be st b" if "b \<noteq> a" for b
    using acct_destructs[OF b(1,2) a DD that] by (simp add: with_destructs_def)
  have A0: "acct be st1 = (acct be (with_destructs D st))(a \<mapsto> view be D (s_codes st) o')"
    using acct_put[OF ok, of "journal_append e (with_destructs D st)"] by (simp add: st1)
  then show A: "acct be st1 = (acct be st)(a \<mapsto> view be D (s_codes st) o')" using ad by (auto simp: fun_eq_iff)
  show r: "rest st1 = rest (with_destructs D st)" by (simp add: st1)
  show "s_objs st1 a = Some o'" using ok by (simp add: st1 obj_ok_def)
  have i: "sdb_inv be st1" using put_inv[of be "journal_append e (with_destructs D st)" a o'] ok b(2) by (simp add: st1)
  have c: "s_codes st1 = s_codes st" "s_snapDestructs st1 = D" by (simp_all add: st1)
  obtain u where u: "revert be e st1 = Ok u" by (simp add: e Let_def)
  have okp1: "obj_ok be (length (s_codes st1)) a p" using okp c by simp
  note R = revert_reset[OF b(1) i okp1 u[unfolded e]]
  have un: "unreset be p (be_snap be \<and> so_addrHash p \<in> s_snapDestructs st) D = s_snapDestructs st"
    unfolding D by (auto simp: unreset_def)
  have "acct be st a = Some (view be (s_snapDestructs st) (s_codes st) p)" using a p by (simp add: acct_def)
  then have ac: "acct be u = acct be st" using R(4) A c un by (simp add: fun_upd_idem)
  have ru: "rest u = rest st" using R(2) r c un by (simp add: rest_def with_destructs_def)
  have w1: "sdb_wf be st1" using b i by (simp add: sdb_wf_def st1)
  show "step be st [e] st1"
    by (rule step_one[OF wf w1 _ _ _ _ _ u R(1) ac ru]) (use okp h in \<open>simp_all add: st1 e\<close>)
qed

lemma wf_parts: "sdb_wf be st \<Longrightarrow> be_ok be \<and> sdb_inv be st \<and> rest_ok st"
  by (simp add: sdb_wf_def)

lemma createObject_spec:
  assumes wf: "sdb_wf be st" and a: "length a = 20" and c: "createObject be a st = ((obj, prev), st1)"
  obtains es where "step be st es st1" "s_objs st1 a = Some obj" "\<not> so_deleted obj" "s_codes st1 = s_codes st"
    "acct be st1 = (acct be st)(a \<mapsto> new_account be (masked be st a) a)"
    "rest st1 = rest (with_destructs (masked be st a) st)"
    "map_option (view be (s_snapDestructs st) (s_codes st)) prev = live be st a"
proof -
  note b = wf_parts[OF wf]
  obtain r s0 where g: "getDeletedStateObject be a st = (r, s0)" by fastforce
  note sp = getDeleted_spec[OF conjunct1[OF b] _ a g]
  have sp: "same be st s0" "hist s0 = hist st" "s_objs s0 a = r" "s_codes s0 = s_codes st"
    "acct be st a = map_option (view be (s_snapDestructs st) (s_codes st)) r" using sp b by blast+
  have wf0: "sdb_wf be s0" by (rule wf_same[OF wf sp(1)])
  have eq: "acct be s0 = acct be st" "rest s0 = rest st" "s_snapDestructs s0 = s_snapDestructs st"
    using sp(1) by (simp_all add: same_def rest_def)
  have s0: "step be st [] s0" by (rule step_same[OF sp(1,2) wf])
  have nd: "\<not> so_deleted (newObject be a emptyAccount)" by (simp add: newObject_def)
  have rd: "rest (with_destructs D s0) = rest (with_destructs D st)" for D using eq(2) by (auto simp: rest_def with_destructs_def)
  show thesis
  proof (cases r)
    case None
    have l: "loadAccount be a = None"
    proof (rule ccontr)
      assume "loadAccount be a \<noteq> None"
      then show False using sp(3,5) None a by (auto simp: acct_def split: option.splits)
    qed
    have c1: "obj = newObject be a emptyAccount" "prev = None"
        "st1 = setStateObject (newObject be a emptyAccount) (journal_append (createObjectChange a) s0)"
      using c g None by (auto simp: createObject_eq Let_def)
    have m: "masked be st a = s_snapDestructs st" using sp(5) None by (simp add: masked_def)
    have "s_objs s0 a = None" using sp(3) None by simp
    note n = createObject_absent[OF wf0 a this l c1(3)]
    have A: "acct be st1 = (acct be st)(a \<mapsto> new_account be (masked be st a) a)" using n(2) eq(1,3) m by simp
    have R: "rest st1 = rest (with_destructs (masked be st a) st)" using n(3) eq(2) m by simp
    have L: "map_option (view be (s_snapDestructs st) (s_codes st)) prev = live be st a"
      using sp(5) None c1(2) by (simp add: live_def)
    have C: "s_objs st1 a = Some obj" "\<not> so_deleted obj" using n(4) nd unfolding c1(1) by blast+
    have C3: "s_codes st1 = s_codes st" unfolding c1(3) using sp(4) by simp
    show thesis by (rule that[OF step_trans[OF s0 n(1)] C C3 A R L])
  next
    case (Some p)
    let ?D = "if be_snap be then insert (so_addrHash p) (s_snapDestructs s0) else s_snapDestructs s0"
    let ?e = "resetObjectChange p (be_snap be \<and> so_addrHash p \<in> s_snapDestructs s0)"
    have c1: "obj = newObject be a emptyAccount" "prev = (if \<not> so_deleted p then Some p else None)"
        "st1 = setStateObject (newObject be a emptyAccount) (journal_append ?e (with_destructs ?D s0))"
      using c g Some by (auto simp: createObject_eq Let_def)
    have p: "s_objs s0 a = Some p" using sp(3) Some by simp
    have "so_addrHash p = be_keccak be a" using inv_obj[OF _ p] wf_parts[OF wf0] by (auto simp: obj_ok_def)
    then have m: "masked be st a = ?D" using sp(5) Some eq by (simp add: masked_def)
    have ok: "obj_ok be (length (s_codes s0)) a (newObject be a emptyAccount)" using obj_ok_new[OF conjunct1[OF b] a] by blast
    note n = createObject_present[OF wf0 a p refl refl ok c1(3)]
    have A: "acct be st1 = (acct be st)(a \<mapsto> new_account be (masked be st a) a)"
      using n(2) eq(1) m by (simp add: new_account_def view_new_codes[of be _ "s_codes s0"])
    have R: "rest st1 = rest (with_destructs (masked be st a) st)" unfolding m n(3) by (rule rd)
    have L: "map_option (view be (s_snapDestructs st) (s_codes st)) prev = live be st a"
      using sp(5) Some c1(2) by (simp add: live_def)
    have C: "s_objs st1 a = Some obj" "\<not> so_deleted obj" using n(4) nd unfolding c1(1) by blast+
    have C3: "s_codes st1 = s_codes st" unfolding c1(3) using sp(4) by simp
    have S: "step be st ([] @ [?e]) st1" by (rule step_trans[OF s0 n(1)])
    show thesis by (rule that[OF S C C3 A R L])
  qed
qed

definition base :: "backend \<Rightarrow> StateDB \<Rightarrow> address \<Rightarrow> account" where
  "base be st a = (case live be st a of Some v \<Rightarrow> v | None \<Rightarrow> new_account be (masked be st a) a)"

definition base_destructs :: "backend \<Rightarrow> StateDB \<Rightarrow> address \<Rightarrow> hash set" where
  "base_destructs be st a = (if live be st a = None then masked be st a else s_snapDestructs st)"

lemma base_live [simp]: "\<not> a_deleted (base be st a)"
  by (auto simp: base_def live_def split: option.splits if_splits)

lemma GetOrNew_spec:
  assumes wf: "sdb_wf be st" and a: "length a = 20" and g: "GetOrNewStateObject be a st = (obj, st1)"
  obtains es where "step be st es st1" "s_objs st1 a = Some obj" "\<not> so_deleted obj" "s_codes st1 = s_codes st"
    "acct be st1 = (acct be st)(a \<mapsto> base be st a)" "rest st1 = rest (with_destructs (base_destructs be st a) st)"
    "view be (s_snapDestructs st1) (s_codes st1) obj = base be st a" "obj_ok be (length (s_codes st)) a obj"
proof -
  note b = wf_parts[OF wf]
  obtain r s0 where s: "getStateObject be a st = (r, s0)" by fastforce
  note sp = getStateObject_spec[OF conjunct1[OF b] conjunct1[OF conjunct2[OF b]] a s]
  have wf0: "sdb_wf be s0" by (rule wf_same[OF wf sp(1)])
  have eq: "acct be s0 = acct be st" "rest s0 = rest st" "s_snapDestructs s0 = s_snapDestructs st"
    using sp(1) by (simp_all add: same_def rest_def)
  have s0: "step be st [] s0" by (rule step_same[OF sp(1,2) wf])
  have fin: "view be (s_snapDestructs st1) (s_codes st1) obj = base be st a \<and> obj_ok be (length (s_codes st)) a obj"
    if "sdb_wf be st1" "s_objs st1 a = Some obj" "s_codes st1 = s_codes st" "acct be st1 a = Some (base be st a)"
    using that a inv_obj[of be st1 a obj] by (auto simp: acct_def sdb_wf_def)
  show thesis
  proof (cases r)
    case None
    obtain prev where c: "createObject be a s0 = ((obj, prev), st1)" using g s None
      by (auto simp: GetOrNewStateObject_def split: prod.splits)
    from createObject_spec[OF wf0 a c] obtain es where es: "step be s0 es st1" "s_objs st1 a = Some obj"
      "\<not> so_deleted obj" "s_codes st1 = s_codes s0"
      "acct be st1 = (acct be s0)(a \<mapsto> new_account be (masked be s0 a) a)"
      "rest st1 = rest (with_destructs (masked be s0 a) s0)" by blast
    have m: "masked be s0 a = masked be st a" by (simp only: masked_def eq)
    have l: "live be st a = None" using sp(5) None by simp
    have A: "acct be st1 = (acct be st)(a \<mapsto> base be st a)" using es(5) m eq(1) l by (simp add: base_def)
    have R: "rest st1 = rest (with_destructs (base_destructs be st a) st)"
      using es(6) m eq(2) l by (auto simp: base_destructs_def rest_def with_destructs_def)
    have cd: "s_codes st1 = s_codes st" using es(4) sp(3) by simp
    have w: "sdb_wf be st1" using es(1) by (simp add: step_def)
    have "acct be st1 a = Some (base be st a)" unfolding A by simp
    note F = fin[OF w es(2) cd this]
    show thesis by (rule that[OF step_trans[OF s0 es(1)] es(2,3) cd A R conjunct1[OF F] conjunct2[OF F]])
  next
    case (Some o')
    then have e: "obj = o'" "st1 = s0" using g s by (simp_all add: GetOrNewStateObject_def)
    note o = sp(6)[OF Some]
    have l: "live be st a = Some (view be (s_snapDestructs st) (s_codes st) obj)" using sp(5) Some e by simp
    then have "base be st a = view be (s_snapDestructs st) (s_codes st) obj" by (simp add: base_def)
    moreover have "acct be st a = Some (view be (s_snapDestructs st) (s_codes st) obj)" using l by (simp add: live_iff)
    ultimately have "acct be st a = Some (base be st a)" by simp
    then have A: "acct be st1 = (acct be st)(a \<mapsto> base be st a)" using eq e by (simp add: fun_upd_idem)
    have R: "rest st1 = rest (with_destructs (base_destructs be st a) st)"
      using l eq e by (simp add: base_destructs_def rest_def with_destructs_def)
    have w: "sdb_wf be st1" using wf0 e by simp
    have O: "s_objs st1 a = Some obj" "\<not> so_deleted obj" "s_codes st1 = s_codes st" using o e sp(3) by simp_all
    have "acct be st1 a = Some (base be st a)" unfolding A by simp
    note F = fin[OF w O(1,3) this]
    have S: "step be st [] st1" using s0 e(2) by simp
    show thesis by (rule that[OF S O A R conjunct1[OF F] conjunct2[OF F]])
  qed
qed

section \<open>Setters\<close>

text \<open>The account at \<open>a\<close>, created when there is none, changes by \<open>F\<close>; nothing else does.\<close>

definition effect :: "backend \<Rightarrow> StateDB \<Rightarrow> address \<Rightarrow> (account \<Rightarrow> account) \<Rightarrow> StateDB \<Rightarrow> bool" where
  "effect be st a F st' \<longleftrightarrow> (\<exists>es. step be st es st') \<and> acct be st' = (acct be st)(a \<mapsto> F (base be st a)) \<and>
     rest st' = rest (with_destructs (base_destructs be st a) st)"

definition located :: "backend \<Rightarrow> StateDB \<Rightarrow> address \<Rightarrow> stateObject \<Rightarrow> StateDB \<Rightarrow> bool" where
  "located be st a obj st1 \<longleftrightarrow> (\<exists>es. step be st es st1) \<and> s_objs st1 a = Some obj \<and>
     acct be st1 = (acct be st)(a \<mapsto> base be st a) \<and> rest st1 = rest (with_destructs (base_destructs be st a) st)"

lemma located_parts:
  assumes "located be st a obj st1" "length a = 20"
  shows "sdb_wf be st1" "s_objs st1 a = Some obj" "view be (s_snapDestructs st1) (s_codes st1) obj = base be st a"
    "obj_ok be (length (s_codes st1)) a obj" "so_address obj = a" "\<not> so_deleted obj"
    "so_balance obj = a_balance (base be st a)" "so_nonce obj = a_nonce (base be st a)"
    "so_codeHash obj = a_codeHash (base be st a)"
proof -
  show w: "sdb_wf be st1" and o: "s_objs st1 a = Some obj" using assms(1) by (auto simp: located_def step_def)
  have "acct be st1 a = Some (base be st a)" using assms(1) by (simp add: located_def)
  then show v: "view be (s_snapDestructs st1) (s_codes st1) obj = base be st a" using o assms(2) by (simp add: acct_def)
  show k: "obj_ok be (length (s_codes st1)) a obj" using inv_obj[OF _ o] wf_parts[OF w] by blast
  then show "so_address obj = a" by (simp add: obj_ok_def)
  have "so_deleted obj = a_deleted (base be st a)" unfolding v[symmetric] by simp
  then show "\<not> so_deleted obj" by simp
  show "so_balance obj = a_balance (base be st a)" "so_nonce obj = a_nonce (base be st a)"
    "so_codeHash obj = a_codeHash (base be st a)" unfolding v[symmetric] by simp_all
qed

lemma GetOrNew_located:
  assumes "sdb_wf be st" "length a = 20" "GetOrNewStateObject be a st = (obj, st1)"
  shows "located be st a obj st1" "s_codes st1 = s_codes st"
  using GetOrNew_spec[OF assms] unfolding located_def by blast+

lemma located_same:
  assumes "located be st a obj st1" "same be st1 st2" "hist st2 = hist st1" "s_objs st2 a = Some obj2"
  shows "located be st a obj2 st2"
proof -
  from assms(1) obtain es where es: "step be st es st1" by (auto simp: located_def)
  then have "sdb_wf be st1" by (simp add: step_def)
  from step_trans[OF es step_same[OF assms(2,3) this]] show ?thesis
    using assms by (auto simp: located_def same_def)
qed

lemma located_effect: "located be st a obj st1 \<Longrightarrow> effect be st a (\<lambda>v. v) st1"
  by (simp add: located_def effect_def)

lemma effect_step:
  assumes "effect be st a F st1" "step be st1 es st2" "acct be st2 = acct be st1" "rest st2 = rest st1"
  shows "effect be st a F st2"
  using assms step_trans unfolding effect_def by metis

lemma set_field:
  assumes n: "located be st a obj st1" and a: "length a = 20"
    and f: "acts be (length (s_codes st1)) a f F" "\<And>c v. a_deleted (F c v) = a_deleted v"
    and h: "acts be (length (s_codes st1)) a h H" "H (s_codes st1) (F (s_codes st1) (base be st a)) = base be st a"
    and e: "entry_ok be (length (s_codes st1)) e"
    and rv: "\<forall>t x. live be t a = Some x \<longrightarrow> be_ok be \<longrightarrow> sdb_inv be t \<longrightarrow> revert be e t = on_object be a h t"
  shows "effect be st a (F (s_codes st1)) (setStateObject (f obj) (journal_append e st1))"
proof -
  note l = located_parts[OF n a]
  from n obtain es where es: "step be st es st1" "acct be st1 = (acct be st)(a \<mapsto> base be st a)"
    "rest st1 = rest (with_destructs (base_destructs be st a) st)" by (auto simp: located_def)
  have o: "obj_ok be (length (s_codes st1)) a (f obj)"
    "view be (s_snapDestructs st1) (s_codes st1) (f obj) = F (s_codes st1) (base be st a)"
    using f(1) l(3,4) unfolding acts_def by (metis order_refl)+
  have d: "\<not> so_deleted (f obj)"
  proof -
    have "a_deleted (view be (s_snapDestructs st1) (s_codes st1) (f obj)) = a_deleted (base be st a)" unfolding o(2) f(2) ..
    then show ?thesis by simp
  qed
  have un: "H (s_codes st1) (view be (s_snapDestructs st1) (s_codes st1) (f obj)) = view be (s_snapDestructs st1) (s_codes st1) obj"
    unfolding o(2) l(3) by (rule h(2))
  note c = object_change[OF l(1) a l(2,6) o(1) d h(1) un e rv]
  have S: "\<exists>es. step be st es (setStateObject (f obj) (journal_append e st1))" using step_trans[OF es(1) c(1)] by blast
  show ?thesis unfolding effect_def
    by (intro conjI S) (simp_all add: c(2) es(2,3) o(2) c(4))
qed

lemma so_SetBalance_effect:
  assumes "located be st a obj st1" "length a = 20"
  shows "effect be st a (\<lambda>v. v\<lparr>a_balance := x\<rparr>) (so_SetBalance x obj st1)"
  unfolding so_SetBalance_def located_parts(5)[OF assms]
  by (rule set_field[OF assms acts_balance[where x = x] _ acts_balance[where x = "so_balance obj"]])
    (simp_all add: assms located_parts(7)[OF assms])

lemma SetBalance_effect:
  assumes "sdb_wf be st" "length a = 20"
  shows "effect be st a (\<lambda>v. v\<lparr>a_balance := x\<rparr>) (SetBalance be a x st)"
proof -
  obtain obj st1 where g: "GetOrNewStateObject be a st = (obj, st1)" by fastforce
  show ?thesis using so_SetBalance_effect[OF GetOrNew_located(1)[OF assms g] assms(2)] by (simp add: SetBalance_def g)
qed

lemma effect_cong: "effect be st a F st' \<Longrightarrow> F (base be st a) = G (base be st a) \<Longrightarrow> effect be st a G st'"
  by (simp add: effect_def)

lemma SubBalance_effect:
  assumes "sdb_wf be st" "length a = 20"
  shows "effect be st a (\<lambda>v. v\<lparr>a_balance := a_balance v - x\<rparr>) (SubBalance be a x st)"
proof -
  obtain obj st1 where g: "GetOrNewStateObject be a st = (obj, st1)" by fastforce
  note l = GetOrNew_located(1)[OF assms g]
  let ?F = "\<lambda>v :: account. v\<lparr>a_balance := a_balance v - x\<rparr>"
  have "x = 0 \<Longrightarrow> effect be st a ?F st1" using effect_cong[OF located_effect[OF l], of ?F] by simp
  then show ?thesis
    using effect_cong[OF so_SetBalance_effect[OF l assms(2), of "so_balance obj - x"], of ?F] located_parts(7)[OF l assms(2)]
    by (auto simp: SubBalance_def g so_SubBalance_def)
qed

lemma touch_step:
  assumes "sdb_wf be st"
  shows "step be st [touchChange (so_address obj)] (touch obj st)" "acct be (touch obj st) = acct be st" "rest (touch obj st) = rest st"
proof -
  show A: "acct be (touch obj st) = acct be st" and R: "rest (touch obj st) = rest st" by (simp_all add: touch_def Let_def)
  have w: "sdb_wf be (touch obj st)" using assms by (simp add: sdb_wf_def touch_def Let_def)
  show "step be st [touchChange (so_address obj)] (touch obj st)"
    by (rule step_one[OF assms w, where u = "touch obj st"]) (use w A R in \<open>simp_all add: sdb_wf_def\<close>,
       simp_all add: touch_def Let_def)
qed

lemma AddBalance_effect:
  assumes "sdb_wf be st" "length a = 20"
  shows "effect be st a (\<lambda>v. v\<lparr>a_balance := a_balance v + x\<rparr>) (AddBalance be a x st)"
proof -
  obtain obj st1 where g: "GetOrNewStateObject be a st = (obj, st1)" by fastforce
  note l = GetOrNew_located(1)[OF assms g]
  let ?F = "\<lambda>v :: account. v\<lparr>a_balance := a_balance v + x\<rparr>"
  note t = touch_step[OF located_parts(1)[OF l assms(2)], of obj]
  have i: "x = 0 \<Longrightarrow> effect be st a ?F st1" using effect_cong[OF located_effect[OF l], of ?F] by simp
  show ?thesis
    using effect_cong[OF so_SetBalance_effect[OF l assms(2), of "so_balance obj + x"], of ?F]
      i effect_step[OF i t] located_parts(7)[OF l assms(2)]
    by (auto simp: AddBalance_def g so_AddBalance_def)
qed

lemma SetNonce_effect:
  assumes "sdb_wf be st" "length a = 20"
  shows "effect be st a (\<lambda>v. v\<lparr>a_nonce := n\<rparr>) (SetNonce be a n st)"
proof -
  obtain obj st1 where g: "GetOrNewStateObject be a st = (obj, st1)" by fastforce
  note l = GetOrNew_located(1)[OF assms g]
  have "effect be st a (\<lambda>v. v\<lparr>a_nonce := n\<rparr>)
      (setStateObject (obj\<lparr>so_nonce := n\<rparr>) (journal_append (nonceChange a (so_nonce obj)) st1))"
    by (rule set_field[OF l assms(2) acts_nonce[where x = n] _ acts_nonce[where x = "so_nonce obj"]])
      (simp_all add: assms located_parts(8)[OF l assms(2)])
  then show ?thesis using located_parts(5)[OF l assms(2)] by (simp add: SetNonce_def g so_SetNonce_def)
qed

lemma put_put_append: "so_address x = so_address y \<Longrightarrow>
    setStateObject x (journal_append e (setStateObject y st)) = setStateObject x (journal_append e st)"
  by (simp add: setStateObject_def journal_append_def journal_dirty_def dirties_def Let_def split: option.split)

lemma put_same:
  assumes "sdb_wf be st" "s_objs st a = Some obj" "obj_ok be (length (s_codes st)) a obj'"
    "view be (s_snapDestructs st) (s_codes st) obj' = view be (s_snapDestructs st) (s_codes st) obj"
  shows "same be st (setStateObject obj' st)"
proof -
  have "acct be st a = Some (view be (s_snapDestructs st) (s_codes st) obj)"
    using assms(2,3) by (simp add: acct_def obj_ok_def)
  then have "acct be (setStateObject obj' st) = acct be st" using acct_put[OF assms(3), of st] assms(4) by (simp add: fun_upd_idem)
  then show ?thesis using assms(1) put_inv[OF _ assms(3)] by (simp add: same_def sdb_wf_def code_prefix_def)
qed

lemma so_GetState_located:
  assumes "located be st a obj st1" "length a = 20" "so_GetState be (s_snapDestructs st1) k obj = (v, obj1)"
  shows "located be st a obj1 (setStateObject obj1 st1)" "v = a_storage (base be st a) k" "so_address obj1 = a"
proof -
  note l = located_parts[OF assms(1,2)]
  note g = GetState_view[OF l(4) assms(3)]
  show "so_address obj1 = a" using g(6) l(5) by simp
  show "v = a_storage (base be st a) k" using g(1)[of "s_codes st1"] l(3) by simp
  have "same be st1 (setStateObject obj1 st1)" by (rule put_same[OF l(1,2) g(3,2)])
  then show "located be st a obj1 (setStateObject obj1 st1)"
    by (rule located_same[OF assms(1)]) (use g(6) l(5) in simp_all)
qed

lemma SetState_effect:
  assumes "sdb_wf be st" "length a = 20"
  shows "effect be st a (\<lambda>v. v\<lparr>a_storage := (a_storage v)(k := x)\<rparr>) (SetState be a k x st)"
proof -
  obtain obj st1 where g: "GetOrNewStateObject be a st = (obj, st1)" by fastforce
  note l = GetOrNew_located(1)[OF assms g]
  obtain prev obj1 where r: "so_GetState be (s_snapDestructs st1) k obj = (prev, obj1)" by fastforce
  note c = so_GetState_located[OF l assms(2) r]
  let ?F = "\<lambda>v :: account. v\<lparr>a_storage := (a_storage v)(k := x)\<rparr>"
  let ?e = "storageChange a k prev" and ?t = "setStateObject obj1 st1"
  have "effect be st a ?F (setStateObject (so_setState k x obj1) (journal_append ?e ?t))"
    by (rule set_field[OF c(1) assms(2) acts_setState[where k = k and x = x] _ acts_setState[where k = k and x = prev]])
      (simp_all add: assms c(2) fun_upd_idem)
  moreover have "effect be st a ?F ?t" if "prev = x"
    using effect_cong[OF located_effect[OF c(1)], of ?F] that c(2) by (simp add: fun_upd_idem)
  ultimately show ?thesis using c(3) by (auto simp: SetState_def g so_SetState_def r put_put_append so_setState_def)
qed

definition grow :: "bytes \<Rightarrow> StateDB \<Rightarrow> StateDB" where
  "grow c st = st\<lparr>s_codes := s_codes st @ [c]\<rparr>"

lemma grow_sel [simp]:
  "s_objs (grow c st) = s_objs st" "s_snapDestructs (grow c st) = s_snapDestructs st" "rest (grow c st) = rest st"
  "hist (grow c st) = hist st" "s_codes (grow c st) = s_codes st @ [c]"
  by (simp_all add: grow_def rest_def hist_def)

lemma grow_same:
  assumes "sdb_wf be st"
  shows "same be st (grow c st)"
proof -
  have b: "be_ok be" "sdb_inv be st" using assms by (simp_all add: sdb_wf_def)
  have p: "code_prefix st (grow c st)" by (simp add: code_prefix_def)
  have "sdb_inv be (grow c st)" using b(2) obj_ok_mono unfolding sdb_inv_def by fastforce
  moreover have "acct be (grow c st) x = acct be st x" for x
  proof (cases "s_objs st x")
    case None
    then show ?thesis by (simp add: acct_def view_new_codes[of be _ "s_codes st @ [c]"] view_new_codes[of be _ "s_codes st"])
  next
    case (Some obj)
    then show ?thesis using view_prefix[OF inv_obj[OF b(2) Some] p] by (simp add: acct_def)
  qed
  ultimately show ?thesis using b p by (simp add: same_def fun_eq_iff)
qed

lemma new_slice_grow: "new_slice c st = (Some (length (s_codes st)), grow c st)"
  by (simp add: new_slice_def grow_def)

lemma so_Code_spec:
  assumes wf: "sdb_wf be st" and o: "s_objs st a = Some obj" and a: "length a = 20" and c: "so_Code be obj st = (r, obj1, st1)"
  shows "same be st st1 \<and> hist st1 = hist st \<and> s_objs st1 a = Some obj1 \<and> so_code obj1 = r \<and>
    so_codeHash obj1 = so_codeHash obj \<and> deref st1 r = a_code (view be (s_snapDestructs st) (s_codes st) obj) \<and>
    (\<forall>i. r = Some i \<longrightarrow> i < length (s_codes st1))"
proof -
  have k: "obj_ok be (length (s_codes st)) a obj" by (rule inv_obj[OF _ o]) (use wf in \<open>simp add: sdb_wf_def\<close>)
  then have ad: "so_address obj = a" "so_addrHash obj = be_keccak be a" by (simp_all add: obj_ok_def)
  have sr: "same be st st" using wf by (simp add: same_refl sdb_wf_def)
  show ?thesis
  proof (cases "so_code obj = None \<and> so_codeHash obj \<noteq> emptyCodeHash be")
    case False
    then have "st1 = st" "obj1 = obj" "r = so_code obj" using c by (auto simp: so_Code_def split: option.splits)
    moreover have "\<forall>i. so_code obj = Some i \<longrightarrow> i < length (s_codes st)" using k by (simp add: obj_ok_def)
    ultimately show ?thesis using sr o False by (auto simp: deref_def code_val_def split: option.split)
  next
    case True
    show ?thesis
    proof (cases "be_ContractCode be (so_addrHash obj) (BytesToHash (so_codeHash obj))")
      case None
      then have e: "r = None" "obj1 = so_setError CodeNotFound obj" "st1 = setStateObject obj1 st"
        using c True by (auto simp: so_Code_def Let_def)
      have k1: "obj_ok be (length (s_codes st)) a obj1" unfolding e(2) by (rule obj_ok_upd(5)[OF k])
      have "view be (s_snapDestructs st) (s_codes st) obj1 = view be (s_snapDestructs st) (s_codes st) obj"
        unfolding view_ok[OF k] view_ok[OF k1] by (simp add: e(2))
      from put_same[OF wf o k1 this] show ?thesis using e(1,3) True None ad
        by (simp add: e(2) deref_def code_val_def)
    next
      case (Some b)
      then have e: "r = Some (length (s_codes st))" "obj1 = obj\<lparr>so_code := r\<rparr>" "st1 = setStateObject obj1 (grow b st)"
        using c True by (auto simp: so_Code_def Let_def new_slice_grow)
      note g = grow_same[OF wf, of b]
      have wg: "sdb_wf be (grow b st)" by (rule wf_same[OF wf g])
      have k1: "obj_ok be (length (s_codes (grow b st))) a obj1" using k e(1) unfolding e(2) by (auto simp: obj_ok_def trie_root_def)
      have kg: "obj_ok be (length (s_codes (grow b st))) a obj" using obj_ok_mono[OF k] by simp
      have "view be (s_snapDestructs (grow b st)) (s_codes (grow b st)) obj1 = view be (s_snapDestructs (grow b st)) (s_codes (grow b st)) obj"
        unfolding view_ok[OF k1] view_ok[OF kg] using Some True ad by (simp add: e(1,2) code_val_def)
      then have "same be (grow b st) (setStateObject obj1 (grow b st))" using put_same[OF wg _ k1, of obj] o by simp
      from same_trans[OF g this] show ?thesis using e True Some ad by (simp add: deref_def code_val_def)
    qed
  qed
qed

lemma SetCode_effect:
  assumes "sdb_wf be st" "length a = 20" and c: "\<forall>i. c = Some i \<longrightarrow> i < length (s_codes st)"
  shows "effect be st a (\<lambda>v. v\<lparr>a_codeHash := be_keccak be (deref st c), a_code := deref st c\<rparr>) (SetCode be a c st)"
proof -
  obtain obj st1 where g: "GetOrNewStateObject be a st = (obj, st1)" by fastforce
  note l = GetOrNew_located[OF assms(1,2) g]
  note lp = located_parts[OF l(1) assms(2)]
  obtain prev obj1 st2 where r: "so_Code be obj st1 = (prev, obj1, st2)" by (metis prod_cases3)
  note s = so_Code_spec[OF lp(1,2) assms(2) r]
  have l2: "located be st a obj1 st2" by (rule located_same[OF l(1)]) (use s in blast)+
  note lp2 = located_parts[OF l2 assms(2)]
  have b: "be_ok be" using assms(1) by (simp add: sdb_wf_def)
  let ?h = "be_keccak be (deref st1 c)"
  have h: "length ?h = 32" using b by (simp add: be_ok_def)
  have hp: "length (so_codeHash obj1) = 32" using lp2(4) by (simp add: obj_ok_def)
  have le: "length (s_codes st) \<le> length (s_codes st2)"
    using code_prefix_length[of st1 st2] s l(2) by (auto simp: same_def)
  have pf: "code_prefix st st2" using s l(2) by (auto simp: same_def code_prefix_def)
  have c2: "\<forall>i. c = Some i \<longrightarrow> i < length (s_codes st2)" using c le by auto
  have d: "deref st1 c = deref st c" by (simp only: deref_def l(2))
  have cv: "code_val be (s_codes st2) (be_keccak be a) ?h c = deref st c"
    using c d pf by (auto simp: code_val_def deref_def emptyCodeHash_def code_prefix_def nth_append split: option.splits)
  have bk: "code_val be (s_codes st2) (be_keccak be a) (so_codeHash obj1) prev = a_code (base be st a)"
    using lp2(3)[symmetric] s lp2(4) by (simp add: obj_ok_def)
  let ?e = "codeChange a prev (so_codeHash obj1)"
  have F: "effect be st a (\<lambda>v. v\<lparr>a_codeHash := ?h, a_code := code_val be (s_codes st2) (be_keccak be a) ?h c\<rparr>)
      (setStateObject (so_setCode ?h c obj1) (journal_append ?e st2))"
    by (rule set_field[OF l2 assms(2) acts_setCode[OF h c2] _ acts_setCode[of "so_codeHash obj1" prev]])
      (use s hp h bk lp2(9) in \<open>simp_all add: assms(2)\<close>)
  show ?thesis using F lp2(5) unfolding cv unfolding d by (simp add: SetCode_def g so_SetCode_def r d)
qed

section \<open>Accounts created and destroyed\<close>

lemma CreateAccount_spec:
  assumes wf: "sdb_wf be st" and a: "length a = 20"
  shows "\<exists>es. step be st es (CreateAccount be a st)"
    "acct be (CreateAccount be a st) = (acct be st)(a \<mapsto> (new_account be (masked be st a) a)
       \<lparr>a_balance := (case live be st a of None \<Rightarrow> 0 | Some v \<Rightarrow> a_balance v)\<rparr>)"
    "rest (CreateAccount be a st) = rest (with_destructs (masked be st a) st)"
proof -
  note b = wf_parts[OF wf]
  obtain obj prev st1 where c: "createObject be a st = ((obj, prev), st1)" by (metis prod.exhaust)
  from createObject_spec[OF wf a c] obtain es where es: "step be st es st1" "s_objs st1 a = Some obj"
    "acct be st1 = (acct be st)(a \<mapsto> new_account be (masked be st a) a)"
    "rest st1 = rest (with_destructs (masked be st a) st)"
    "map_option (view be (s_snapDestructs st) (s_codes st)) prev = live be st a" by blast
  have "(\<exists>es. step be st es (CreateAccount be a st)) \<and>
    acct be (CreateAccount be a st) = (acct be st)(a \<mapsto> (new_account be (masked be st a) a)
       \<lparr>a_balance := (case live be st a of None \<Rightarrow> 0 | Some v \<Rightarrow> a_balance v)\<rparr>) \<and>
    rest (CreateAccount be a st) = rest (with_destructs (masked be st a) st)"
  proof (cases prev)
    case None
    have "(new_account be (masked be st a) a)\<lparr>a_balance := 0\<rparr> = new_account be (masked be st a) a"
      by (simp add: new_account_def view_def newObject_def emptyAccount_def)
    then show ?thesis using es None c by (auto simp: CreateAccount_def)
  next
    case (Some p)
    obtain r s0 where g: "getDeletedStateObject be a st = (r, s0)" by fastforce
    have sp: "same be st s0" "hist s0 = hist st" "s_objs s0 a = r" "s_codes s0 = s_codes st"
      "acct be st a = map_option (view be (s_snapDestructs st) (s_codes st)) r"
      using getDeleted_spec[OF conjunct1[OF b] _ a g] b by blast+
    have r: "r = Some p" using c g Some by (auto simp: createObject_eq Let_def split: option.splits if_splits)
    let ?D = "if be_snap be then insert (so_addrHash p) (s_snapDestructs s0) else s_snapDestructs s0"
    let ?e = "resetObjectChange p (be_snap be \<and> so_addrHash p \<in> s_snapDestructs s0)"
    let ?o = "(newObject be a emptyAccount)\<lparr>so_balance := so_balance p\<rparr>"
    have st1: "obj = newObject be a emptyAccount" "st1 = setStateObject obj (journal_append ?e (with_destructs ?D s0))"
      using c g r by (auto simp: createObject_eq Let_def)
    have ca: "CreateAccount be a st = setStateObject ?o (journal_append ?e (with_destructs ?D s0))"
      using c Some st1 by (simp add: CreateAccount_def setStateObject_def)
    have wf0: "sdb_wf be s0" by (rule wf_same[OF wf sp(1)])
    have p: "s_objs s0 a = Some p" using sp(3) r by simp
    have eq: "acct be s0 = acct be st" "rest s0 = rest st" "s_snapDestructs s0 = s_snapDestructs st"
      using sp(1) by (simp_all add: same_def rest_def)
    have ok0: "obj_ok be (length (s_codes s0)) a (newObject be a emptyAccount)" using obj_ok_new[OF conjunct1[OF b] a] by blast
    note ok = obj_ok_upd(1)[OF ok0, of "so_balance p"]
    note n = createObject_present[OF wf0 a p refl refl ok ca]
    have "so_addrHash p = be_keccak be a" using inv_obj[OF _ p] wf_parts[OF wf0] by (auto simp: obj_ok_def)
    then have m: "masked be st a = ?D" using sp(5) r eq by (simp add: masked_def)
    have v: "view be ?D (s_codes s0) ?o = (new_account be ?D a)\<lparr>a_balance := so_balance p\<rparr>"
      using acts_balance[of be "length (s_codes s0)" a "so_balance p"] ok0
      unfolding acts_def new_account_def view_new_codes[of be _ "s_codes s0", symmetric] by (metis order_refl)
    have "live be st a = Some (view be (s_snapDestructs st) (s_codes st) p)" using es(5) Some by simp
    then have B: "(case live be st a of None \<Rightarrow> 0 | Some v \<Rightarrow> a_balance v) = so_balance p" by simp
    have S: "\<exists>es. step be st es (CreateAccount be a st)"
      using step_trans[OF step_same[OF sp(1,2) wf] n(1)] by blast
    have R: "rest (CreateAccount be a st) = rest (with_destructs (masked be st a) st)"
      unfolding n(3) m using eq(2) by (auto simp: rest_def with_destructs_def)
    show ?thesis unfolding n(2) v eq(1) B using S R by (simp add: m)
  qed
  then show "\<exists>es. step be st es (CreateAccount be a st)"
    "acct be (CreateAccount be a st) = (acct be st)(a \<mapsto> (new_account be (masked be st a) a)
       \<lparr>a_balance := (case live be st a of None \<Rightarrow> 0 | Some v \<Rightarrow> a_balance v)\<rparr>)"
    "rest (CreateAccount be a st) = rest (with_destructs (masked be st a) st)" by blast+
qed

end
