(* ===== verification/Statedb_Revert.thy ===== *)
theory Statedb_Revert
  imports Statedb_Ops
begin

text \<open>
  Snapshots: whatever sequence of operations runs after a snapshot, nested snapshots and
  reverts included, reverting to it restores the accounts and the rest of the state.
\<close>

section \<open>The remaining operations as journalled steps\<close>

lemma Suicide_spec:
  assumes wf: "sdb_wf be st" and a: "length a = 20"
  shows "\<exists>es. step be st es (snd (Suicide be a st))" "fst (Suicide be a st) \<longleftrightarrow> live be st a \<noteq> None"
    "acct be (snd (Suicide be a st)) = (case live be st a of None \<Rightarrow> acct be st
       | Some v \<Rightarrow> (acct be st)(a \<mapsto> v\<lparr>a_suicided := True, a_balance := 0\<rparr>))"
    "rest (snd (Suicide be a st)) = rest st"
proof -
  note b = wf_parts[OF wf]
  obtain r st1 where g: "getStateObject be a st = (r, st1)" by fastforce
  note sp = getStateObject_spec[OF conjunct1[OF b] conjunct1[OF conjunct2[OF b]] a g]
  have wf1: "sdb_wf be st1" by (rule wf_same[OF wf sp(1)])
  have s0: "step be st [] st1" by (rule step_same[OF sp(1,2) wf])
  have eq: "acct be st1 = acct be st" "rest st1 = rest st" "s_snapDestructs st1 = s_snapDestructs st"
    using sp(1) by (simp_all add: same_def rest_def)
  have "(\<exists>es. step be st es (snd (Suicide be a st))) \<and> (fst (Suicide be a st) \<longleftrightarrow> live be st a \<noteq> None) \<and>
    acct be (snd (Suicide be a st)) = (case live be st a of None \<Rightarrow> acct be st
       | Some v \<Rightarrow> (acct be st)(a \<mapsto> v\<lparr>a_suicided := True, a_balance := 0\<rparr>)) \<and>
    rest (snd (Suicide be a st)) = rest st"
  proof (cases r)
    case None
    then show ?thesis using g sp(5) s0 eq by (auto simp: Suicide_def)
  next
    case (Some obj)
    note o = sp(6)[OF Some]
    let ?v = "view be (s_snapDestructs st1) (s_codes st1) obj"
    let ?f = "\<lambda>x. x\<lparr>so_suicided := True, so_balance := 0\<rparr>" and ?e = "suicideChange a (so_suicided obj) (so_balance obj)"
    have k: "obj_ok be (length (s_codes st1)) a obj" using o sp(3) by simp
    have f: "obj_ok be (length (s_codes st1)) a (?f obj)"
      "view be (s_snapDestructs st1) (s_codes st1) (?f obj) = ?v\<lparr>a_suicided := True, a_balance := 0\<rparr>"
      using acts_suicide[of be 0 a 0 True] k unfolding acts_def by auto
    have rv: "\<forall>t x. live be t a = Some x \<longrightarrow> be_ok be \<longrightarrow> sdb_inv be t \<longrightarrow>
        revert be ?e t = on_object be a (\<lambda>x. x\<lparr>so_suicided := so_suicided obj, so_balance := so_balance obj\<rparr>) t"
      using revert_suicide_on_object[OF _ _ _ a] by blast
    have un: "(view be (s_snapDestructs st1) (s_codes st1) (?f obj))\<lparr>a_suicided := so_suicided obj, a_balance := so_balance obj\<rparr> = ?v"
      unfolding f(2) by (simp add: view_def)
    have o1: "s_objs st1 a = Some obj" "\<not> so_deleted obj" "\<not> so_deleted (?f obj)" using o by simp_all
    have ek: "entry_ok be (length (s_codes st1)) ?e" using a by simp
    note c = object_change[OF wf1 a o1(1,2) f(1) o1(3) acts_suicide un ek rv]
    have "step be st1 [?e] (setStateObject (?f obj) (journal_append ?e st1)) \<and>
      acct be (setStateObject (?f obj) (journal_append ?e st1)) = (acct be st1)(a \<mapsto> view be (s_snapDestructs st1) (s_codes st1) (?f obj)) \<and>
      rest (setStateObject (?f obj) (journal_append ?e st1)) = rest st1"
      using c by blast
    moreover have "live be st a = Some ?v" using sp(3,5) Some eq by simp
    ultimately show ?thesis using g Some s0 eq f step_trans[OF s0] by (auto simp: Suicide_def)
  qed
  then show "\<exists>es. step be st es (snd (Suicide be a st))" "fst (Suicide be a st) \<longleftrightarrow> live be st a \<noteq> None"
    "acct be (snd (Suicide be a st)) = (case live be st a of None \<Rightarrow> acct be st
       | Some v \<Rightarrow> (acct be st)(a \<mapsto> v\<lparr>a_suicided := True, a_balance := 0\<rparr>))"
    "rest (snd (Suicide be a st)) = rest st" by blast+
qed

lemma rest_step:
  assumes wf: "sdb_wf be st" and s: "s_objs st1 = s_objs st" "s_codes st1 = s_codes st" "s_snapDestructs st1 = s_snapDestructs st"
    and h: "s_entries st1 = s_entries st @ [e]" "s_validRevisions st1 = s_validRevisions st" "s_nextRevisionId st1 = s_nextRevisionId st"
    and r: "rest_ok st1" and e: "entry_ok be (length (s_codes st)) e"
    and u: "revert be e st1 = Ok u" "s_objs u = s_objs st" "rest u = rest st"
  shows "step be st [e] st1" "acct be st1 = acct be st"
proof -
  show A: "acct be st1 = acct be st" by (rule acct_cong) (simp_all add: s)
  have cu: "s_codes u = s_codes st" using revert_codes[OF u(1)] s by simp
  have du: "s_snapDestructs u = s_snapDestructs st" using u(3) by (rule rest_destructs)
  have "acct be u = acct be st" by (rule acct_cong) (simp_all add: u(2) du cu)
  moreover have "sdb_wf be st1" using wf s r by (simp add: sdb_wf_def sdb_inv_def)
  moreover have "sdb_inv be u" using wf u(2) cu by (simp add: sdb_wf_def sdb_inv_def)
  ultimately show "step be st [e] st1" by (intro step_one[OF wf _ h s(2) e u(1) _ _ u(3)])
qed

definition quiet :: "backend \<Rightarrow> StateDB \<Rightarrow> StateDB \<Rightarrow> bool" where
  "quiet be st st1 \<longleftrightarrow> (\<exists>es. step be st es st1) \<and> acct be st1 = acct be st"

lemma quietI:
  assumes "sdb_wf be st" "s_objs st1 = s_objs st" "s_codes st1 = s_codes st" "s_snapDestructs st1 = s_snapDestructs st"
    "s_entries st1 = s_entries st @ [e]" "s_validRevisions st1 = s_validRevisions st" "s_nextRevisionId st1 = s_nextRevisionId st"
    "rest_ok st1" "entry_ok be (length (s_codes st)) e" "revert be e st1 = Ok u" "s_objs u = s_objs st" "rest u = rest st"
  shows "quiet be st st1"
  using rest_step[OF assms] unfolding quiet_def by blast

lemma quiet_refl: "sdb_wf be st \<Longrightarrow> quiet be st st"
  using step_same[of be st st] by (auto simp: quiet_def sdb_wf_def same_refl)

lemma quiet_wf: "quiet be st st1 \<Longrightarrow> sdb_wf be st1"
  by (auto simp: quiet_def step_def)

lemma quiet_trans: "quiet be a b \<Longrightarrow> quiet be b c \<Longrightarrow> quiet be a c"
  using step_trans unfolding quiet_def by (metis (no_types, lifting))

lemma AddRefund_quiet: "sdb_wf be st \<Longrightarrow> quiet be st (AddRefund g st)"
  by (rule quietI[where e = "refundChange (s_refund st)" and u = "(AddRefund g st)\<lparr>s_refund := s_refund st\<rparr>"])
    (simp_all add: AddRefund_def Let_def sdb_wf_def rest_ok_def rest_def)

lemma SubRefund_quiet: "sdb_wf be st \<Longrightarrow> SubRefund g st = Ok st1 \<Longrightarrow> quiet be st st1"
  by (rule quietI[where e = "refundChange (s_refund st)" and u = "st1\<lparr>s_refund := s_refund st\<rparr>"])
    (auto simp: SubRefund_def Let_def sdb_wf_def rest_ok_def rest_def split: if_splits)

lemma AddPreimage_quiet: "sdb_wf be st \<Longrightarrow> quiet be st (AddPreimage h p st)"
  by (cases "s_preimages st h = None",
      rule quietI[where e = "addPreimageChange h" and u = "(AddPreimage h p st)\<lparr>s_preimages := s_preimages st\<rparr>"])
    (auto simp: AddPreimage_def Let_def sdb_wf_def rest_ok_def rest_def fun_upd_idem intro: quiet_refl)

lemma AddLog_quiet:
  assumes "sdb_wf be st"
  shows "quiet be st (AddLog l st)"
proof (rule quietI[OF assms, where e = "addLogChange (s_thash st)" and u = "(AddLog l st)\<lparr>s_logs := s_logs st, s_logSize := s_logSize st\<rparr>"])
  have "s_logs st (s_thash st) \<noteq> Some []" using assms by (simp add: sdb_wf_def rest_ok_def rest_def)
  then show "revert be (addLogChange (s_thash st)) (AddLog l st) = Ok ((AddLog l st)\<lparr>s_logs := s_logs st, s_logSize := s_logSize st\<rparr>)"
    by (auto simp: AddLog_def Let_def fun_upd_idem split: option.splits)
qed (use assms in \<open>simp_all add: AddLog_def Let_def sdb_wf_def rest_ok_def rest_def\<close>)

lemma AddAddress_quiet:
  assumes "sdb_wf be st"
  shows "quiet be st (AddAddressToAccessList a st)"
proof (cases "ContainsAddress (s_accessList st) a")
  case True
  then have "AddAddressToAccessList a st = st"
    by (simp add: AddAddressToAccessList_def AddAddress_def ContainsAddress_def Let_def)
  then show ?thesis using quiet_refl[OF assms] by simp
next
  case False
  let ?al = "snd (AddAddress (s_accessList st) a)"
  have t: "AddAddressToAccessList a st = journal_append (accessListAddAccountChange a) (st\<lparr>s_accessList := ?al\<rparr>)"
    using False AddAddress_spec(1)[of "s_accessList st" a] by (auto simp: AddAddressToAccessList_def Let_def split: prod.split)
  have "al_inv ?al" using AddAddress_inv assms by (simp add: sdb_wf_def rest_ok_def rest_def)
  then show ?thesis
    using assms DeleteAddress_undo(1)[OF False] unfolding t
    by (intro quietI[where e = "accessListAddAccountChange a" and
          u = "(journal_append (accessListAddAccountChange a) (st\<lparr>s_accessList := ?al\<rparr>))\<lparr>s_accessList := s_accessList st\<rparr>"])
      (simp_all add: sdb_wf_def rest_ok_def rest_def)
qed

lemma AddSlot_present_quiet:
  assumes wf: "sdb_wf be st" and p: "ContainsAddress (s_accessList st) a"
  shows "\<exists>st1. AddSlotToAccessList a k st = Ok st1 \<and> quiet be st st1"
proof -
  let ?al = "s_accessList st" and ?e = "accessListAddSlotChange a k"
  have i: "al_inv ?al" using wf by (simp add: sdb_wf_def rest_ok_def rest_def)
  obtain al' where al0: "AddSlot ?al a k = Ok ((\<not> ContainsAddress ?al a, (a, k) \<notin> al_pairs ?al), al')" "al_inv al'"
    "(a, k) \<in> al_pairs ?al \<longrightarrow> al' = ?al" "(a, k) \<notin> al_pairs ?al \<longrightarrow> DeleteSlot al' a k = Ok (al_undo_slot ?al a)"
    using AddSlot_spec[OF i, of a k] by metis
  have al': "AddSlot ?al a k = Ok ((False, (a, k) \<notin> al_pairs ?al), al')" "al_inv al'"
    "(a, k) \<in> al_pairs ?al \<Longrightarrow> al' = ?al" "(a, k) \<notin> al_pairs ?al \<Longrightarrow> DeleteSlot al' a k = Ok ?al"
    using al0 p by (simp_all add: al_undo_slot_def)
  let ?t = "journal_append ?e (st\<lparr>s_accessList := al'\<rparr>)"
  have "quiet be st ?t" if "(a, k) \<notin> al_pairs ?al"
    using wf al'(2) al'(4)[OF that]
    by (intro quietI[where e = ?e and u = "?t\<lparr>s_accessList := ?al\<rparr>"])
      (simp_all add: sdb_wf_def rest_ok_def rest_def)
  then show ?thesis using al'(1,3) quiet_refl[OF wf] by (auto simp: AddSlotToAccessList_def Let_def)
qed

lemma AddSlot_absent:
  assumes "\<not> ContainsAddress (s_accessList st) a"
  shows "AddSlotToAccessList a k st = AddSlotToAccessList a k (AddAddressToAccessList a st)"
    "ContainsAddress (s_accessList (AddAddressToAccessList a st)) a"
  using assms by (auto simp: AddSlotToAccessList_def AddAddressToAccessList_def AddSlot_def AddAddress_def ContainsAddress_def
      Let_def journal_append_def)

lemma AddSlot_quiet:
  assumes "sdb_wf be st"
  shows "\<exists>st1. AddSlotToAccessList a k st = Ok st1 \<and> quiet be st st1"
proof (cases "ContainsAddress (s_accessList st) a")
  case False
  note q = AddAddress_quiet[OF assms, of a]
  obtain st1 where "AddSlotToAccessList a k (AddAddressToAccessList a st) = Ok st1" "quiet be (AddAddressToAccessList a st) st1"
    using AddSlot_present_quiet[OF quiet_wf[OF q] AddSlot_absent(2)[OF False]] by blast
  then show ?thesis using quiet_trans[OF q] AddSlot_absent(1)[OF False, of k] by auto
qed (rule AddSlot_present_quiet[OF assms])

section \<open>Getters\<close>

lemma GetBalance_spec:
  assumes "sdb_wf be st" "length a = 20" "GetBalance be a st = (x, st1)"
  shows "same be st st1" "hist st1 = hist st" "x = (case live be st a of None \<Rightarrow> 0 | Some v \<Rightarrow> a_balance v)"
proof -
  obtain r s0 where g: "getStateObject be a st = (r, s0)" by fastforce
  note sp = getStateObject_spec[OF _ _ assms(2) g]
  have "st1 = s0" "x = (case r of None \<Rightarrow> 0 | Some obj \<Rightarrow> so_balance obj)"
    using assms(3) g by (auto simp: GetBalance_def split: option.splits)
  then show "same be st st1" "hist st1 = hist st" "x = (case live be st a of None \<Rightarrow> 0 | Some v \<Rightarrow> a_balance v)"
    using sp wf_parts[OF assms(1)] by (auto split: option.split)
qed

lemma GetNonce_spec:
  assumes "sdb_wf be st" "length a = 20" "GetNonce be a st = (x, st1)"
  shows "same be st st1" "hist st1 = hist st" "x = (case live be st a of None \<Rightarrow> 0 | Some v \<Rightarrow> a_nonce v)"
proof -
  obtain r s0 where g: "getStateObject be a st = (r, s0)" by fastforce
  note sp = getStateObject_spec[OF _ _ assms(2) g]
  have "st1 = s0" "x = (case r of None \<Rightarrow> 0 | Some obj \<Rightarrow> so_nonce obj)"
    using assms(3) g by (auto simp: GetNonce_def split: option.splits)
  then show "same be st st1" "hist st1 = hist st" "x = (case live be st a of None \<Rightarrow> 0 | Some v \<Rightarrow> a_nonce v)"
    using sp wf_parts[OF assms(1)] by (auto split: option.split)
qed

lemma GetCode_spec:
  assumes "sdb_wf be st" "length a = 20" "GetCode be a st = (r, st1)"
  shows "same be st st1" "hist st1 = hist st" "deref st1 r = (case live be st a of None \<Rightarrow> [] | Some v \<Rightarrow> a_code v)"
    "\<forall>i. r = Some i \<longrightarrow> i < length (s_codes st1)"
proof -
  obtain q s0 where g: "getStateObject be a st = (q, s0)" by fastforce
  have b: "be_ok be" "sdb_inv be st" using assms(1) by (simp_all add: sdb_wf_def)
  note sp = getStateObject_spec[OF b assms(2) g]
  have wf0: "sdb_wf be s0" by (rule wf_same[OF assms(1) sp(1)])
  have "same be st st1 \<and> hist st1 = hist st \<and> deref st1 r = (case live be st a of None \<Rightarrow> [] | Some v \<Rightarrow> a_code v) \<and>
    (\<forall>i. r = Some i \<longrightarrow> i < length (s_codes st1))"
  proof (cases q)
    case None
    then show ?thesis using assms(3) g sp by (auto simp: GetCode_def deref_def)
  next
    case (Some obj)
    obtain obj1 where c: "so_Code be obj s0 = (r, obj1, st1)" using assms(3) g Some
      by (auto simp: GetCode_def split: prod.splits)
    have "s_objs s0 a = Some obj" using sp(6)[OF Some] by simp
    note k = so_Code_spec[OF wf0 this assms(2) c]
    have "s_snapDestructs s0 = s_snapDestructs st" using sp(1) by (simp add: same_def rest_def)
    then have "live be st a = Some (view be (s_snapDestructs s0) (s_codes s0) obj)" using sp(3,5) Some by simp
    then show ?thesis using k same_trans[OF sp(1)] sp(2) by auto
  qed
  then show "same be st st1" "hist st1 = hist st" "deref st1 r = (case live be st a of None \<Rightarrow> [] | Some v \<Rightarrow> a_code v)"
    "\<forall>i. r = Some i \<longrightarrow> i < length (s_codes st1)" by blast+
qed

lemma GetState_spec:
  assumes "sdb_wf be st" "length a = 20" "GetState be a k st = (x, st1)"
  shows "same be st st1" "hist st1 = hist st" "x = (case live be st a of None \<Rightarrow> zero_array 32 | Some v \<Rightarrow> a_storage v k)"
proof -
  obtain q s0 where g: "getStateObject be a st = (q, s0)" by fastforce
  have b: "be_ok be" "sdb_inv be st" using assms(1) by (simp_all add: sdb_wf_def)
  note sp = getStateObject_spec[OF b assms(2) g]
  have wf0: "sdb_wf be s0" by (rule wf_same[OF assms(1) sp(1)])
  have "same be st st1 \<and> hist st1 = hist st \<and> x = (case live be st a of None \<Rightarrow> zero_array 32 | Some v \<Rightarrow> a_storage v k)"
  proof (cases q)
    case None
    then show ?thesis using assms(3) g sp by (auto simp: GetState_def)
  next
    case (Some obj)
    obtain obj1 where c: "so_GetState be (s_snapDestructs s0) k obj = (x, obj1)" "st1 = setStateObject obj1 s0"
      using assms(3) g Some by (auto simp: GetState_def split: prod.splits)
    note o = sp(6)[OF Some]
    have ok: "obj_ok be (length (s_codes s0)) a obj" using o sp(3) by simp
    note v = GetState_view[OF ok c(1)]
    have s: "same be s0 st1" unfolding c(2) by (rule put_same[OF wf0 _ v(3,2)]) (use o in simp)
    have "s_snapDestructs s0 = s_snapDestructs st" using sp(1) by (simp add: same_def rest_def)
    then have "live be st a = Some (view be (s_snapDestructs s0) (s_codes s0) obj)" using sp(3,5) Some by simp
    then show ?thesis using v(1)[of "s_codes s0"] same_trans[OF sp(1) s] sp(2) c(2) by simp
  qed
  then show "same be st st1" "hist st1 = hist st" "x = (case live be st a of None \<Rightarrow> zero_array 32 | Some v \<Rightarrow> a_storage v k)" by blast+
qed

section \<open>Sequences of operations\<close>

datatype state_op =
    OpAddBalance address int
  | OpSubBalance address int
  | OpSetBalance address int
  | OpSetNonce address u64
  | OpSetCode address bytes
  | OpSetState address hash hash
  | OpSuicide address
  | OpCreateAccount address
  | OpAddRefund u64
  | OpSubRefund u64
  | OpAddLog Log
  | OpAddPreimage hash bytes
  | OpAccessAddress address
  | OpAccessSlot address hash
  | OpGetBalance address
  | OpGetNonce address
  | OpGetCode address
  | OpGetState address hash
  | OpSnapshot
  | OpRevert nat

primrec apply_op :: "backend \<Rightarrow> state_op \<Rightarrow> StateDB \<Rightarrow> StateDB res" where
  "apply_op be (OpAddBalance a x) st = Ok (AddBalance be a x st)"
| "apply_op be (OpSubBalance a x) st = Ok (SubBalance be a x st)"
| "apply_op be (OpSetBalance a x) st = Ok (SetBalance be a x st)"
| "apply_op be (OpSetNonce a n) st = Ok (SetNonce be a n st)"
| "apply_op be (OpSetCode a c) st = (case new_slice c st of (r, st1) \<Rightarrow> Ok (SetCode be a r st1))"
| "apply_op be (OpSetState a k v) st = Ok (SetState be a k v st)"
| "apply_op be (OpSuicide a) st = Ok (snd (Suicide be a st))"
| "apply_op be (OpCreateAccount a) st = Ok (CreateAccount be a st)"
| "apply_op be (OpAddRefund g) st = Ok (AddRefund g st)"
| "apply_op be (OpSubRefund g) st = SubRefund g st"
| "apply_op be (OpAddLog l) st = Ok (AddLog l st)"
| "apply_op be (OpAddPreimage h p) st = Ok (AddPreimage h p st)"
| "apply_op be (OpAccessAddress a) st = Ok (AddAddressToAccessList a st)"
| "apply_op be (OpAccessSlot a k) st = AddSlotToAccessList a k st"
| "apply_op be (OpGetBalance a) st = Ok (snd (GetBalance be a st))"
| "apply_op be (OpGetNonce a) st = Ok (snd (GetNonce be a st))"
| "apply_op be (OpGetCode a) st = Ok (snd (GetCode be a st))"
| "apply_op be (OpGetState a k) st = Ok (snd (GetState be a k st))"
| "apply_op be OpSnapshot st = Ok (snd (Snapshot st))"
| "apply_op be (OpRevert r) st = RevertToSnapshot be r st"

primrec run_ops :: "backend \<Rightarrow> state_op list \<Rightarrow> StateDB \<Rightarrow> StateDB res" where
  "run_ops be [] st = Ok st"
| "run_ops be (x # xs) st = rbind (apply_op be x st) (run_ops be xs)"

text \<open>Addresses have 20 bytes, and nested reverts go to snapshots after \<open>id\<close>.\<close>

primrec op_ok :: "nat \<Rightarrow> state_op \<Rightarrow> bool" where
  "op_ok i (OpAddBalance a x) \<longleftrightarrow> length a = 20"
| "op_ok i (OpSubBalance a x) \<longleftrightarrow> length a = 20"
| "op_ok i (OpSetBalance a x) \<longleftrightarrow> length a = 20"
| "op_ok i (OpSetNonce a n) \<longleftrightarrow> length a = 20"
| "op_ok i (OpSetCode a c) \<longleftrightarrow> length a = 20"
| "op_ok i (OpSetState a k v) \<longleftrightarrow> length a = 20"
| "op_ok i (OpSuicide a) \<longleftrightarrow> length a = 20"
| "op_ok i (OpCreateAccount a) \<longleftrightarrow> length a = 20"
| "op_ok i (OpAddRefund g) \<longleftrightarrow> True"
| "op_ok i (OpSubRefund g) \<longleftrightarrow> True"
| "op_ok i (OpAddLog l) \<longleftrightarrow> True"
| "op_ok i (OpAddPreimage h p) \<longleftrightarrow> True"
| "op_ok i (OpAccessAddress a) \<longleftrightarrow> True"
| "op_ok i (OpAccessSlot a k) \<longleftrightarrow> True"
| "op_ok i (OpGetBalance a) \<longleftrightarrow> length a = 20"
| "op_ok i (OpGetNonce a) \<longleftrightarrow> length a = 20"
| "op_ok i (OpGetCode a) \<longleftrightarrow> length a = 20"
| "op_ok i (OpGetState a k) \<longleftrightarrow> length a = 20"
| "op_ok i OpSnapshot \<longleftrightarrow> True"
| "op_ok i (OpRevert r) \<longleftrightarrow> i < r"

lemma same_step: "sdb_wf be st \<Longrightarrow> same be st st1 \<and> hist st1 = hist st \<Longrightarrow> \<exists>es. step be st es st1"
  using step_same by blast

lemma apply_op_step:
  assumes wf: "sdb_wf be st" and ok: "op_ok i x" and a: "apply_op be x st = Ok st1" and n: "x \<noteq> OpSnapshot" "\<And>r. x \<noteq> OpRevert r"
  shows "\<exists>es. step be st es st1"
proof (cases x)
  case (OpSetCode a c)
  then have st1: "st1 = SetCode be a (Some (length (s_codes st))) (grow c st)" using a by (simp add: new_slice_grow)
  have s: "step be st [] (grow c st)" by (rule step_same[OF grow_same[OF wf] _ wf]) simp
  have "sdb_wf be (grow c st)" using s by (simp add: step_def)
  then have "\<exists>es. step be (grow c st) es st1"
    using SetCode_effect[of be "grow c st" a "Some (length (s_codes st))"] ok OpSetCode unfolding st1 by (simp add: effect_def)
  then show ?thesis using step_trans[OF s] by blast
next
  case (OpGetBalance a)
  then show ?thesis using same_step[OF wf] GetBalance_spec[OF wf] ok a by (metis apply_op.simps(15) op_ok.simps(15) prod.collapse res.inject)
next
  case (OpGetNonce a)
  then show ?thesis using same_step[OF wf] GetNonce_spec[OF wf] ok a by (metis apply_op.simps(16) op_ok.simps(16) prod.collapse res.inject)
next
  case (OpGetCode a)
  then show ?thesis using same_step[OF wf] GetCode_spec[OF wf] ok a by (metis apply_op.simps(17) op_ok.simps(17) prod.collapse res.inject)
next
  case (OpGetState a k)
  then show ?thesis using same_step[OF wf] GetState_spec[OF wf] ok a by (metis apply_op.simps(18) op_ok.simps(18) prod.collapse res.inject)
next
  case (OpAccessSlot a k)
  then show ?thesis using AddSlot_quiet[OF wf, of a k] a by (auto simp: quiet_def)
next
  case (OpSubRefund g)
  then show ?thesis using SubRefund_quiet[OF wf, of g] a by (auto simp: quiet_def)
qed (use assms AddBalance_effect[OF wf] SubBalance_effect[OF wf] SetBalance_effect[OF wf] SetNonce_effect[OF wf]
      SetState_effect[OF wf] Suicide_spec(1)[OF wf] CreateAccount_spec(1)[OF wf] AddRefund_quiet[OF wf]
      AddLog_quiet[OF wf] AddPreimage_quiet[OF wf] AddAddress_quiet[OF wf] in \<open>auto simp: effect_def quiet_def\<close>)

section \<open>Revisions\<close>

declare search_loop.simps [simp del]

lemma search_loop_finds:
  "i \<le> k \<Longrightarrow> k \<le> j \<Longrightarrow> (\<forall>x<j. f x \<longleftrightarrow> k \<le> x) \<Longrightarrow> search_loop f i j = k"
proof (induction f i j rule: search_loop.induct)
  case (1 f i j)
  show ?case
  proof (cases "i < j")
    case True
    let ?h = "(i + j) div 2"
    have h: "i \<le> ?h" "?h < j" using True by auto
    show ?thesis
    proof (cases "f ?h")
      case f: True
      then have "k \<le> ?h" using 1(5) h by simp
      moreover have "\<forall>x<?h. f x \<longleftrightarrow> k \<le> x" using 1(5) h by simp
      ultimately show ?thesis using 1(2)[OF True refl] 1(3) f True by (simp add: search_loop.simps[of f i j] Let_def)
    next
      case f: False
      then have "?h + 1 \<le> k" using 1(5) h by (simp add: not_le Suc_le_eq)
      then show ?thesis using 1(1)[OF True refl] 1(4,5) f True by (simp add: search_loop.simps[of f i j] Let_def)
    qed
  qed (use 1(3,4) in \<open>simp add: search_loop.simps\<close>)
qed

lemma search_loop_le: "i \<le> j \<Longrightarrow> search_loop f i j \<le> j"
proof (induction f i j rule: search_loop.induct)
  case (1 f i j)
  show ?case
  proof (cases "i < j")
    case True
    let ?h = "(i + j) div 2"
    have h: "?h + 1 \<le> j" "i \<le> ?h" using True by auto
    show ?thesis
    proof (cases "f ?h")
      case f: True
      from 1(2)[OF True refl _ h(2)] f h True show ?thesis by (simp add: search_loop.simps[of f i j] Let_def)
    next
      case f: False
      from 1(1)[OF True refl f h(1)] f True show ?thesis by (simp add: search_loop.simps[of f i j] Let_def)
    qed
  qed (use 1(3) in \<open>simp add: search_loop.simps\<close>)
qed

text \<open>Revision ids increase and their journal positions do not decrease.\<close>

definition rev_ok :: "StateDB \<Rightarrow> bool" where
  "rev_ok st \<longleftrightarrow> sorted_wrt (\<lambda>x y. fst x < fst y \<and> snd x \<le> snd y) (s_validRevisions st) \<and>
     (\<forall>r\<in>set (s_validRevisions st). fst r < s_nextRevisionId st \<and> snd r \<le> length (s_entries st))"

lemma Search_revision:
  assumes "sorted_wrt (\<lambda>x y. fst x < fst y \<and> snd x \<le> snd y) (revs :: (nat \<times> nat) list)" "k < length revs"
  shows "Search (length revs) (\<lambda>i. fst (revs ! i) \<ge> fst (revs ! k)) = k"
proof -
  have "fst (revs ! x) \<ge> fst (revs ! k) \<longleftrightarrow> k \<le> x" if "x < length revs" for x
    using sorted_wrt_nth_less[OF assms(1), of x k] sorted_wrt_nth_less[OF assms(1), of k x] assms(2) that
    by (cases x k rule: linorder_cases) auto
  then show ?thesis unfolding Search_def using assms(2) by (intro search_loop_finds) auto
qed

lemma RevertToSnapshot_at:
  assumes "rev_ok st" "k < length (s_validRevisions st)"
  shows "RevertToSnapshot be (fst (s_validRevisions st ! k)) st =
    rbind (journal_revert be (snd (s_validRevisions st ! k)) st) (\<lambda>st1. Ok (st1\<lparr>s_validRevisions := take k (s_validRevisions st)\<rparr>))"
  using Search_revision[of "s_validRevisions st" k] assms by (simp add: RevertToSnapshot_def Let_def rev_ok_def)

lemma RevertToSnapshot_found:
  assumes "rev_ok st" "RevertToSnapshot be r st = Ok st1"
  obtains k where "k < length (s_validRevisions st)" "fst (s_validRevisions st ! k) = r"
proof -
  let ?k = "Search (length (s_validRevisions st)) (\<lambda>i. fst (s_validRevisions st ! i) \<ge> r)"
  have "?k \<le> length (s_validRevisions st)" unfolding Search_def by (rule search_loop_le) simp
  moreover have "?k \<noteq> length (s_validRevisions st)" "fst (s_validRevisions st ! ?k) = r"
    using assms(2) by (auto simp: RevertToSnapshot_def Let_def split: if_splits)
  ultimately show ?thesis using that[of ?k] by simp
qed

lemma undo_all_hist: "undo_all be es st = Ok st1 \<Longrightarrow> hist st1 = hist st"
proof (induction es arbitrary: st)
  case (Cons e es)
  have l: "hist s0 = hist st" if "getStateObject be a st = (r, s0)" for a r s0 and st :: StateDB
    using that by (auto simp: getStateObject_def getDeletedStateObject_def Let_def split: option.splits prod.splits if_splits)
  from Cons.prems obtain u where u: "undo be e st = Ok u" "undo_all be es u = Ok st1" by (auto simp: rbind_eq_Ok)
  then obtain v where v: "revert be e st = Ok v" "u = undirty e v" by (auto simp: undo_def rbind_eq_Ok)
  have "hist v = hist st" using v(1)
    by (cases e) (auto simp: on_object_def Let_def rbind_eq_Ok hist_def setStateObject_def split: option.splits prod.splits if_splits dest!: l[unfolded hist_def])
  then show ?case using Cons.IH[OF u(2)] v(2) by simp
qed simp

section \<open>Everything since a snapshot can be undone\<close>

definition since :: "backend \<Rightarrow> StateDB \<Rightarrow> StateDB \<Rightarrow> bool" where
  "since be s0 st \<longleftrightarrow> (\<exists>es rs. s_entries st = s_entries s0 @ es \<and> s_validRevisions st = s_validRevisions s0 @ rs \<and>
     (\<forall>r\<in>set rs. s_nextRevisionId s0 \<le> fst r \<and> length (s_entries s0) \<le> snd r) \<and>
     (\<forall>r\<in>set (s_validRevisions s0). fst r < s_nextRevisionId s0) \<and>
     s_nextRevisionId s0 \<le> s_nextRevisionId st \<and> sdb_wf be st \<and> rev_ok st \<and>
     (\<forall>e\<in>set es. entry_ok be (length (s_codes st)) e) \<and> sdb.undone be s0 (rev es) st)"

lemma since_refl: "sdb_wf be st \<Longrightarrow> rev_ok st \<Longrightarrow> since be st st"
  unfolding since_def by (rule exI[of _ "[]"], rule exI[of _ "[]"]) (auto simp: rev_ok_def sdb_wf_def same_refl)

lemma since_step:
  assumes "since be s0 st" "step be st fs st1"
  shows "since be s0 st1"
proof -
  from assms(1) obtain es rs where s: "s_entries st = s_entries s0 @ es" "s_validRevisions st = s_validRevisions s0 @ rs"
     "\<forall>r\<in>set rs. s_nextRevisionId s0 \<le> fst r \<and> length (s_entries s0) \<le> snd r"
     "\<forall>r\<in>set (s_validRevisions s0). fst r < s_nextRevisionId s0"
     "s_nextRevisionId s0 \<le> s_nextRevisionId st" "rev_ok st" "\<forall>e\<in>set es. entry_ok be (length (s_codes st)) e"
     "sdb.undone be s0 (rev es) st" by (auto simp: since_def)
  have t: "s_entries st1 = s_entries s0 @ (es @ fs)" "s_validRevisions st1 = s_validRevisions s0 @ rs"
    "s_nextRevisionId st1 = s_nextRevisionId st" "sdb_wf be st1" using assms(2) s by (simp_all add: step_def)
  have "rev_ok st1" using s(6) assms(2) by (auto simp: rev_ok_def step_def)
  moreover have "\<forall>e\<in>set (es @ fs). entry_ok be (length (s_codes st1)) e"
    using s(7) assms(2) entry_ok_mono code_prefix_length[of st st1] unfolding step_def by fastforce
  moreover have "sdb.undone be s0 (rev (es @ fs)) st1"
    using sdb.undone_append[of be st "rev fs" st1 s0 "rev es"] s(7,8) assms(2) by (simp add: step_def)
  ultimately show ?thesis unfolding since_def using s t by metis
qed

lemma since_snapshot:
  assumes "since be s0 st"
  shows "since be s0 (snd (Snapshot st))"
proof -
  let ?t = "snd (Snapshot st)"
  from assms obtain es rs where s: "s_entries st = s_entries s0 @ es" "s_validRevisions st = s_validRevisions s0 @ rs"
     "\<forall>r\<in>set rs. s_nextRevisionId s0 \<le> fst r \<and> length (s_entries s0) \<le> snd r"
     "\<forall>r\<in>set (s_validRevisions s0). fst r < s_nextRevisionId s0"
     "s_nextRevisionId s0 \<le> s_nextRevisionId st" "sdb_wf be st" "rev_ok st" "\<forall>e\<in>set es. entry_ok be (length (s_codes st)) e"
     "sdb.undone be s0 (rev es) st" by (auto simp: since_def)
  have A: "acct be ?t = acct be st" by (rule acct_cong) (simp_all add: Snapshot_def)
  have i: "sdb_inv be ?t" "rest ?t = rest st" "be_ok be" "sdb_inv be st" using s(6) by (simp_all add: Snapshot_def sdb_wf_def sdb_inv_def rest_def)
  have w: "sdb_wf be ?t" using s(6) i rest_ok_rest[OF i(2)] by (simp add: sdb_wf_def)
  have "same be st ?t" using A i by (simp add: same_def code_prefix_def Snapshot_def)
  then have u: "sdb.undone be s0 (rev es) ?t" using sdb.undone_mono[OF _ _ s(9)] s(8) by simp
  have r: "rev_ok ?t" using s(7) by (fastforce simp: rev_ok_def Snapshot_def sorted_wrt_append)
  show ?thesis unfolding since_def
    by (rule exI[of _ es], rule exI[of _ "rs @ [(s_nextRevisionId st, length (s_entries st))]"])
      (use s u w r in \<open>auto simp: Snapshot_def\<close>)
qed

lemma rev_ok_take:
  assumes "rev_ok st" "k < length (s_validRevisions st)" "snd (s_validRevisions st ! k) = n"
    "s_validRevisions t = take k (s_validRevisions st)" "length (s_entries t) = n" "s_nextRevisionId t = s_nextRevisionId st"
  shows "rev_ok t"
proof -
  have "snd r \<le> n" if "r \<in> set (take k (s_validRevisions st))" for r
  proof -
    from that obtain i where "i < k" "r = s_validRevisions st ! i" using assms(2) by (auto simp: in_set_conv_nth)
    then show ?thesis using sorted_wrt_nth_less[of _ "s_validRevisions st" i k] assms(1,2,3) by (fastforce simp: rev_ok_def)
  qed
  then show ?thesis using assms by (auto simp: rev_ok_def sorted_wrt_take dest: in_set_takeD)
qed

lemma undo_all_same:
  "same be t t \<Longrightarrow> (\<forall>e\<in>set es. entry_ok be (length (s_codes t)) e) \<Longrightarrow> undo_all be es t = Ok u \<Longrightarrow>
   same be u u \<and> s_codes u = s_codes t"
proof (induction es arbitrary: t)
  case (Cons e es)
  from Cons.prems(3) obtain v where v: "undo be e t = Ok v" "undo_all be es v = Ok u" by (auto simp: rbind_eq_Ok)
  have "same be v v" using undo_mono[OF Cons.prems(1) _ v(1)] Cons.prems(2) v(1) by auto
  moreover have "s_codes v = s_codes t" using v(1) revert_codes by (auto simp: undo_def rbind_eq_Ok)
  ultimately show ?case using Cons.IH[of v] Cons.prems(2) v(2) by simp
qed simp

lemma since_revert:
  assumes "since be s0 st" "RevertToSnapshot be r st = Ok st1" "s_nextRevisionId s0 \<le> r"
  shows "since be s0 st1"
proof -
  from assms(1) obtain es rs where s: "s_entries st = s_entries s0 @ es" "s_validRevisions st = s_validRevisions s0 @ rs"
     "\<forall>r\<in>set rs. s_nextRevisionId s0 \<le> fst r \<and> length (s_entries s0) \<le> snd r"
     "\<forall>r\<in>set (s_validRevisions s0). fst r < s_nextRevisionId s0"
     "s_nextRevisionId s0 \<le> s_nextRevisionId st" "sdb_wf be st" "rev_ok st" "\<forall>e\<in>set es. entry_ok be (length (s_codes st)) e"
     "sdb.undone be s0 (rev es) st" by (auto simp: since_def)
  obtain k where k: "k < length (s_validRevisions st)" "fst (s_validRevisions st ! k) = r"
    by (rule RevertToSnapshot_found[OF s(7) assms(2)])
  have "\<not> k < length (s_validRevisions s0)"
  proof
    assume l: "k < length (s_validRevisions s0)"
    then have "fst (s_validRevisions s0 ! k) = r" using k(2) s(2) by (simp add: nth_append)
    then show False using s(4) nth_mem[OF l] assms(3) by fastforce
  qed
  then obtain j where j: "k = length (s_validRevisions s0) + j" "j < length rs" using k(1) s(2) by (auto simp: nat_le_iff_add not_less)
  define n where "n = snd (s_validRevisions st ! k)"
  have "rs ! j \<in> set rs" using j(2) by simp
  then have n0: "length (s_entries s0) \<le> n" using s(2,3) j by (auto simp: n_def nth_append)
  have n1: "n \<le> length (s_entries st)" using s(7) k(1) nth_mem[OF k(1)] by (auto simp: rev_ok_def n_def)
  define m where "m = n - length (s_entries s0)"
  have m: "m \<le> length es" "n = length (s_entries s0) + m" using n0 n1 s(1) by (simp_all add: m_def)
  have d: "drop n (s_entries st) = drop m es" "take n (s_entries st) = s_entries s0 @ take m es" using m s(1) by simp_all
  have "rev es = rev (drop m es) @ rev (take m es)" by (metis append_take_drop_id rev_append)
  then have un: "sdb.undone be s0 (rev (drop m es) @ rev (take m es)) st" using s(9) by simp
  have "rest_ok st" using s(6) by (simp add: sdb_wf_def)
  then obtain u where u: "undo_all be (rev (drop m es)) st = Ok u" "sdb.undone be s0 (rev (take m es)) u" "rest_ok u"
    using sdb.undone_split[OF un] by blast
  have hu: "hist u = hist st" by (rule undo_all_hist[OF u(1)])
  have "same be st st" using s(6) by (simp add: sdb_wf_def same_refl)
  moreover have "\<forall>e\<in>set (rev (drop m es)). entry_ok be (length (s_codes st)) e" using s(8) by (auto dest: in_set_dropD)
  ultimately have su: "same be u u" "s_codes u = s_codes st" using undo_all_same[OF _ _ u(1)] by blast+
  have r1: "RevertToSnapshot be r st = Ok (u\<lparr>s_entries := take n (s_entries st), s_validRevisions := take k (s_validRevisions st)\<rparr>)"
    using RevertToSnapshot_at[OF s(7) k(1), of be] k(2) u(1) d(1) hu n1
    by (simp add: n_def[symmetric] journal_revert_def go_slice_def hist_def)
  then have st1: "st1 = u\<lparr>s_entries := take n (s_entries st), s_validRevisions := take k (s_validRevisions st)\<rparr>"
    using assms(2) by simp
  have A: "acct be st1 = acct be u" by (rule acct_cong) (simp_all add: st1)
  have i: "be_ok be" "sdb_inv be u" "sdb_inv be st1" "rest st1 = rest u" "s_codes st1 = s_codes u" using su
    by (simp_all add: same_def st1 sdb_inv_def rest_def)
  have same1: "same be u st1" using A i by (simp add: same_def code_prefix_def)
  have w: "sdb_wf be st1" using i u(3) rest_ok_rest[OF i(4)] by (simp add: sdb_wf_def)
  have oks: "\<forall>e\<in>set (take m es). entry_ok be (length (s_codes st1)) e" using s(8) i(5) su(2) by (auto dest: in_set_takeD)
  have un1: "sdb.undone be s0 (rev (take m es)) st1"
    by (rule sdb.undone_mono[OF same1 _ u(2)]) (use oks i(5) in simp)
  have tk: "s_validRevisions st1 = s_validRevisions s0 @ take j rs" using s(2) j by (simp add: st1)
  have nx: "s_nextRevisionId st1 = s_nextRevisionId st" using hu by (simp add: st1 hist_def)
  have rk: "rev_ok st1" by (rule rev_ok_take[OF s(7) k(1) n_def[symmetric]]) (use n1 nx in \<open>simp_all add: st1\<close>)
  have en: "s_entries st1 = s_entries s0 @ take m es" using d(2) by (simp add: st1)
  show ?thesis unfolding since_def
    by (rule exI[of _ "take m es"], rule exI[of _ "take j rs"])
      (use s(3,4,5) w oks un1 tk nx rk en in \<open>auto dest: in_set_takeD\<close>)
qed

lemma since_run:
  "since be s0 st \<Longrightarrow> s_nextRevisionId s0 = Suc i \<Longrightarrow> (\<forall>x\<in>set xs. op_ok i x) \<Longrightarrow> run_ops be xs st = Ok st1 \<Longrightarrow> since be s0 st1"
proof (induction xs arbitrary: st)
  case (Cons x xs)
  from Cons.prems(4) obtain u where u: "apply_op be x st = Ok u" "run_ops be xs u = Ok st1" by (auto simp: rbind_eq_Ok)
  have wf: "sdb_wf be st" using Cons.prems(1) by (auto simp: since_def)
  have "since be s0 u"
  proof (cases "x = OpSnapshot \<or> (\<exists>r. x = OpRevert r)")
    case True
    then show ?thesis using since_snapshot[OF Cons.prems(1)] since_revert[OF Cons.prems(1)] u(1) Cons.prems(2,3) by auto
  next
    case False
    then show ?thesis using apply_op_step[OF wf _ u(1)] Cons.prems(1,3) since_step by (metis list.set_intros(1))
  qed
  then show ?case using Cons.IH[of u] Cons.prems u(2) by simp
qed simp

lemma Snapshot_wf:
  assumes "sdb_wf be st" "rev_ok st" "Snapshot st = (i, st1)"
  shows "sdb_wf be st1" "rev_ok st1" "acct be st1 = acct be st" "rest st1 = rest st" "s_nextRevisionId st1 = Suc i"
proof -
  have i: "i = s_nextRevisionId st" "st1 = snd (Snapshot st)" using assms(3) by (auto simp: Snapshot_def)
  have "since be st st1" unfolding i by (rule since_snapshot[OF since_refl[OF assms(1,2)]])
  then show "sdb_wf be st1" "rev_ok st1" by (auto simp: since_def)
  show "acct be st1 = acct be st" by (rule acct_cong) (simp_all add: i Snapshot_def)
  show "rest st1 = rest st" "s_nextRevisionId st1 = Suc i" using i by (simp_all add: rest_def Snapshot_def)
qed

lemma since_snapshot_revert:
  assumes wf: "sdb_wf be st" "rev_ok st" and s: "Snapshot st = (i, st1)" and r: "since be st1 st2"
  obtains st3 where "RevertToSnapshot be i st2 = Ok st3" "acct be st3 = acct be st" "rest st3 = rest st"
    "s_entries st3 = s_entries st" "s_validRevisions st3 = s_validRevisions st" "sdb_wf be st3" "rev_ok st3"
proof -
  have i: "i = s_nextRevisionId st" "st1 = snd (Snapshot st)" using s by (auto simp: Snapshot_def)
  let ?n = "length (s_entries st)"
  have f: "s_nextRevisionId st1 = Suc i" "s_validRevisions st1 = s_validRevisions st @ [(i, ?n)]" "s_entries st1 = s_entries st"
    using i by (simp_all add: Snapshot_def)
  from r obtain es rs where t: "s_entries st2 = s_entries st @ es"
    "s_validRevisions st2 = s_validRevisions st @ (i, ?n) # rs" "rev_ok st2" "sdb.undone be st1 (rev es) st2"
    by (auto simp: since_def f)
  let ?k = "length (s_validRevisions st)"
  have k: "?k < length (s_validRevisions st2)" "s_validRevisions st2 ! ?k = (i, ?n)" using t(2) by simp_all
  from sdb.undone_undos[OF t(4)] obtain u where u: "undo_all be (rev es) st2 = Ok u" "same be st1 u" by blast
  have hu: "s_entries u = s_entries st2" using undo_all_hist[OF u(1)] by (simp add: hist_def)
  let ?t = "u\<lparr>s_entries := s_entries st, s_validRevisions := s_validRevisions st\<rparr>"
  have R: "RevertToSnapshot be i st2 = Ok ?t"
    using RevertToSnapshot_at[OF t(3) k(1), of be] k(2) t(1,2) u(1) hu by (simp add: journal_revert_def go_slice_def)
  have A: "acct be ?t = acct be u" "acct be st1 = acct be st" by (rule acct_cong; simp add: i Snapshot_def)+
  have rr: "rest ?t = rest u" "rest st1 = rest st" using i by (simp_all add: rest_def Snapshot_def)
  have "sdb_wf be ?t" using u(2) wf(1) rest_ok_rest[of ?t st] rr by (simp add: same_def sdb_wf_def sdb_inv_def)
  moreover have "rev_ok ?t"
  proof -
    have "s_nextRevisionId u = s_nextRevisionId st2" using undo_all_hist[OF u(1)] by (simp add: hist_def)
    moreover have "s_nextRevisionId st \<le> s_nextRevisionId st2"
      using r f(1) i by (auto simp: since_def)
    ultimately show ?thesis using wf(2) by (fastforce simp: rev_ok_def)
  qed
  ultimately show ?thesis using that[OF R] A rr u(2) by (simp add: same_def)
qed

lemma snapshot_revert:
  assumes wf: "sdb_wf be st" "rev_ok st" and s: "Snapshot st = (i, st1)" and ok: "\<forall>x\<in>set xs. op_ok i x"
    and r: "run_ops be xs st1 = Ok st2"
  obtains st3 where "RevertToSnapshot be i st2 = Ok st3" "acct be st3 = acct be st" "rest st3 = rest st"
    "s_entries st3 = s_entries st" "s_validRevisions st3 = s_validRevisions st" "sdb_wf be st3" "rev_ok st3"
proof -
  note w = Snapshot_wf[OF wf s]
  show ?thesis using since_snapshot_revert[OF wf s since_run[OF since_refl[OF w(1,2)] w(5) ok r]] that by blast
qed

section \<open>Finalising a transaction\<close>

definition doomed :: "backend \<Rightarrow> bool \<Rightarrow> stateObject \<Rightarrow> bool" where
  "doomed be del obj \<longleftrightarrow> so_suicided obj \<or> del \<and> so_empty be obj"

lemma doomed_finalise [simp]: "doomed be del (finalise_object be del obj) = doomed be del obj"
  by (auto simp: doomed_def finalise_object_def so_finalise_def so_empty_def)

lemma finalise_obj_ok: "obj_ok be n a obj \<Longrightarrow> obj_ok be n a (finalise_object be del obj)"
  by (auto simp: obj_ok_def finalise_object_def so_finalise_def trie_root_def)

lemma finalise_view:
  assumes "obj_ok be n a obj" "\<not> doomed be del obj"
  shows "view be d codes (finalise_object be del obj) = view be d codes obj"
proof -
  have f: "finalise_object be del obj = so_finalise obj" using assms(2) by (auto simp: finalise_object_def doomed_def)
  have "storage_val be d (so_finalise obj) = storage_val be d obj"
    by (auto simp: storage_val_def so_finalise_def trie_root_def fun_eq_iff map_add_def split: option.split)
  moreover have "obj_ok be n a (so_finalise obj)" using finalise_obj_ok[OF assms(1), of del] f by simp
  ultimately show ?thesis unfolding f view_ok[OF assms(1)] by (subst view_ok) (assumption, simp add: so_finalise_def)
qed

lemma finalise_addr_live:
  assumes wf: "be_ok be" "sdb_inv be st"
  shows "sdb_inv be (finalise_addr be del a st)"
    "live be (finalise_addr be del a st) b =
       (if b = a \<and> (\<exists>obj. s_objs st a = Some obj \<and> doomed be del obj) then None else live be st b)"
    "s_objs (finalise_addr be del a st) b = (if b = a then map_option (finalise_object be del) (s_objs st a) else s_objs st b)"
proof -
  have "sdb_inv be (finalise_addr be del a st) \<and>
    live be (finalise_addr be del a st) b =
       (if b = a \<and> (\<exists>obj. s_objs st a = Some obj \<and> doomed be del obj) then None else live be st b) \<and>
    s_objs (finalise_addr be del a st) b = (if b = a then map_option (finalise_object be del) (s_objs st a) else s_objs st b)"
  proof (cases "s_objs st a")
    case None
    then show ?thesis using wf by (simp add: finalise_addr_def)
  next
    case (Some obj)
    have ok: "obj_ok be (length (s_codes st)) a obj" by (rule inv_obj[OF wf(2) Some])
    then have ad: "length a = 20" "so_address obj = a" "so_addrHash obj = be_keccak be a" by (simp_all add: obj_ok_def)
    let ?o = "finalise_object be del obj" and ?D = "s_snapDestructs (finalise_addr be del a st)"
    have D: "?D = (if be_snap be \<and> doomed be del obj then insert (be_keccak be a) (s_snapDestructs st) else s_snapDestructs st)"
      using Some ad by (auto simp: finalise_addr_def Let_def doomed_def)
    note ok' = finalise_obj_ok[OF ok, of del]
    have t: "s_objs (finalise_addr be del a st) = (s_objs st)(a \<mapsto> ?o)" "s_codes (finalise_addr be del a st) = s_codes st"
      using Some by (simp_all add: finalise_addr_def Let_def)
    have inv: "sdb_inv be (finalise_addr be del a st)" using wf(2) ok' t by (auto simp: sdb_inv_def)
    have "live be (finalise_addr be del a st) b =
       (if b = a \<and> (\<exists>obj. s_objs st a = Some obj \<and> doomed be del obj) then None else live be st b)"
    proof (cases "b = a")
      case True
      have "live be (finalise_addr be del a st) a = (if so_deleted ?o then None else Some (view be ?D (s_codes st) ?o))"
        using t ad by (simp add: live_def acct_def)
      moreover have "doomed be del obj \<Longrightarrow> so_deleted ?o" by (simp add: finalise_object_def doomed_def)
      moreover have "\<not> doomed be del obj \<Longrightarrow> live be st a = (if so_deleted ?o then None else Some (view be ?D (s_codes st) ?o))"
      proof -
        assume n: "\<not> doomed be del obj"
        then have "so_deleted ?o = so_deleted obj" by (auto simp: finalise_object_def doomed_def so_finalise_def)
        then show "live be st a = (if so_deleted ?o then None else Some (view be ?D (s_codes st) ?o))"
          using n finalise_view[OF ok n] Some ad D by (simp add: live_def acct_def)
      qed
      ultimately show ?thesis using True Some by auto
    next
      case False
      have e: "s_objs ((setStateObject ?o st)\<lparr>s_snapDestructs := ?D\<rparr>) = s_objs (finalise_addr be del a st)"
        using t ok' by (simp add: obj_ok_def)
      have "acct be (finalise_addr be del a st) b = acct be ((setStateObject ?o st)\<lparr>s_snapDestructs := ?D\<rparr>) b"
        by (rule fun_cong[OF acct_cong]) (use e t in simp_all)
      also have "\<dots> = acct be (setStateObject ?o st) b"
        by (rule acct_destructs[OF wf(1) put_inv[OF wf(2) ok'] ad(1) _ False]) (simp add: D)
      also have "\<dots> = acct be st b" using acct_put[OF ok', of st] False by simp
      finally show ?thesis using False by (simp add: live_def)
    qed
    then show ?thesis using inv t Some by simp
  qed
  then show "sdb_inv be (finalise_addr be del a st)"
    "live be (finalise_addr be del a st) b =
       (if b = a \<and> (\<exists>obj. s_objs st a = Some obj \<and> doomed be del obj) then None else live be st b)"
    "s_objs (finalise_addr be del a st) b = (if b = a then map_option (finalise_object be del) (s_objs st a) else s_objs st b)"
    by blast+
qed

lemma finalise_fold_live:
  "be_ok be \<Longrightarrow> sdb_inv be st \<Longrightarrow> live be (fold (finalise_addr be del) xs st) b =
     (if b \<in> set xs \<and> (\<exists>obj. s_objs st b = Some obj \<and> doomed be del obj) then None else live be st b)"
proof (induction xs arbitrary: st)
  case (Cons x xs)
  note f = finalise_addr_live[OF Cons.prems, of del x]
  show ?case using Cons.IH[OF Cons.prems(1) f(1)] f(2,3) by (auto split: if_splits)
qed simp

lemma Finalise_live:
  assumes "be_ok be" "sdb_inv be st"
  shows "live be (Finalise be del st) b =
     (if b \<in> fst ` set (s_dirties st) \<and> (\<exists>obj. s_objs st b = Some obj \<and> doomed be del obj) then None else live be st b)"
proof -
  have "acct be (clearJournalAndRefund t) = acct be t" for t by (rule acct_cong) (simp_all add: clearJournalAndRefund_def Let_def)
  then show ?thesis using finalise_fold_live[OF assms, of del "map fst (s_dirties st)" b] by (simp add: Finalise_def live_def)
qed

end
