(* ===== verification/Statedb_Props.thy ===== *)
theory Statedb_Props
  imports Statedb_Revert
begin

text \<open>
  The contract of the account state as properties: the operations refine updates of a map from
  addresses to accounts, snapshots can be reverted to after any operations, finalising removes
  exactly the destroyed and empty dirty accounts, and the access list represents sets.
\<close>

text \<open>An empty backing store, for concrete runs.\<close>

definition sample_backend :: backend where
  "sample_backend = \<lparr>be_keccak = (\<lambda>b. if length b = 20 then b @ zero_array 12 else BytesToHash b),
     be_snap = True, be_snapAccount = (\<lambda>_. Some None), be_snapStorage = (\<lambda>_ _. Some []),
     be_TryGet = (\<lambda>_. Some []), be_hasStorageTrie = (\<lambda>_ _. True), be_StorageTryGet = (\<lambda>_ _ _. Some []),
     be_ContractCode = (\<lambda>_ _. None)\<rparr>"

lemma sample_backend_ok: "be_ok sample_backend"
  by (simp add: be_ok_def sample_backend_def loadAccount_def)

lemma statedb_New_wf: "be_ok be \<Longrightarrow> sdb_wf be statedb_New" "rev_ok statedb_New"
  by (simp_all add: sdb_wf_def sdb_inv_def statedb_New_def rest_ok_def rest_def al_inv_new rev_ok_def)

lemma sample_live: "live sample_backend statedb_New a = None"
  by (simp add: live_def acct_def statedb_New_def sample_backend_def loadAccount_def)

text \<open>C4. The account state refines a map from addresses to accounts. Loading and caching change
  nothing; each setter changes exactly the named field of the account at its address, which it
  creates empty when there is none; creating an account over a live one keeps its balance; self
  destruction clears the balance of a live account and marks it; every result is well formed.\<close>

theorem statedb_refines_accounts:
  assumes "sdb_wf be st" "length a = 20"
  shows "acct be (SetBalance be a x st) = (acct be st)(a \<mapsto> (base be st a)\<lparr>a_balance := x\<rparr>) \<and>
    acct be (AddBalance be a x st) = (acct be st)(a \<mapsto> (base be st a)\<lparr>a_balance := a_balance (base be st a) + x\<rparr>) \<and>
    acct be (SubBalance be a x st) = (acct be st)(a \<mapsto> (base be st a)\<lparr>a_balance := a_balance (base be st a) - x\<rparr>) \<and>
    acct be (SetNonce be a n st) = (acct be st)(a \<mapsto> (base be st a)\<lparr>a_nonce := n\<rparr>) \<and>
    acct be (SetState be a k v st) = (acct be st)(a \<mapsto> (base be st a)\<lparr>a_storage := (a_storage (base be st a))(k := v)\<rparr>) \<and>
    acct be (CreateAccount be a st) = (acct be st)(a \<mapsto> (new_account be (masked be st a) a)
       \<lparr>a_balance := (case live be st a of None \<Rightarrow> 0 | Some y \<Rightarrow> a_balance y)\<rparr>) \<and>
    acct be (snd (Suicide be a st)) = (case live be st a of None \<Rightarrow> acct be st
       | Some y \<Rightarrow> (acct be st)(a \<mapsto> y\<lparr>a_suicided := True, a_balance := 0\<rparr>)) \<and>
    fst (GetBalance be a st) = (case live be st a of None \<Rightarrow> 0 | Some y \<Rightarrow> a_balance y) \<and>
    fst (GetNonce be a st) = (case live be st a of None \<Rightarrow> 0 | Some y \<Rightarrow> a_nonce y) \<and>
    fst (GetState be a k st) = (case live be st a of None \<Rightarrow> zero_array 32 | Some y \<Rightarrow> a_storage y k) \<and>
    acct be (snd (GetBalance be a st)) = acct be st \<and> acct be (snd (GetState be a k st)) = acct be st \<and>
    acct be (snd (GetCode be a st)) = acct be st \<and>
    sdb_wf be (AddBalance be a x st) \<and> sdb_wf be (SetState be a k v st) \<and> sdb_wf be (CreateAccount be a st)"
proof -
  have w: "step be st es t \<Longrightarrow> sdb_wf be t" for es t by (simp add: step_def)
  have g: "same be st (snd (GetBalance be a st))" "same be st (snd (GetState be a k st))" "same be st (snd (GetCode be a st))"
    using GetBalance_spec(1)[OF assms prod.collapse[symmetric]] GetState_spec(1)[OF assms prod.collapse[symmetric]]
      GetCode_spec(1)[OF assms prod.collapse[symmetric]] by blast+
  show ?thesis
    using SetBalance_effect[OF assms, of x] AddBalance_effect[OF assms, of x] SubBalance_effect[OF assms, of x]
      SetNonce_effect[OF assms, of n] SetState_effect[OF assms, of k v] CreateAccount_spec[OF assms] Suicide_spec(3)[OF assms]
      GetBalance_spec(3)[OF assms prod.collapse[symmetric]] GetNonce_spec(3)[OF assms prod.collapse[symmetric]]
      GetState_spec(3)[OF assms prod.collapse[symmetric]] g w
    unfolding effect_def same_def by auto
qed

theorem statedb_refines_accounts_witness:
  "fst (GetBalance sample_backend (replicate 20 7) statedb_New) = 0 \<and>
   (\<exists>v. acct sample_backend (AddBalance sample_backend (replicate 20 7) 5 statedb_New) (replicate 20 7) = Some v \<and> a_balance v = 5)"
  using statedb_refines_accounts[OF statedb_New_wf(1)[OF sample_backend_ok], of "replicate 20 7" 5]
  by (simp add: sample_live base_def)

text \<open>C23. Setting code makes it readable: after storing a slice as the code of an account, reading
  the code gives its bytes and the stored code hash is their Keccak hash; other accounts and
  the code slices themselves are untouched.\<close>

theorem SetCode_GetCode:
  assumes "sdb_wf be st" "length a = 20" "new_slice c st = (r, st1)"
  shows "(case GetCode be a (SetCode be a r st1) of (q, st2) \<Rightarrow> deref st2 q = c) \<and>
    fst (GetCodeHash be a (SetCode be a r st1)) = be_keccak be c \<and>
    (\<forall>b. b \<noteq> a \<longrightarrow> acct be (SetCode be a r st1) b = acct be st b)"
proof -
  have r: "r = Some (length (s_codes st))" "st1 = grow c st" using assms(3) by (simp_all add: new_slice_grow)
  have g: "same be st st1" unfolding r by (rule grow_same[OF assms(1)])
  have w1: "sdb_wf be st1" by (rule wf_same[OF assms(1) g])
  have d: "deref st1 r = c" by (simp add: r deref_def)
  have v: "\<forall>i. r = Some i \<longrightarrow> i < length (s_codes st1)" by (simp add: r)
  let ?t = "SetCode be a r st1"
  have e: "effect be st1 a (\<lambda>v. v\<lparr>a_codeHash := be_keccak be c, a_code := c\<rparr>) ?t"
    using SetCode_effect[OF w1 assms(2) v] unfolding d .
  then have w: "sdb_wf be ?t" and A: "acct be ?t = (acct be st1)(a \<mapsto> (base be st1 a)\<lparr>a_codeHash := be_keccak be c, a_code := c\<rparr>)"
    by (auto simp: effect_def step_def)
  have l: "live be ?t a = Some ((base be st1 a)\<lparr>a_codeHash := be_keccak be c, a_code := c\<rparr>)" by (simp add: live_def A)
  obtain q st2 where q: "GetCode be a ?t = (q, st2)" by fastforce
  have G: "deref st2 q = c" using GetCode_spec(3)[OF w assms(2) q] l by simp
  obtain o1 s1 where o1: "getStateObject be a ?t = (o1, s1)" by fastforce
  have k32: "length (be_keccak be c) = 32" using assms(1) by (simp add: sdb_wf_def be_ok_def)
  have "map_option (\<lambda>v. a_codeHash v) (live be ?t a) = map_option so_codeHash o1"
    using getStateObject_spec(5)[OF _ _ assms(2) o1] w by (simp add: sdb_wf_def option.map_comp comp_def)
  then have "fst (GetCodeHash be a ?t) = be_keccak be c" using l k32 by (auto simp: GetCodeHash_def o1 split: option.splits)
  moreover have "acct be ?t b = acct be st b" if "b \<noteq> a" for b using A g that by (simp add: same_def)
  ultimately show ?thesis using q G by simp
qed

theorem SetCode_GetCode_witness:
  "case GetCode sample_backend (replicate 20 7) (SetCode sample_backend (replicate 20 7) (Some 0) (snd (new_slice [1, 2, 3] statedb_New)))
   of (q, st2) \<Rightarrow> deref st2 q = [1, 2, 3]"
  using SetCode_GetCode[OF statedb_New_wf(1)[OF sample_backend_ok], of "replicate 20 7" "[1, 2, 3]" "Some 0"]
  by (simp add: new_slice_def statedb_New_def)

text \<open>C3. Reverting restores: after a snapshot, any sequence of balance, nonce, code, storage,
  self-destruct, creation, refund, log, preimage and access-list operations, of reads, and of nested
  snapshots and reverts to them, reverting to the snapshot succeeds and gives back the accounts,
  logs, refund counter, preimages, access list, journal and revisions of the moment of the snapshot.\<close>

theorem revert_restores_snapshot:
  assumes "sdb_wf be st" "rev_ok st" "Snapshot st = (i, st1)" "\<forall>x\<in>set xs. op_ok i x" "run_ops be xs st1 = Ok st2"
  shows "\<exists>st3. RevertToSnapshot be i st2 = Ok st3 \<and> acct be st3 = acct be st \<and>
    s_refund st3 = s_refund st \<and> s_logs st3 = s_logs st \<and> s_logSize st3 = s_logSize st \<and>
    s_preimages st3 = s_preimages st \<and> s_accessList st3 = s_accessList st \<and> s_snapDestructs st3 = s_snapDestructs st \<and>
    s_entries st3 = s_entries st \<and> s_validRevisions st3 = s_validRevisions st \<and> sdb_wf be st3 \<and> rev_ok st3"
proof -
  obtain st3 where "RevertToSnapshot be i st2 = Ok st3" "acct be st3 = acct be st" "rest st3 = rest st"
    "s_entries st3 = s_entries st" "s_validRevisions st3 = s_validRevisions st" "sdb_wf be st3" "rev_ok st3"
    by (rule snapshot_revert[OF assms])
  then show ?thesis by (simp add: rest_def)
qed

theorem revert_restores_snapshot_witness:
  "\<exists>st2 st3. run_ops sample_backend [OpAddRefund 5, OpAddPreimage [1] [2], OpAddRefund 7] (snd (Snapshot statedb_New)) = Ok st2 \<and>
     s_refund st2 = 12 \<and> RevertToSnapshot sample_backend 0 st2 = Ok st3 \<and> s_refund st3 = 0"
proof -
  let ?xs = "[OpAddRefund 5, OpAddPreimage [1] [2], OpAddRefund 7]"
  have s: "Snapshot statedb_New = (0, snd (Snapshot statedb_New))" by (simp add: Snapshot_def statedb_New_def)
  obtain st2 where r: "run_ops sample_backend ?xs (snd (Snapshot statedb_New)) = Ok st2" "s_refund st2 = 12"
    by (simp add: AddRefund_def AddPreimage_def Let_def Snapshot_def statedb_New_def journal_append_def)
  from revert_restores_snapshot[OF statedb_New_wf(1)[OF sample_backend_ok] statedb_New_wf(2) s _ r(1)] r
  show ?thesis by (auto simp: statedb_New_def)
qed

text \<open>C24. \<^verbatim>\<open>Finalise\<close> deletes exactly the dirty live objects that self-destructed or, when asked to, are
  empty; every other account reads as before, with its dirty slots now pending. The journal and
  the revisions are gone, so no earlier snapshot can be reverted to.\<close>

theorem Finalise_deletes_doomed:
  assumes "sdb_wf be st"
  shows "live be (Finalise be del st) b =
     (if b \<in> fst ` set (s_dirties st) \<and> (\<exists>obj. s_objs st b = Some obj \<and> (so_suicided obj \<or> del \<and> so_empty be obj))
      then None else live be st b) \<and>
   s_entries (Finalise be del st) = [] \<and> s_validRevisions (Finalise be del st) = [] \<and>
   (s_entries st \<noteq> [] \<longrightarrow> s_refund (Finalise be del st) = 0) \<and>
   RevertToSnapshot be i (Finalise be del st) = Panic"
proof -
  have h: "hist (fold (finalise_addr be del) xs t) = hist t" for xs t
    by (induction xs arbitrary: t) (auto simp: finalise_addr_def hist_def Let_def split: option.split)
  have e: "s_entries (fold (finalise_addr be del) xs st) = s_entries st" for xs using h[of xs st] by (simp add: hist_def)
  have v: "s_validRevisions (Finalise be del st) = []" by (simp add: Finalise_def clearJournalAndRefund_def Let_def)
  have "live be (Finalise be del st) b =
     (if b \<in> fst ` set (s_dirties st) \<and> (\<exists>obj. s_objs st b = Some obj \<and> (so_suicided obj \<or> del \<and> so_empty be obj))
      then None else live be st b)"
    using Finalise_live[of be st del b] assms by (simp add: sdb_wf_def doomed_def)
  moreover have "RevertToSnapshot be i (Finalise be del st) = Panic"
    by (simp add: RevertToSnapshot_def v Search_def search_loop.simps)
  ultimately show ?thesis using v by (auto simp: Finalise_def clearJournalAndRefund_def Let_def e)
qed

theorem Finalise_deletes_doomed_witness:
  "live sample_backend (Finalise sample_backend True statedb_New) (replicate 20 1) = None \<and>
   RevertToSnapshot sample_backend 0 (Finalise sample_backend True statedb_New) = Panic"
  using Finalise_deletes_doomed[OF statedb_New_wf(1)[OF sample_backend_ok], of True "replicate 20 1" 0] sample_live by simp

text \<open>C25. The access list represents a set of addresses and a set of address-slot pairs: the two
  flags \<^verbatim>\<open>Contains\<close> returns are membership, \<^verbatim>\<open>AddSlot\<close> adds the pair and its address and reports what
  was new, and deleting what was added, in reverse order, gives back the very same list.\<close>

theorem access_list_refines_sets:
  assumes "al_inv al"
  shows "Contains al a s = Ok (ContainsAddress al a, (a, s) \<in> al_pairs al) \<and>
    (\<exists>al'. AddSlot al a s = Ok ((\<not> ContainsAddress al a, (a, s) \<notin> al_pairs al), al') \<and> al_inv al' \<and>
       al_pairs al' = insert (a, s) (al_pairs al) \<and> (\<forall>b. ContainsAddress al' b \<longleftrightarrow> b = a \<or> ContainsAddress al b) \<and>
       ((a, s) \<notin> al_pairs al \<longrightarrow> rbind (DeleteSlot al' a s)
          (\<lambda>x. Ok (if ContainsAddress al a then x else DeleteAddress x a)) = Ok al)) \<and>
    al_inv (snd (AddAddress al a)) \<and> (fst (AddAddress al a) \<longleftrightarrow> \<not> ContainsAddress al a) \<and>
    (\<not> ContainsAddress al a \<longrightarrow> DeleteAddress (snd (AddAddress al a)) a = al)"
proof -
  obtain al' where al': "AddSlot al a s = Ok ((\<not> ContainsAddress al a, (a, s) \<notin> al_pairs al), al')"
    "al_inv al'" "al_pairs al' = insert (a, s) (al_pairs al)" "\<forall>b. ContainsAddress al' b \<longleftrightarrow> b = a \<or> ContainsAddress al b"
    "(a, s) \<notin> al_pairs al \<longrightarrow> DeleteSlot al' a s = Ok (al_undo_slot al a)" using AddSlot_spec[OF assms, of a s] by metis
  have "(a, s) \<notin> al_pairs al \<longrightarrow> rbind (DeleteSlot al' a s) (\<lambda>x. Ok (if ContainsAddress al a then x else DeleteAddress x a)) = Ok al"
    using al'(5) DeleteAddress_undo(2)[of al a] by (auto simp: al_undo_slot_def)
  with al' show ?thesis
    using Contains_pairs[OF assms, of a s] AddAddress_inv[OF assms, of a] AddAddress_spec(1)[of al a] DeleteAddress_undo(1)[of al a]
    by blast
qed

theorem access_list_refines_sets_witness:
  "Contains newAccessList [1] [2] = Ok (False, False) \<and> (\<exists>al'. AddSlot newAccessList [1] [2] = Ok ((True, True), al') \<and> al_inv al')"
  using access_list_refines_sets[OF al_inv_new, of "[1]" "[2]"]
  by (auto simp: newAccessList_def ContainsAddress_def al_pairs_def)

end
