(* ===== verification/Shuffle.thy ===== *)
theory Shuffle
  imports Common "HOL-Library.Multiset"
begin

text \<open>
  The swap-or-not shuffle of validators (\<^verbatim>\<open>src/validator/shuffle/\<close>). SHA-256 comes from an
  external package and is the parameter \<open>sha\<close>; what is assumed of it is that a digest has 32
  bytes. The list is shuffled in place by two loops per round that keep the current digest and
  its current byte between steps; the reference definition computes where each position comes
  from, as the specification of the algorithm does.
\<close>

unbundle bit_operations_syntax

section \<open>The code\<close>

lemma unat_inc: "i < (m :: u64) \<Longrightarrow> unat (i + 1) = Suc (unat i)"
  using unat_u64_less[of m] by (simp add: unat_word_ariths(1) word_less_nat_alt)

definition FromBytes8 :: "bytes \<Rightarrow> u64" where
  "FromBytes8 x = (if length x < 8 then 0 else word_of_nat (of_be (rev (take 8 x))))"

definition Bytes8 :: "u64 \<Rightarrow> bytes" where
  "Bytes8 x = Uint64ToBytes x"

definition PutUint32 :: "bytes \<Rightarrow> u64 \<Rightarrow> bytes" where
  "PutUint32 buf p = take 33 buf @ rev (to_be 4 (unat (ucast p :: u32)))"

definition sourceByte :: "hash \<Rightarrow> u64 \<Rightarrow> byte" where
  "sourceByte source j = source ! unat (drop_bit 3 (j AND 0xFF))"

definition go_swap :: "'a list \<Rightarrow> u64 \<Rightarrow> u64 \<Rightarrow> 'a list res" where
  "go_swap xs i j =
     rbind (go_index xs (unat j)) (\<lambda>y. rbind (go_index xs (unat i)) (\<lambda>x.
     Ok (xs[unat i := y, unat j := x])))"

definition swapOrNot ::
  "(bytes \<Rightarrow> hash) \<Rightarrow> bytes \<Rightarrow> byte \<Rightarrow> u64 \<Rightarrow> u64 \<Rightarrow> address list \<Rightarrow> hash \<Rightarrow>
     (bytes \<times> byte \<times> address list \<times> hash) res" where
  "swapOrNot sha buf byteV i j validators source =
     (let (buf1, source1) =
            (if j AND 0xFF = 0xFF
             then (let b = PutUint32 buf (drop_bit 8 j) in (b, sha b)) else (buf, source));
          byteV1 = (if j AND 7 = 7 then sourceByte source1 j else byteV);
          bitV = drop_bit (unat (j AND 7)) byteV1 AND 1
      in if bitV = 1
         then rbind (go_swap validators i j) (\<lambda>vs. Ok (buf1, byteV1, vs, source1))
         else Ok (buf1, byteV1, validators, source1))"

function swapLoop ::
  "(bytes \<Rightarrow> hash) \<Rightarrow> u64 \<Rightarrow> bytes \<Rightarrow> byte \<Rightarrow> u64 \<Rightarrow> u64 \<Rightarrow> address list \<Rightarrow> hash \<Rightarrow>
     (bytes \<times> address list) res" where
  "swapLoop sha mirror buf byteV i j validators source =
     (if i < mirror
      then rbind (swapOrNot sha buf byteV i j validators source) (\<lambda>(buf1, byteV1, vs1, source1).
             swapLoop sha mirror buf1 byteV1 (i + 1) (j - 1) vs1 source1)
      else Ok (buf, validators))"
  by pat_completeness auto
termination
  by (relation "measure (\<lambda>(sha, mirror, buf, byteV, i, j, vs, source). unat mirror - unat i)")
    (simp_all add: unat_inc word_less_nat_alt diff_less_mono2)

declare swapLoop.simps [simp del]

definition shuffleRound ::
  "(bytes \<Rightarrow> hash) \<Rightarrow> byte \<Rightarrow> bytes \<Rightarrow> address list \<Rightarrow> (bytes \<times> address list) res" where
  "shuffleRound sha r buf validators =
     (let listSize = word_of_nat (length validators);
          buf1 = buf[32 := r];
          ph = sha (take 33 buf1);
          pivot = FromBytes8 (take 8 ph) mod listSize;
          mirror = drop_bit 1 (pivot + 1);
          buf2 = PutUint32 buf1 (drop_bit 8 pivot);
          source = sha buf2;
          byteV = sourceByte source pivot
      in rbind (swapLoop sha mirror buf2 byteV 0 pivot validators source) (\<lambda>(buf3, vs).
         (let mirror2 = drop_bit 1 (pivot + listSize + 1);
              end1 = listSize - 1;
              buf4 = PutUint32 buf3 (drop_bit 8 end1);
              source2 = sha buf4;
              byteV2 = sourceByte source2 end1
          in swapLoop sha mirror2 buf4 byteV2 (pivot + 1) end1 vs source2)))"

abbreviation shuffleRoundCount :: byte where "shuffleRoundCount \<equiv> 90"

function shuffleRounds ::
  "(bytes \<Rightarrow> hash) \<Rightarrow> bool \<Rightarrow> byte \<Rightarrow> bytes \<Rightarrow> address list \<Rightarrow> address list res" where
  "shuffleRounds sha shuffl r buf validators =
     rbind (shuffleRound sha r buf validators) (\<lambda>(buf1, vs).
       if shuffl then
         (if r + 1 = shuffleRoundCount then Ok vs else shuffleRounds sha shuffl (r + 1) buf1 vs)
       else (if r = 0 then Ok vs else shuffleRounds sha shuffl (r - 1) buf1 vs))"
  by pat_completeness auto
termination
proof (relation "measure (\<lambda>(sha, shuffl, r :: byte, buf, vs). if shuffl then unat (89 - r) else unat r)", simp)
  show "((sha, shuffl, r + 1, buf1, vs1), (sha, shuffl, r, buf, vs))
      \<in> measure (\<lambda>(sha, shuffl, r :: byte, buf, vs). if shuffl then unat (89 - r) else unat r)"
    if "shuffl" "r + 1 \<noteq> shuffleRoundCount"
    for sha :: "bytes \<Rightarrow> hash" and shuffl and r :: byte and buf1 buf :: bytes and vs1 vs :: "address list"
  proof -
    have "r \<noteq> 89" using that(2) by auto
    then show ?thesis using that(1) measure_unat[of "89 - r"] by (simp add: diff_diff_eq)
  qed
qed (simp add: measure_unat)

declare shuffleRounds.simps [simp del]

definition maxShuffleListSize :: nat where
  "maxShuffleListSize = 2 ^ 40"

definition innerShuffleList ::
  "(bytes \<Rightarrow> hash) \<Rightarrow> address list \<Rightarrow> hash \<Rightarrow> bool \<Rightarrow> address list res" where
  "innerShuffleList sha validators seed shuffl =
     (if length validators \<le> 1 then Ok validators
      else if length validators > maxShuffleListSize then Err (ChainErr ShuffleListTooBig)
      else let r = (if shuffl then 0 else shuffleRoundCount - 1);
               buf = go_copy (zero_array 37) seed
           in shuffleRounds sha shuffl r buf validators)"

definition unshuffleList :: "(bytes \<Rightarrow> hash) \<Rightarrow> address list \<Rightarrow> hash \<Rightarrow> address list res" where
  "unshuffleList sha validators seed = innerShuffleList sha validators seed False"

definition ShuffleValidators :: "(bytes \<Rightarrow> hash) \<Rightarrow> address list \<Rightarrow> hash \<Rightarrow> address list res" where
  "ShuffleValidators sha validators seed = unshuffleList sha validators seed"

section \<open>Reference: where each position comes from\<close>

text \<open>In round \<open>r\<close> the position \<open>k\<close> is paired with its mirror image about the pivot, and the
  pair is swapped when the bit that the digest assigns to its larger member is set.\<close>

definition pos_source :: "(bytes \<Rightarrow> hash) \<Rightarrow> hash \<Rightarrow> byte \<Rightarrow> nat \<Rightarrow> hash" where
  "pos_source sha seed r k = sha (seed @ [r] @ rev (to_be 4 (k div 256)))"

definition pos_byte :: "(bytes \<Rightarrow> hash) \<Rightarrow> hash \<Rightarrow> byte \<Rightarrow> nat \<Rightarrow> byte" where
  "pos_byte sha seed r k = pos_source sha seed r k ! (k mod 256 div 8)"

definition pos_bit :: "(bytes \<Rightarrow> hash) \<Rightarrow> hash \<Rightarrow> byte \<Rightarrow> nat \<Rightarrow> bool" where
  "pos_bit sha seed r k = bit (pos_byte sha seed r k) (k mod 8)"

definition pivot_of :: "(bytes \<Rightarrow> hash) \<Rightarrow> hash \<Rightarrow> byte \<Rightarrow> nat \<Rightarrow> nat" where
  "pivot_of sha seed r n = of_be (rev (take 8 (sha (seed @ [r])))) mod n"

definition flip_index :: "nat \<Rightarrow> nat \<Rightarrow> nat \<Rightarrow> nat" where
  "flip_index n p k = (p + n - k) mod n"

definition step_index :: "(bytes \<Rightarrow> hash) \<Rightarrow> hash \<Rightarrow> nat \<Rightarrow> byte \<Rightarrow> nat \<Rightarrow> nat" where
  "step_index sha seed n r k =
     (let f = flip_index n (pivot_of sha seed r n) k
      in if pos_bit sha seed r (max k f) then f else k)"

definition compute_shuffled_index :: "(bytes \<Rightarrow> hash) \<Rightarrow> hash \<Rightarrow> nat \<Rightarrow> nat \<Rightarrow> nat" where
  "compute_shuffled_index sha seed n k = fold (step_index sha seed n) (map word_of_nat [0..<90]) k"

section \<open>One step\<close>

lemma u64_bits:
  "unat (j AND 0xFF :: u64) = unat j mod 256" "unat (j AND 7 :: u64) = unat j mod 8"
  "unat (drop_bit k j :: u64) = unat j div 2 ^ k"
proof -
  have "j AND 0xFF = take_bit 8 j" "j AND 7 = take_bit 3 j"
    by (simp_all add: take_bit_eq_mask mask_eq_exp_minus_1 and.commute)
  then show "unat (j AND 0xFF) = unat j mod 256" "unat (j AND 7) = unat j mod 8"
    by (simp_all add: take_bit_eq_mod unat_mod_distrib)
  show "unat (drop_bit k j :: u64) = unat j div 2 ^ k"
    by (metis unat_drop_bit_eq drop_bit_eq_div)
qed

lemma PutUint32_eq: "take 33 buf = pre \<Longrightarrow> PutUint32 buf (drop_bit 8 j) = pre @ rev (to_be 4 (unat j div 256))"
proof -
  have "unat (ucast (drop_bit 8 j) :: u32) = unat j div 256 mod 256 ^ 4"
    by (simp add: unsigned_ucast_eq take_bit_eq_mod drop_bit_eq_div unat_div_distrib)
  then show "take 33 buf = pre \<Longrightarrow> PutUint32 buf (drop_bit 8 j) = pre @ rev (to_be 4 (unat j div 256))"
    using to_be_mod[of 4 4 "unat j div 256"] by (simp add: PutUint32_def)
qed

lemma sourceByte_eq: "sourceByte source j = source ! (unat j mod 256 div 8)"
  by (simp only: sourceByte_def u64_bits) simp

lemma u64_and_iff:
  "j AND 0xFF = (0xFF :: u64) \<longleftrightarrow> unat j mod 256 = 255" "j AND 7 = (7 :: u64) \<longleftrightarrow> unat j mod 8 = 7"
  by (simp_all add: word_unat_eq_iff u64_bits)

lemma byte_bit: "drop_bit k (b :: byte) AND 1 = 1 \<longleftrightarrow> bit b k"
  by (simp add: bit_iff_odd_drop_bit and_one_eq odd_iff_mod_2_eq_one)

lemma swap_nth:
  "i < length xs \<Longrightarrow> j < length xs \<Longrightarrow> k < length xs \<Longrightarrow>
   xs[i := xs ! j, j := xs ! i] ! k = xs ! (if k = i then j else if k = j then i else k)"
  by (auto simp: nth_list_update)

text \<open>The cached digest and byte agree with the position unless the step refreshes them.\<close>

definition cached :: "(bytes \<Rightarrow> hash) \<Rightarrow> hash \<Rightarrow> byte \<Rightarrow> nat \<Rightarrow> bytes \<Rightarrow> byte \<Rightarrow> hash \<Rightarrow> bool" where
  "cached sha seed r k buf byteV source \<longleftrightarrow> take 33 buf = seed @ [r] \<and>
     (k mod 256 \<noteq> 255 \<longrightarrow> source = pos_source sha seed r k) \<and>
     (k mod 8 \<noteq> 7 \<longrightarrow> byteV = pos_byte sha seed r k)"

lemma cached_start:
  "length seed = 32 \<Longrightarrow> take 33 buf = seed @ [r] \<Longrightarrow>
   cached sha seed r (unat j) (PutUint32 buf (drop_bit 8 j))
     (sourceByte (sha (PutUint32 buf (drop_bit 8 j))) j) (sha (PutUint32 buf (drop_bit 8 j)))"
  by (auto simp: cached_def PutUint32_eq sourceByte_eq pos_byte_def pos_source_def)

lemma div_step: "0 < n \<Longrightarrow> k mod n \<noteq> n - 1 \<Longrightarrow> Suc k div n = k div (n :: nat)"
  by (auto simp: div_Suc mod_Suc split: if_splits)

lemma byte_of_pos: "k div 256 = k div 8 div 32" "k mod 256 div 8 = k div 8 mod (32 :: nat)"
  using div_mult2_eq[of k 8 32] mod_mult2_eq[of k 8 32] by simp_all

lemma swapOrNot_spec:
  assumes "length seed = 32" "cached sha seed r (unat j) buf byteV source" "unat i < length vs"
    "unat j < length vs"
  obtains buf1 byteV1 source1 where
    "swapOrNot sha buf byteV i j vs source =
       Ok (buf1, byteV1,
           (if pos_bit sha seed r (unat j) then vs[unat i := vs ! unat j, unat j := vs ! unat i] else vs), source1)"
    "unat j > 0 \<longrightarrow> cached sha seed r (unat j - 1) buf1 byteV1 source1"
    "take 33 buf1 = seed @ [r]"
proof -
  let ?j = "unat j"
  let ?s1 = "pos_source sha seed r ?j" and ?b1 = "pos_byte sha seed r ?j"
  let ?buf1 = "if ?j mod 256 = 255 then PutUint32 buf (drop_bit 8 j) else buf"
  have buf: "take 33 buf = seed @ [r]" using assms(2) by (simp add: cached_def)
  have put: "sha (PutUint32 buf (drop_bit 8 j)) = ?s1"
    by (simp add: PutUint32_eq[OF buf] pos_source_def)
  have b1: "(if ?j mod 8 = 7 then sourceByte ?s1 j else byteV) = ?b1"
    using assms(2) by (auto simp: cached_def sourceByte_eq pos_byte_def)
  have s1: "?j mod 256 \<noteq> 255 \<Longrightarrow> source = ?s1" using assms(2) by (simp add: cached_def)
  have main: "swapOrNot sha buf byteV i j vs source = Ok (?buf1, ?b1,
       (if pos_bit sha seed r ?j then vs[unat i := vs ! ?j, ?j := vs ! unat i] else vs), ?s1)"
    using assms(3,4) s1
    by (simp add: swapOrNot_def u64_and_iff put b1 Let_def u64_bits byte_bit go_swap_def go_index_def pos_bit_def)
  have pre: "take 33 ?buf1 = seed @ [r]"
    using buf assms(1) by (auto simp: PutUint32_eq[OF buf])
  have "cached sha seed r (?j - 1) ?buf1 ?b1 ?s1" if "?j > 0"
  proof -
    obtain k where k: "?j = Suc k" using \<open>?j > 0\<close> by (cases ?j) auto
    have "pos_source sha seed r ?j = pos_source sha seed r k" if "k mod 256 \<noteq> 255"
      using div_step[of 256 k] that by (simp add: pos_source_def k)
    moreover have "pos_byte sha seed r ?j = pos_byte sha seed r k" if "k mod 8 \<noteq> 7"
      using div_step[of 8 k] that byte_of_pos[of "Suc k"] byte_of_pos[of k]
      by (simp add: pos_byte_def pos_source_def k)
    ultimately show ?thesis using pre k by (simp add: cached_def)
  qed
  then show ?thesis by (intro that[OF main _ pre] impI)
qed

section \<open>The two loops of a round\<close>

definition mirrored :: "(nat \<Rightarrow> bool) \<Rightarrow> nat \<Rightarrow> nat \<Rightarrow> nat \<Rightarrow> nat" where
  "mirrored f i j k = (if i \<le> k \<and> k \<le> j \<and> f (max k (i + j - k)) then i + j - k else k)"

lemma half_less: "(a :: nat) < (a + b + 1) div 2 \<longleftrightarrow> a < b"
  by presburger

lemma mirrored_step:
  assumes "i < j" "j < length vs" "k < length vs"
  shows "(if f j then vs[i := vs ! j, j := vs ! i] else vs) ! mirrored f (Suc i) (j - 1) k = vs ! mirrored f i j k"
proof -
  have s: "Suc i + (j - 1) - k = i + j - k" using assms(1) by simp
  consider "k = i \<or> k = j" | "i < k \<and> k < j" | "k < i \<or> j < k" by linarith
  then show ?thesis
  proof cases
    case 1
    then have "mirrored f (Suc i) (j - 1) k = k" "max k (i + j - k) = j" using assms(1) by (auto simp: mirrored_def)
    then show ?thesis using 1 assms by (auto simp: mirrored_def)
  next
    case 2
    then have "mirrored f (Suc i) (j - 1) k = mirrored f i j k" by (auto simp: mirrored_def s)
    moreover have "mirrored f i j k \<noteq> i \<and> mirrored f i j k \<noteq> j" using 2 by (auto simp: mirrored_def)
    ultimately show ?thesis by simp
  next
    case 3
    then have "mirrored f (Suc i) (j - 1) k = k" "mirrored f i j k = k" "k \<noteq> i" "k \<noteq> j"
      using assms(1) by (auto simp: mirrored_def)
    then show ?thesis by simp
  qed
qed

lemma swapLoop_spec:
  assumes "length seed = 32" "cached sha seed r (unat j) buf byteV source" "unat j < length vs" "unat i \<le> Suc (unat j)"
    "unat mirror = (unat i + unat j + 1) div 2"
  shows "\<exists>buf1 ys. swapLoop sha mirror buf byteV i j vs source = Ok (buf1, ys) \<and> take 33 buf1 = seed @ [r] \<and>
    length ys = length vs \<and>
    (\<forall>k < length vs. ys ! k = vs ! mirrored (pos_bit sha seed r) (unat i) (unat j) k)"
  using assms
proof (induction "unat mirror - unat i" arbitrary: i j buf byteV source vs rule: less_induct)
  case less
  let ?i = "unat i" and ?j = "unat j" and ?b = "pos_bit sha seed r"
  show ?case
  proof (cases "i < mirror")
    case False
    then have "?j \<le> ?i" by (simp add: word_less_nat_alt less.prems(5) half_less del: One_nat_def)
    then have "mirrored ?b ?i ?j k = k" for k by (auto simp: mirrored_def)
    then show ?thesis using False less.prems(2) by (simp add: swapLoop.simps cached_def)
  next
    case True
    then have ij: "?i < ?j" by (simp add: word_less_nat_alt less.prems(5) half_less del: One_nat_def)
    let ?vs = "if ?b ?j then vs[?i := vs ! ?j, ?j := vs ! ?i] else vs"
    obtain buf1 byteV1 source1 where
      s: "swapOrNot sha buf byteV i j vs source = Ok (buf1, byteV1, ?vs, source1)" and
      c: "cached sha seed r (?j - 1) buf1 byteV1 source1"
      by (rule swapOrNot_spec[OF less.prems(1,2) _ less.prems(3), of i]) (use ij less.prems(3) in auto)
    have i1: "unat (i + 1) = Suc ?i" using True by (rule unat_inc)
    have j1: "unat (j - 1) = ?j - 1" using ij by (subst unat_sub) (auto simp: word_le_nat_alt)
    have "\<exists>buf2 ys. swapLoop sha mirror buf1 byteV1 (i + 1) (j - 1) ?vs source1 = Ok (buf2, ys) \<and>
       take 33 buf2 = seed @ [r] \<and> length ys = length ?vs \<and>
       (\<forall>k < length ?vs. ys ! k = ?vs ! mirrored ?b (Suc ?i) (?j - 1) k)"
      using less.hyps[of "i + 1" "j - 1" buf1 byteV1 source1 ?vs] less.prems c ij True
      by (simp add: i1 j1 word_less_nat_alt)
    then obtain buf2 ys where r: "swapLoop sha mirror buf1 byteV1 (i + 1) (j - 1) ?vs source1 = Ok (buf2, ys)"
      "take 33 buf2 = seed @ [r]" "length ys = length vs"
      and ys: "\<And>k. k < length vs \<Longrightarrow> ys ! k = ?vs ! mirrored ?b (Suc ?i) (?j - 1) k" by auto
    have "ys ! k = vs ! mirrored ?b ?i ?j k" if "k < length vs" for k
      using mirrored_step[OF ij less.prems(3) that, of ?b] ys[OF that] by simp
    then show ?thesis using True s r by (simp add: swapLoop.simps)
  qed
qed

lemma mirrored_both:
  assumes "p < n" "k < n"
  shows "mirrored f 0 p (mirrored f (Suc p) (n - 1) k) =
    (let g = flip_index n p k in if f (max k g) then g else k)"
proof (cases "k \<le> p")
  case True
  then have e: "p + n - k = (p - k) + n" by simp
  have "flip_index n p k = p - k" unfolding flip_index_def e using assms by simp
  moreover have "mirrored f (Suc p) (n - 1) k = k" using True by (simp add: mirrored_def)
  ultimately show ?thesis using True by (simp add: mirrored_def Let_def)
next
  case False
  have g: "flip_index n p k = p + n - k" using False assms by (simp add: flip_index_def)
  have e: "Suc p + (n - 1) - k = p + n - k" using False assms by simp
  have m: "mirrored f (Suc p) (n - 1) k = (if f (max k (p + n - k)) then p + n - k else k)"
    unfolding mirrored_def e using False assms by auto
  have "mirrored f 0 p m = m" if "p < m" for m using that by (simp add: mirrored_def)
  from this[of k] this[of "p + n - k"] show ?thesis unfolding m g Let_def using False assms by auto
qed

definition round_ref :: "(bytes \<Rightarrow> hash) \<Rightarrow> hash \<Rightarrow> byte \<Rightarrow> address list \<Rightarrow> address list" where
  "round_ref sha seed r vs = map (\<lambda>k. vs ! step_index sha seed (length vs) r k) [0..<length vs]"

lemma unat_FromBytes8:
  assumes "length h = 32"
  shows "unat (FromBytes8 (take 8 h)) = of_be (rev (take 8 h))"
proof -
  have "of_be (rev (take 8 h)) < 256 ^ 8" using of_be_less[of "rev (take 8 h)"] assms by simp
  then have "of_be (rev (take 8 h)) < 2 ^ 64" by simp
  from unat_of_nat_u64[OF this] show ?thesis using assms by (simp only: FromBytes8_def) simp
qed

lemma shuffleRound_spec:
  assumes sha: "\<forall>x. length (sha x) = 32" and buf: "take 32 buf = seed" "length seed = 32" "length buf > 32"
    and n: "2 \<le> length vs" "length vs \<le> 2 ^ 40"
  shows "\<exists>buf1. shuffleRound sha r buf vs = Ok (buf1, round_ref sha seed r vs) \<and>
    take 32 buf1 = seed \<and> length buf1 > 32"
proof -
  let ?n = "length vs" and ?N = "word_of_nat (length vs) :: u64"
  let ?buf1 = "buf[32 := r]" and ?b = "pos_bit sha seed r"
  let ?pivot = "FromBytes8 (take 8 (sha (take 33 ?buf1))) mod ?N" and ?p = "pivot_of sha seed r ?n"
  have nb: "?n < 2 ^ 64" using n(2) by (rule le_less_trans) simp
  have N: "unat ?N = ?n" using nb by simp
  have buf1: "take 33 ?buf1 = seed @ [r]"
    using buf take_Suc_conv_app_nth[of 32 ?buf1] by simp
  have p: "unat ?pivot = ?p"
    using sha by (simp add: unat_mod_distrib N buf1 unat_FromBytes8 pivot_of_def)
  have pn: "?p < ?n" unfolding pivot_of_def by (rule mod_less_divisor) (use n(1) in linarith)
  then have lt: "?pivot < ?N" by (simp add: word_less_nat_alt p N)
  have p1: "unat (?pivot + 1) = Suc ?p" using unat_inc[OF lt] p by simp
  have m1: "unat (drop_bit 1 (?pivot + 1)) = (unat (0 :: u64) + unat ?pivot + 1) div 2"
    unfolding u64_bits(3) p1 p by simp
  have e1: "unat (?N - 1) = ?n - 1" by (subst unat_minus_one) (use N n(1) in auto)
  have "?p + ?n + 1 < 2 ^ 64" using pn n(2) by simp
  then have "unat (?pivot + ?N + 1) = ?p + ?n + 1" by (simp add: unat_word_ariths(1) p N)
  then have m2: "unat (drop_bit 1 (?pivot + ?N + 1)) = (unat (?pivot + 1) + unat (?N - 1) + 1) div 2"
    unfolding u64_bits(3) p1 e1 using n(1) by simp
  have c0: "unat ?pivot < ?n" "unat (0 :: u64) \<le> Suc (unat ?pivot)" using pn p by simp_all
  let ?pb = "PutUint32 ?buf1 (drop_bit 8 ?pivot)"
  obtain buf3 vs1 where l1: "swapLoop sha (drop_bit 1 (?pivot + 1)) ?pb (sourceByte (sha ?pb) ?pivot) 0 ?pivot vs (sha ?pb) = Ok (buf3, vs1)"
    "take 33 buf3 = seed @ [r]" "length vs1 = ?n" and vs1: "\<forall>k < ?n. vs1 ! k = vs ! mirrored ?b 0 ?p k"
    using swapLoop_spec[OF buf(2) cached_start[OF buf(2) buf1] c0 m1, of sha] unfolding p unat_0 by blast
  have c: "unat (?N - 1) < length vs1" "unat (?pivot + 1) \<le> Suc (unat (?N - 1))"
    using pn by (simp_all add: p1 e1 l1(3))
  let ?eb = "PutUint32 buf3 (drop_bit 8 (?N - 1))"
  obtain buf5 vs2 where l2: "swapLoop sha (drop_bit 1 (?pivot + ?N + 1)) ?eb (sourceByte (sha ?eb) (?N - 1)) (?pivot + 1) (?N - 1) vs1 (sha ?eb) = Ok (buf5, vs2)"
    "take 33 buf5 = seed @ [r]" "length vs2 = ?n" and vs2: "\<forall>k < ?n. vs2 ! k = vs1 ! mirrored ?b (Suc ?p) (?n - 1) k"
    using swapLoop_spec[OF buf(2) cached_start[OF buf(2) l1(2)] c m2, of sha]
    unfolding l1(3) p1 e1 by blast
  have vs2_eq: "vs2 = round_ref sha seed r vs"
  proof (rule nth_equalityI)
    show "length vs2 = length (round_ref sha seed r vs)" by (simp add: l2(3) round_ref_def)
    fix k assume "k < length vs2"
    then have k: "k < ?n" by (simp add: l2(3))
    then have "mirrored ?b (Suc ?p) (?n - 1) k < ?n" using pn by (auto simp: mirrored_def)
    then have "vs2 ! k = vs ! mirrored ?b 0 ?p (mirrored ?b (Suc ?p) (?n - 1) k)" using vs1 vs2 k by simp
    then show "vs2 ! k = round_ref sha seed r vs ! k"
      using k mirrored_both[OF pn k, of ?b] by (simp add: round_ref_def step_index_def Let_def)
  qed
  have "take 32 (take 33 buf5) = seed" "length (take 33 buf5) = 33"
    unfolding l2(2) using buf(2) by simp_all
  then have "take 32 buf5 = seed" "length buf5 > 32" by (simp_all add: min_def split: if_splits)
  moreover have "shuffleRound sha r buf vs = Ok (buf5, round_ref sha seed r vs)"
    unfolding shuffleRound_def Let_def l1(1) rbind_simps prod.case l2(1) vs2_eq by (rule refl)
  ultimately show ?thesis by (intro exI conjI)
qed

section \<open>All rounds\<close>

lemma length_round_ref [simp]: "length (round_ref sha seed r vs) = length vs"
  by (simp add: round_ref_def)

lemma shuffleRounds_down:
  assumes "\<forall>x. length (sha x) = 32" "length seed = 32" "take 32 buf = seed" "length buf > 32"
    "2 \<le> length vs" "length vs \<le> 2 ^ 40" "m < 256"
  shows "shuffleRounds sha False (word_of_nat m) buf vs =
    Ok (fold (round_ref sha seed) (map word_of_nat (rev [0..<Suc m])) vs)"
  using assms
proof (induction m arbitrary: buf vs)
  case 0
  then show ?case
    using shuffleRound_spec[OF 0(1,3,2,4,5,6), of 0] by (auto simp: shuffleRounds.simps)
next
  case (Suc m)
  let ?r = "word_of_nat (Suc m) :: byte"
  obtain buf1 where r: "shuffleRound sha ?r buf vs = Ok (buf1, round_ref sha seed ?r vs)"
    "take 32 buf1 = seed" "length buf1 > 32"
    using shuffleRound_spec[OF Suc.prems(1,3,2,4,5,6), of ?r] by blast
  have ne: "?r \<noteq> 0" using Suc.prems(7) word_of_nat_eq_0_iff[where ?'a = 8, of "Suc m"] by (auto dest: dvd_imp_le)
  have dec: "?r - 1 = word_of_nat m" by simp
  have "shuffleRounds sha False ?r buf vs = shuffleRounds sha False (word_of_nat m) buf1 (round_ref sha seed ?r vs)"
    using ne by (subst shuffleRounds.simps) (simp only: r(1) rbind_simps prod.case if_False dec)
  also have "\<dots> = Ok (fold (round_ref sha seed) (map word_of_nat (rev [0..<Suc m])) (round_ref sha seed ?r vs))"
    using Suc.prems r by (intro Suc.IH) simp_all
  finally show ?case by simp
qed

lemma shuffleRounds_up:
  assumes "\<forall>x. length (sha x) = 32" "length seed = 32" "take 32 buf = seed" "length buf > 32"
    "2 \<le> length vs" "length vs \<le> 2 ^ 40" "m < 90"
  shows "shuffleRounds sha True (word_of_nat m) buf vs =
    Ok (fold (round_ref sha seed) (map word_of_nat [m..<90]) vs)"
  using assms
proof (induction "89 - m" arbitrary: m buf vs)
  case (0 m)
  then have "m = 89" by simp
  then show ?case
    using shuffleRound_spec[OF 0(2,4,3,5,6,7), of 89] by (auto simp: shuffleRounds.simps upt_rec)
next
  case (Suc d)
  let ?r = "word_of_nat m :: byte"
  obtain buf1 where r: "shuffleRound sha ?r buf vs = Ok (buf1, round_ref sha seed ?r vs)"
    "take 32 buf1 = seed" "length buf1 > 32"
    using shuffleRound_spec[OF Suc.prems(1,3,2,4,5,6), of ?r] by blast
  have m: "Suc m < 90" using Suc.hyps(2) by simp
  have inc: "?r + 1 = word_of_nat (Suc m)" by simp
  have "unat (word_of_nat (Suc m) :: byte) = Suc m" using m by (simp add: unat_of_nat del: of_nat_Suc)
  moreover have "unat (90 :: byte) = 90" by simp
  ultimately have ne: "(word_of_nat (Suc m) :: byte) \<noteq> 90" using m by (metis less_irrefl)
  have "shuffleRounds sha True ?r buf vs = shuffleRounds sha True (word_of_nat (Suc m)) buf1 (round_ref sha seed ?r vs)"
    using ne by (subst shuffleRounds.simps) (simp only: r(1) rbind_simps prod.case if_True if_False inc)
  also have "\<dots> = Ok (fold (round_ref sha seed) (map word_of_nat [Suc m..<90]) (round_ref sha seed ?r vs))"
    using Suc.prems r m Suc.hyps(2) by (intro Suc.hyps(1)) simp_all
  finally show ?case using m by (simp add: upt_conv_Cons)
qed

section \<open>Rounds are involutions\<close>

lemma step_index_less: "k < n \<Longrightarrow> step_index sha seed n r k < n"
  by (auto simp: step_index_def Let_def flip_index_def)

lemma flip_index_invol:
  assumes "p < n" "k < n"
  shows "flip_index n p (flip_index n p k) = k"
proof (cases "k \<le> p")
  case True
  have e: "p + n - k = (p - k) + n" "p + n - (p - k) = k + n" using True by simp_all
  have "flip_index n p k = p - k" unfolding flip_index_def e using assms by simp
  then show ?thesis unfolding flip_index_def e using assms e(2) by simp
next
  case False
  have "flip_index n p k = p + n - k" "p + n - (p + n - k) = k" using False assms by (simp_all add: flip_index_def)
  then show ?thesis using assms by (simp add: flip_index_def)
qed

lemma step_index_invol:
  assumes "k < n"
  shows "step_index sha seed n r (step_index sha seed n r k) = k"
proof -
  have p: "pivot_of sha seed r n < n" unfolding pivot_of_def using assms by (intro mod_less_divisor) simp
  show ?thesis using flip_index_invol[OF p assms] by (simp add: step_index_def Let_def max.commute)
qed

lemma round_ref_nth: "k < length vs \<Longrightarrow> round_ref sha seed r vs ! k = vs ! step_index sha seed (length vs) r k"
  by (simp add: round_ref_def)

lemma round_ref_invol: "round_ref sha seed r (round_ref sha seed r vs) = vs"
  by (rule nth_equalityI) (simp_all add: round_ref_nth step_index_less step_index_invol)

lemma mset_round_ref: "mset (round_ref sha seed r vs) = mset vs"
proof -
  let ?n = "length vs" let ?f = "step_index sha seed ?n r"
  have inj: "inj_on ?f {0..<?n}"
    by (rule inj_on_inverseI[where g = ?f]) (simp add: step_index_invol)
  have "?f ` {0..<?n} = {0..<?n}"
    using step_index_invol[of _ ?n sha seed r] step_index_less[of _ ?n sha seed r]
    by (auto simp: image_iff) (metis atLeast0LessThan lessThan_iff)
  then have "image_mset ?f (mset_set {0..<?n}) = mset_set {0..<?n}"
    using image_mset_mset_set[OF inj] by simp
  then have "mset (map ?f [0..<?n]) = mset [0..<?n]" by (simp add: mset_upt)
  then have "image_mset ((!) vs) (mset (map ?f [0..<?n])) = image_mset ((!) vs) (mset [0..<?n])" by simp
  then have "mset (map ((!) vs) (map ?f [0..<?n])) = mset (map ((!) vs) [0..<?n])" by (simp only: mset_map)
  then show ?thesis by (simp add: round_ref_def map_nth comp_def)
qed

lemma mset_rounds: "mset (fold (round_ref sha seed) rs vs) = mset vs"
  by (induction rs arbitrary: vs) (simp_all add: mset_round_ref)

lemma length_rounds [simp]: "length (fold (round_ref sha seed) rs vs) = length vs"
  by (induction rs arbitrary: vs) simp_all

lemma rounds_inverse: "fold (round_ref sha seed) rs (fold (round_ref sha seed) (rev rs) vs) = vs"
  by (induction rs arbitrary: vs) (simp_all add: round_ref_invol)

lemma rounds_index:
  "k < length vs \<Longrightarrow> fold (round_ref sha seed) (rev rs) vs ! k = vs ! fold (step_index sha seed (length vs)) rs k"
  by (induction rs arbitrary: k) (simp_all add: round_ref_nth step_index_less)

lemma innerShuffleList_eq:
  assumes "\<forall>x. length (sha x) = 32" "length seed = 32" "length vs \<le> 2 ^ 40"
  shows "innerShuffleList sha vs seed shuffl =
    Ok (fold (round_ref sha seed) ((if shuffl then id else rev) (map word_of_nat [0..<90])) vs)"
proof (cases "length vs \<le> 1")
  case True
  have "step_index sha seed (length vs) r k = k" if "k < length vs" for r k
    using step_index_less[OF that, of sha seed r] that True by linarith
  then have "round_ref sha seed r vs = vs" for r
    using True by (intro nth_equalityI) (simp_all add: round_ref_nth)
  then have "fold (round_ref sha seed) rs vs = vs" for rs by (induction rs) simp_all
  then show ?thesis using True by (simp add: innerShuffleList_def)
next
  case False
  let ?buf = "go_copy (zero_array 37) seed"
  have buf: "take 32 ?buf = seed" "length ?buf > 32" using assms(2) by (simp_all add: go_copy_def)
  have vs: "2 \<le> length vs" using False by simp
  note down = shuffleRounds_down[OF assms(1,2) buf vs assms(3), of 89]
  note up = shuffleRounds_up[OF assms(1,2) buf vs assms(3), of 0]
  show ?thesis
    using False assms(3) up down
    by (cases shuffl) (simp_all add: innerShuffleList_def maxShuffleListSize_def rev_map del: upt_Suc)
qed

text \<open>C11. Shuffling puts at position \<open>k\<close> the validator whose index the specification's
  per-index computation gives, for every list of at most \<open>2 ^ 40\<close> validators, and is a
  permutation; a longer list is refused.\<close>

theorem ShuffleValidators_permutation:
  assumes "\<forall>x. length (sha x) = 32" "length seed = 32"
  shows "if length vs \<le> 2 ^ 40
     then \<exists>ys. ShuffleValidators sha vs seed = Ok ys \<and> mset ys = mset vs \<and>
       (\<forall>k < length vs. ys ! k = vs ! compute_shuffled_index sha seed (length vs) k)
     else ShuffleValidators sha vs seed = Err (ChainErr ShuffleListTooBig)"
proof (cases "length vs \<le> 2 ^ 40")
  case True
  then show ?thesis
    using innerShuffleList_eq[OF assms True, of False] rounds_index[of _ vs sha seed]
    by (simp add: ShuffleValidators_def unshuffleList_def mset_rounds compute_shuffled_index_def)
next
  case False
  then show ?thesis
    by (simp add: ShuffleValidators_def unshuffleList_def innerShuffleList_def maxShuffleListSize_def)
qed

definition sample_sha :: "bytes \<Rightarrow> hash" where
  "sample_sha x = replicate 32 (if x ! 32 = 0 then 0x36 else 0)"

lemma sample_step:
  "k < 3 \<Longrightarrow> step_index sample_sha (zero_array 32) 3 r k = (if r = 0 \<and> k \<noteq> 0 then 3 - k else k)"
proof -
  have "replicate 8 x = [x, x, x, x, x, x, x, x]" for x :: byte by (simp add: numeral_eq_Suc)
  then have p: "pivot_of sample_sha (zero_array 32) r 3 = 0"
    by (simp add: pivot_of_def sample_sha_def nth_append)
  assume "k < 3"
  then consider "k = 0" | "k = 1" | "k = 2" by linarith
  then show ?thesis
    by cases (simp_all add: step_index_def p flip_index_def pos_bit_def pos_byte_def pos_source_def sample_sha_def nth_append)
qed

lemma fold_fixed: "(\<And>r. r \<in> set rs \<Longrightarrow> f r k = k) \<Longrightarrow> fold f rs k = k"
  by (induction rs) auto

lemma sample_index: "k < 3 \<Longrightarrow> compute_shuffled_index sample_sha (zero_array 32) 3 k = (if k = 0 then 0 else 3 - k)"
proof -
  assume k: "k < 3"
  let ?k = "if k = 0 then 0 else 3 - k"
  have "fold (step_index sample_sha (zero_array 32) 3) (map word_of_nat [1..<90]) ?k = ?k"
  proof (rule fold_fixed)
    fix r :: byte assume "r \<in> set (map word_of_nat [1..<90])"
    then have "r \<noteq> 0" by (auto simp: word_of_nat_eq_0_iff dest!: dvd_imp_le)
    then show "step_index sample_sha (zero_array 32) 3 r ?k = ?k" using k by (simp add: sample_step)
  qed
  moreover have "[0..<90] = 0 # [1..<90]" by (simp add: upt_rec)
  ultimately show ?thesis using k by (cases "k = 0") (simp_all add: compute_shuffled_index_def sample_step)
qed

theorem ShuffleValidators_permutation_witness:
  "ShuffleValidators sample_sha [[1], [2], [3]] (zero_array 32) = Ok [[1], [3], [2]]"
proof -
  have "\<forall>x. length (sample_sha x) = 32" by (simp add: sample_sha_def)
  from ShuffleValidators_permutation[OF this, of "zero_array 32" "[[1], [2], [3]]"]
  obtain ys where ys: "ShuffleValidators sample_sha [[1], [2], [3]] (zero_array 32) = Ok ys"
    "mset ys = mset [[1], [2], [3]]" "\<forall>k < 3. ys ! k = [[1], [2], [3]] ! compute_shuffled_index sample_sha (zero_array 32) 3 k"
    by (auto simp: numeral_3_eq_3)
  have "length ys = 3" using ys(2) mset_eq_length by fastforce
  moreover have "ys ! 0 = [1]" "ys ! 1 = [3]" "ys ! 2 = [2]" using ys(3) by (simp_all add: sample_index)
  ultimately have "ys = [[1], [3], [2]]" by (auto simp: list_eq_iff_nth_eq less_Suc_eq numeral_3_eq_3 numeral_2_eq_2)
  then show ?thesis using ys(1) by simp
qed

text \<open>C26. Running the rounds in the opposite order undoes the shuffle.\<close>

theorem shuffle_inverts_unshuffle:
  assumes "\<forall>x. length (sha x) = 32" "length seed = 32" "length vs \<le> 2 ^ 40"
  shows "rbind (ShuffleValidators sha vs seed) (\<lambda>ys. innerShuffleList sha ys seed True) = Ok vs"
  using assms
  by (simp add: ShuffleValidators_def unshuffleList_def innerShuffleList_eq rounds_inverse)

theorem shuffle_inverts_unshuffle_witness:
  "rbind (ShuffleValidators sample_sha [[1], [2], [3]] (zero_array 32))
     (\<lambda>ys. innerShuffleList sample_sha ys (zero_array 32) True) = Ok [[1], [2], [3]]"
  by (rule shuffle_inverts_unshuffle) (simp_all add: sample_sha_def)

end
