(* ===== verification/Block_Header.thy ===== *)
theory Block_Header
  imports Rlp_Raw Common
begin

text \<open>
  Block headers and lists of blocks (\<^verbatim>\<open>src/core/types/block.go\<close>, \<^verbatim>\<open>hashing.go\<close>,
  \<^verbatim>\<open>bloom9.go\<close>), with the struct writer of \<^verbatim>\<open>src/rlp/encode.go\<close> for optional fields, through
  which headers are hashed. Keccak-256 is a parameter. A transaction is a type parameter:
  headers only hold the roots of the transaction trie.
\<close>

section \<open>Headers\<close>

record Header =
  hd_ParentHashes :: "hash list"
  hd_Slot :: u64
  hd_Era :: u64
  hd_Height :: u64
  hd_Coinbase :: address
  hd_TxHash :: hash
  hd_BodyHash :: hash
  hd_GasLimit :: u64
  hd_Time :: u64
  hd_Extra :: bytes
  hd_CpHash :: hash
  hd_CpNumber :: u64
  hd_CpBaseFee :: "int option"
  hd_CpRoot :: hash
  hd_CpReceiptHash :: hash
  hd_CpGasUsed :: u64
  hd_CpBloom :: bytes
  hd_BaseFee :: "int option"
  hd_Number :: "u64 option"
  hd_Root :: hash
  hd_ReceiptHash :: hash
  hd_GasUsed :: u64
  hd_Bloom :: bytes
  hd_V :: "int option"
  hd_R :: "int option"
  hd_S :: "int option"

definition Bloom_SetBytes :: "bytes \<Rightarrow> bytes res" where
  "Bloom_SetBytes d =
     (if 256 < length d then Panic else Ok (zero_array (256 - length d) @ d))"

definition BytesToBloom :: "bytes \<Rightarrow> bytes res" where
  "BytesToBloom b = Bloom_SetBytes b"

definition Header_Copy :: "Header option \<Rightarrow> Header option res" where
  "Header_Copy ho =
     (case ho of
        None \<Rightarrow> Ok None
      | Some h \<Rightarrow>
          rbind (BytesToBloom (hd_CpBloom h)) (\<lambda>cpBloom.
          rbind (BytesToBloom (hd_Bloom h)) (\<lambda>bloom.
          Ok (Some
            \<lparr>hd_ParentHashes = hd_ParentHashes h, hd_Slot = hd_Slot h, hd_Era = hd_Era h,
             hd_Height = hd_Height h, hd_Coinbase = BytesToAddress (hd_Coinbase h),
             hd_TxHash = BytesToHash (hd_TxHash h), hd_BodyHash = BytesToHash (hd_BodyHash h),
             hd_GasLimit = hd_GasLimit h, hd_Time = hd_Time h,
             hd_Extra = go_copy (zero_array (length (hd_Extra h))) (hd_Extra h),
             hd_CpHash = BytesToHash (hd_CpHash h), hd_CpNumber = hd_CpNumber h,
             hd_CpBaseFee = hd_CpBaseFee h, hd_CpRoot = BytesToHash (hd_CpRoot h),
             hd_CpReceiptHash = BytesToHash (hd_CpReceiptHash h), hd_CpGasUsed = hd_CpGasUsed h,
             hd_CpBloom = cpBloom, hd_BaseFee = hd_BaseFee h, hd_Number = hd_Number h,
             hd_Root = BytesToHash (hd_Root h), hd_ReceiptHash = BytesToHash (hd_ReceiptHash h),
             hd_GasUsed = hd_GasUsed h, hd_Bloom = bloom,
             hd_V = hd_V h, hd_R = hd_R h, hd_S = hd_S h\<rparr>))))"

definition Header_Nr :: "Header \<Rightarrow> u64" where
  "Header_Nr h = (case hd_Number h of Some nr \<Rightarrow> nr | None \<Rightarrow> 0)"

subsection \<open>Structs with optional fields\<close>

text \<open>\<^verbatim>\<open>reflect.Value.IsZero\<close> on the kinds that optional fields have.\<close>

fun isZero :: "rtype \<Rightarrow> rval \<Rightarrow> bool" where
  "isZero (TUint n) (VUint u) \<longleftrightarrow> u = 0"
| "isZero TBool (VBool b) \<longleftrightarrow> \<not> b"
| "isZero TBigInt (VBig b) \<longleftrightarrow> b = None"
| "isZero (TByteArray n) (VBytes b) \<longleftrightarrow> list_all ((=) 0) b"
| "isZero (TPtr t) (VPtr p) \<longleftrightarrow> p = None"
| "isZero t v \<longleftrightarrow> False"

text \<open>\<open>lastField + 1\<close>: the number of fields left when the zero optional fields at the end
  are dropped.\<close>

fun fieldCount :: "nat \<Rightarrow> rtype list \<Rightarrow> rval list \<Rightarrow> nat \<Rightarrow> nat" where
  "fieldCount firstOptional ts vs 0 = 0"
| "fieldCount firstOptional ts vs (Suc i) =
     (if firstOptional \<le> i \<and> isZero (ts ! i) (vs ! i) then fieldCount firstOptional ts vs i
      else Suc i)"

definition writeOptStruct :: "nat \<Rightarrow> rtype list \<Rightarrow> rval list \<Rightarrow> encbuf \<Rightarrow> encbuf res" where
  "writeOptStruct firstOptional ts vs w =
     (let n = fieldCount firstOptional ts vs (length ts);
          (lh, w1) = eb_list w
      in rbind (writeFields (map writeVal (take n ts)) (take n vs) w1) (\<lambda>w2. Ok (eb_listEnd lh w2)))"

definition header_types :: "rtype list" where
  "header_types =
     [TSlice (TByteArray 32), TUint 64, TUint 64, TUint 64, TByteArray 20, TByteArray 32,
      TByteArray 32, TUint 64, TUint 64, TBytes, TByteArray 32, TUint 64, TBigInt,
      TByteArray 32, TByteArray 32, TUint 64, TByteArray 256,
      TBigInt, TPtr (TUint 64), TByteArray 32, TByteArray 32, TUint 64, TByteArray 256,
      TBigInt, TBigInt, TBigInt]"

definition header_vals :: "Header \<Rightarrow> rval list" where
  "header_vals h =
     [VList (map VBytes (hd_ParentHashes h)), VUint (hd_Slot h), VUint (hd_Era h),
      VUint (hd_Height h), VBytes (hd_Coinbase h), VBytes (hd_TxHash h), VBytes (hd_BodyHash h),
      VUint (hd_GasLimit h), VUint (hd_Time h), VBytes (hd_Extra h), VBytes (hd_CpHash h),
      VUint (hd_CpNumber h), VBig (hd_CpBaseFee h), VBytes (hd_CpRoot h),
      VBytes (hd_CpReceiptHash h), VUint (hd_CpGasUsed h), VBytes (hd_CpBloom h),
      VBig (hd_BaseFee h), VPtr (map_option VUint (hd_Number h)), VBytes (hd_Root h),
      VBytes (hd_ReceiptHash h), VUint (hd_GasUsed h), VBytes (hd_Bloom h),
      VBig (hd_V h), VBig (hd_R h), VBig (hd_S h)]"

definition Header_encode :: "Header option \<Rightarrow> bytes res" where
  "Header_encode ho =
     (case ho of
        None \<Rightarrow> Ok [0xC0]
      | Some h \<Rightarrow> rbind (writeOptStruct 17 header_types (header_vals h) reset) (\<lambda>w. Ok (toBytes w)))"

text \<open>An encoding error is dropped: the hasher is then read without input.\<close>

definition rlpHash :: "(bytes \<Rightarrow> hash) \<Rightarrow> bytes res \<Rightarrow> hash res" where
  "rlpHash keccak encoded =
     (case encoded of Ok b \<Rightarrow> Ok (keccak b) | Err e \<Rightarrow> Ok (keccak []) | Panic \<Rightarrow> Panic)"

definition clearState :: "Header \<Rightarrow> Header" where
  "clearState h = h\<lparr>hd_Number := None, hd_BaseFee := None, hd_GasUsed := 0, hd_Bloom := zero_array 256,
     hd_ReceiptHash := zero_array 32, hd_Root := zero_array 32\<rparr>"

definition Header_Hash :: "(bytes \<Rightarrow> hash) \<Rightarrow> Header option \<Rightarrow> hash res" where
  "Header_Hash keccak ho =
     rbind (Header_Copy ho) (\<lambda>cpy. rlpHash keccak (Header_encode (map_option clearState cpy)))"

definition clearSignature :: "Header \<Rightarrow> Header" where
  "clearSignature h = (clearState h)\<lparr>hd_V := None, hd_R := None, hd_S := None\<rparr>"

definition Header_UnsignedHash :: "(bytes \<Rightarrow> hash) \<Rightarrow> Header option \<Rightarrow> hash res" where
  "Header_UnsignedHash keccak ho =
     rbind (Header_Copy ho) (\<lambda>cpy. rlpHash keccak (Header_encode (map_option clearSignature cpy)))"

subsection \<open>Well-formed headers\<close>

definition nonneg :: "int option \<Rightarrow> bool" where
  "nonneg b = (case b of None \<Rightarrow> True | Some i \<Rightarrow> 0 \<le> i)"

definition header_ok :: "Header \<Rightarrow> bool" where
  "header_ok h \<longleftrightarrow>
     list_all (\<lambda>p. length p = 32) (hd_ParentHashes h) \<and> length (hd_Coinbase h) = 20 \<and>
     length (hd_TxHash h) = 32 \<and> length (hd_BodyHash h) = 32 \<and> length (hd_CpHash h) = 32 \<and>
     length (hd_CpRoot h) = 32 \<and> length (hd_CpReceiptHash h) = 32 \<and> length (hd_CpBloom h) = 256 \<and>
     length (hd_Root h) = 32 \<and> length (hd_ReceiptHash h) = 32 \<and> length (hd_Bloom h) = 256 \<and>
     nonneg (hd_CpBaseFee h) \<and> nonneg (hd_BaseFee h) \<and> nonneg (hd_V h) \<and> nonneg (hd_R h) \<and>
     nonneg (hd_S h)"

lemma Header_Copy_id: "header_ok h \<Longrightarrow> Header_Copy (Some h) = Ok (Some h)"
  by (simp add: header_ok_def Header_Copy_def BytesToBloom_def Bloom_SetBytes_def)

lemma Header_Hash_encode:
  "header_ok h \<Longrightarrow> Header_Hash keccak (Some h) = rlpHash keccak (Header_encode (Some (clearState h)))"
  "header_ok h \<Longrightarrow> Header_UnsignedHash keccak (Some h) = rlpHash keccak (Header_encode (Some (clearSignature h)))"
  by (simp_all add: Header_Hash_def Header_UnsignedHash_def Header_Copy_id)

section \<open>Items are uniquely decodable\<close>

lemma enc_prefix_inject:
  assumes "enc x @ r = enc y @ s" "length (enc x @ r) < 2 ^ 63"
  shows "item_kind x = item_kind y \<and> item_content x = item_content y \<and> r = s"
  using Split_enc[OF assms(2)] Split_enc[of y s] assms by simp

lemma enc_inject: "enc x = enc y \<Longrightarrow> length (enc x) < 2 ^ 63 \<Longrightarrow> x = y"
proof (induction x arbitrary: y)
  case (Str b)
  then have h: "item_kind (Str b) = item_kind y" "item_content (Str b) = item_content y"
    using enc_prefix_inject[of "Str b" "[]" y "[]"] by (simp_all del: enc.simps item_kind.simps item_content.simps)
  then show ?case by (cases y) (simp_all split: if_splits)
next
  case (Lst xs)
  then have h: "item_kind (Lst xs) = item_kind y" "item_content (Lst xs) = item_content y"
    using enc_prefix_inject[of "Lst xs" "[]" y "[]"] by (simp_all del: enc.simps item_kind.simps item_content.simps)
  then obtain ys where y: "y = Lst ys" by (cases y) (auto split: if_splits)
  have "concat (map enc xs) = concat (map enc ys)" using h(2) y by simp
  moreover have "length (concat (map enc xs)) < 2 ^ 63"
    using enc_Lst_content[of xs] Lst.prems(2) by (rule le_less_trans)
  ultimately have "xs = ys" using Lst.IH
  proof (induction xs arbitrary: ys)
    case Nil
    then show ?case by (cases ys) simp_all
  next
    case (Cons a as)
    then obtain b bs where ys: "ys = b # bs" by (cases ys) simp_all
    have e: "enc a @ concat (map enc as) = enc b @ concat (map enc bs)" using Cons.prems(1) ys by simp
    from enc_prefix_inject[OF e] Cons.prems(2)
    have t: "concat (map enc as) = concat (map enc bs)" by simp
    then have ab: "enc a = enc b" using e by simp
    have "a = b" using Cons.prems(3)[of a b] ab Cons.prems(2) by simp
    moreover have "as = bs" using Cons.IH[OF t] Cons.prems(2,3) by simp
    ultimately show ?case using ys by simp
  qed
  then show ?case using y by simp
qed

section \<open>What a header hash commits to\<close>

definition bigval :: "int option \<Rightarrow> int" where
  "bigval b = (case b of None \<Rightarrow> 0 | Some i \<Rightarrow> i)"

definition signature_values :: "Header \<Rightarrow> int list" where
  "signature_values h =
     (if hd_S h \<noteq> None then [bigval (hd_V h), bigval (hd_R h), bigval (hd_S h)]
      else if hd_R h \<noteq> None then [bigval (hd_V h), bigval (hd_R h)]
      else if hd_V h \<noteq> None then [bigval (hd_V h)] else [])"

abbreviation u64_item :: "u64 \<Rightarrow> item" where
  "u64_item u \<equiv> Str (min_be (unat u))"

abbreviation int_item :: "int \<Rightarrow> item" where
  "int_item i \<equiv> Str (min_be (nat i))"

definition base_items :: "Header \<Rightarrow> item list" where
  "base_items h =
     [Lst (map Str (hd_ParentHashes h)), u64_item (hd_Slot h), u64_item (hd_Era h), u64_item (hd_Height h),
      Str (hd_Coinbase h), Str (hd_TxHash h), Str (hd_BodyHash h), u64_item (hd_GasLimit h),
      u64_item (hd_Time h), Str (hd_Extra h), Str (hd_CpHash h), u64_item (hd_CpNumber h),
      int_item (bigval (hd_CpBaseFee h)), Str (hd_CpRoot h), Str (hd_CpReceiptHash h),
      u64_item (hd_CpGasUsed h), Str (hd_CpBloom h)]"

definition header_item :: "Header \<Rightarrow> item" where
  "header_item h =
     Lst (base_items h @
       (if signature_values h = [] then []
        else [Str [], Str [], Str (zero_array 32), Str (zero_array 32), Str [], Str (zero_array 256)] @
          map int_item (signature_values h)))"

definition header_fields :: "Header \<Rightarrow> nat" where
  "header_fields h = (if signature_values h = [] then 17 else 23 + length (signature_values h))"

lemma fieldCount_header: "fieldCount 17 header_types (header_vals (clearState h)) 26 = header_fields h"
  by (simp add: header_types_def header_vals_def clearState_def header_fields_def signature_values_def
      numeral_eq_Suc list_all_iff)

lemma big_item: "to_item TBigInt (VBig b) = int_item (bigval b)"
  by (simp add: bigval_def min_be_def split: option.splits)

lemma header_items:
  "to_item (TStruct (take (header_fields h) header_types)) (VList (take (header_fields h) (header_vals (clearState h)))) =
   header_item h"
  by (auto simp: header_fields_def signature_values_def header_types_def header_vals_def clearState_def
      header_item_def base_items_def bigval_def min_be_def comp_def split: option.splits)

lemma unat_u64_bound [simp]: "unat (u :: u64) < 18446744073709551616"
  using unat_u64_less[of u] by simp

lemma nonneg_wt: "nonneg b \<Longrightarrow> (case b of None \<Rightarrow> True | Some i \<Rightarrow> 0 \<le> i)"
  by (simp add: nonneg_def)

lemma header_wt:
  assumes "header_ok h"
  shows "wt (TStruct (take n header_types)) (VList (take n (header_vals (clearState h))))"
proof -
  have "list_all2 (\<lambda>p x. p x) (map wt header_types) (header_vals (clearState h))"
    using assms by (simp add: header_types_def header_vals_def clearState_def header_ok_def nonneg_wt list_all_iff)
  then show ?thesis by (simp add: take_map[symmetric] list_all2_takeI)
qed

lemma Header_encode_item:
  assumes "header_ok h" "length (enc (header_item h)) < 2 ^ 64"
  shows "Header_encode (Some (clearState h)) = Ok (enc (header_item h))"
proof -
  let ?n = "header_fields h" and ?vs = "header_vals (clearState h)"
  have "length header_types = 26" by (simp add: header_types_def)
  then have "writeOptStruct 17 header_types ?vs reset =
      writeVal (TStruct (take ?n header_types)) (VList (take ?n ?vs)) reset"
    by (simp add: writeOptStruct_def fieldCount_header Let_def del: fieldCount.simps)
  then have "Header_encode (Some (clearState h)) =
      EncodeToBytes (TStruct (take ?n header_types)) (VList (take ?n ?vs))"
    by (simp add: Header_encode_def EncodeToBytes_def)
  then show ?thesis
    using EncodeToBytes_enc[OF header_wt[OF assms(1)]] assms(2) by (simp only: header_items)
qed

lemma min_be_inject [simp]: "min_be a = min_be b \<longleftrightarrow> a = b"
  by (metis of_be_min_be)

definition committed :: "Header \<Rightarrow> Header \<times> int list" where
  "committed h =
     ((clearSignature h)\<lparr>hd_CpBaseFee := Some (bigval (hd_CpBaseFee h))\<rparr>, signature_values h)"

lemma map_Str_inject [simp]: "map Str a = map Str b \<longleftrightarrow> a = b"
  by (simp add: inj_map_eq_map inj_def)

lemma signature_values_nonneg: "header_ok h \<Longrightarrow> i \<in> set (signature_values h) \<Longrightarrow> 0 \<le> i"
  by (auto simp: header_ok_def signature_values_def nonneg_def bigval_def split: if_splits option.splits)

lemma int_items_inject:
  assumes "\<forall>i \<in> set a \<union> set b. 0 \<le> i" "map int_item a = map int_item b"
  shows "a = b"
proof -
  have "map nat a = map nat b" 
    using arg_cong[OF assms(2), of "map (\<lambda>it. of_be (item_content it))"] by (simp add: comp_def)
  then have "map (int \<circ> nat) a = map (int \<circ> nat) b" unfolding map_map[symmetric] by simp
  moreover have "map (int \<circ> nat) a = a" "map (int \<circ> nat) b = b" using assms(1) by (auto intro!: map_idI)
  ultimately show ?thesis by simp
qed

lemma header_item_inject:
  assumes "header_ok a" "header_ok b"
  shows "header_item a = header_item b \<longleftrightarrow> committed a = committed b"
proof -
  have l: "length (base_items a) = 17" "length (base_items b) = 17" by (simp_all add: base_items_def)
  have nn: "0 \<le> bigval (hd_CpBaseFee h)" if "header_ok h" for h
    using that by (auto simp: header_ok_def nonneg_def bigval_def split: option.splits)
  have s: "map int_item (signature_values a) = map int_item (signature_values b) \<longleftrightarrow>
      signature_values a = signature_values b"
    using int_items_inject[of "signature_values a" "signature_values b"]
      signature_values_nonneg[OF assms(1)] signature_values_nonneg[OF assms(2)] by auto
  have ne: "x \<noteq> y @ z # zs" "y @ z # zs \<noteq> x" if "length x = length y" for x y zs :: "item list" and z
    using that by (auto dest: arg_cong[of _ _ length])
  have "length (base_items a) = length (base_items b)" unfolding l ..
  then have "header_item a = header_item b \<longleftrightarrow> base_items a = base_items b \<and>
      map int_item (signature_values a) = map int_item (signature_values b)"
    by (cases "signature_values a = []"; cases "signature_values b = []") (simp_all add: header_item_def ne)
  moreover have "base_items a = base_items b \<longleftrightarrow> fst (committed a) = fst (committed b)"
    using nn[OF assms(1)] nn[OF assms(2)]
    by (cases a; cases b)
      (auto simp: base_items_def committed_def clearSignature_def clearState_def eq_nat_nat_iff word_unat_eq_iff)
  ultimately show ?thesis unfolding s by (simp add: committed_def)
qed

text \<open>C31. A block hash commits to exactly the fields set when the block is created: the bytes that
  are hashed agree for two headers if and only if the headers agree outside the state fields
  (number, base fee, gas used, bloom, receipt and state roots), a missing checkpoint base fee
  counting as zero and signatures compared up to missing trailing values. Finalising a block
  therefore keeps its hash, and distinct blocks have distinct hash inputs.\<close>

theorem Header_Hash_commits:
  assumes "header_ok a" "header_ok b"
    and "length (enc (header_item a)) < 2 ^ 63" "length (enc (header_item b)) < 2 ^ 63"
  shows "\<exists>p q. Header_encode (Some (clearState a)) = Ok p \<and> Header_encode (Some (clearState b)) = Ok q \<and>
    Header_Hash keccak (Some a) = Ok (keccak p) \<and> Header_Hash keccak (Some b) = Ok (keccak q) \<and>
    (p = q \<longleftrightarrow> committed a = committed b)"
proof -
  have e: "Header_encode (Some (clearState h)) = Ok (enc (header_item h))"
      "Header_Hash keccak (Some h) = Ok (keccak (enc (header_item h)))"
    if "header_ok h" "length (enc (header_item h)) < 2 ^ 63" for h
  proof -
    have "length (enc (header_item h)) < 2 ^ 64" using that(2) by (rule less_trans) simp
    then show "Header_encode (Some (clearState h)) = Ok (enc (header_item h))"
      by (rule Header_encode_item[OF that(1)])
    then show "Header_Hash keccak (Some h) = Ok (keccak (enc (header_item h)))"
      by (simp only: Header_Hash_encode(1)[OF that(1)] rlpHash_def res.case)
  qed
  have "enc (header_item a) = enc (header_item b) \<longleftrightarrow> committed a = committed b"
    using enc_inject[OF _ assms(3)] header_item_inject[OF assms(1,2)] by metis
  then show ?thesis using e[OF assms(1,3)] e[OF assms(2,4)] by blast
qed

definition sample_header :: Header where
  "sample_header =
     \<lparr>hd_ParentHashes = [replicate 32 1], hd_Slot = 5, hd_Era = 1, hd_Height = 4,
      hd_Coinbase = replicate 20 2, hd_TxHash = replicate 32 3, hd_BodyHash = replicate 32 4,
      hd_GasLimit = 1000, hd_Time = 77, hd_Extra = [], hd_CpHash = replicate 32 5, hd_CpNumber = 3,
      hd_CpBaseFee = None, hd_CpRoot = replicate 32 6, hd_CpReceiptHash = replicate 32 7,
      hd_CpGasUsed = 0, hd_CpBloom = zero_array 256, hd_BaseFee = None, hd_Number = None,
      hd_Root = zero_array 32, hd_ReceiptHash = zero_array 32, hd_GasUsed = 0,
      hd_Bloom = zero_array 256, hd_V = Some 1, hd_R = Some 9, hd_S = Some 8\<rparr>"

lemma sample_header_ok: "header_ok sample_header" "header_ok (sample_header\<lparr>hd_Number := Some 9\<rparr>)"
  by (simp_all add: header_ok_def sample_header_def nonneg_def)

lemma sample_header_fits:
  "length (enc (header_item sample_header)) < 2 ^ 63"
  "length (enc (header_item (sample_header\<lparr>hd_Number := Some 9\<rparr>))) < 2 ^ 63"
  by (simp_all add: header_item_def base_items_def sample_header_def signature_values_def bigval_def min_be_def
      nbytes.simps puthead_def putint_def Let_def)

theorem Header_Hash_commits_witness:
  "\<exists>p q. Header_Hash (\<lambda>b. BytesToHash b) (Some sample_header) = Ok (BytesToHash p) \<and>
     Header_Hash (\<lambda>b. BytesToHash b) (Some (sample_header\<lparr>hd_Number := Some 9\<rparr>)) = Ok (BytesToHash q) \<and> p = q"
proof -
  have "committed sample_header = committed (sample_header\<lparr>hd_Number := Some 9\<rparr>)"
    by (simp add: committed_def sample_header_def clearSignature_def clearState_def signature_values_def)
  then show ?thesis
    using Header_Hash_commits[OF sample_header_ok sample_header_fits, of BytesToHash] by metis
qed

end
