(* ===== verification/Bloom.thy ===== *)
theory Bloom
  imports Block_Header Statedb
begin

text \<open>
  The 2048-bit log filter (\<^verbatim>\<open>src/core/types/bloom9.go\<close>): three bits per address or topic, taken
  from its hash. The hash function is a parameter of which only the first six bytes are read.
\<close>

section \<open>The code\<close>

type_synonym bloom = bytes

definition bloomBit :: "bytes \<Rightarrow> nat \<Rightarrow> byte" where
  "bloomBit hashbuf k = push_bit (unat (and (hashbuf ! Suc k) 0x7)) 1"

definition bloomIndex :: "bytes \<Rightarrow> nat \<Rightarrow> nat" where
  "bloomIndex hashbuf k =
     256 - unat (drop_bit 3 (and (word_of_nat (of_be (take 2 (drop k hashbuf))) :: 16 word) 0x7ff)) - 1"

definition bloomValues :: "(bytes \<Rightarrow> bytes) \<Rightarrow> bytes \<Rightarrow> (nat \<times> byte) list" where
  "bloomValues keccak data =
     (let hashbuf = take 6 (keccak data) in
      [(bloomIndex hashbuf 0, bloomBit hashbuf 0), (bloomIndex hashbuf 2, bloomBit hashbuf 2),
       (bloomIndex hashbuf 4, bloomBit hashbuf 4)])"

fun orInto :: "bloom \<Rightarrow> (nat \<times> byte) list \<Rightarrow> bloom" where
  "orInto b [] = b"
| "orInto b ((i, v) # ivs) = orInto (b[i := or (b ! i) v]) ivs"

definition Bloom_Add :: "(bytes \<Rightarrow> bytes) \<Rightarrow> bloom \<Rightarrow> bytes \<Rightarrow> bloom" where
  "Bloom_Add keccak b d = orInto b (bloomValues keccak d)"

definition Bloom_Test :: "(bytes \<Rightarrow> bytes) \<Rightarrow> bloom \<Rightarrow> bytes \<Rightarrow> bool" where
  "Bloom_Test keccak b topic \<longleftrightarrow> list_all (\<lambda>(i, v). v = and v (b ! i)) (bloomValues keccak topic)"

definition addLogTo :: "(bytes \<Rightarrow> bytes) \<Rightarrow> Log \<Rightarrow> bloom \<Rightarrow> bloom" where
  "addLogTo keccak l bin = fold (\<lambda>t b. Bloom_Add keccak b t) (l_Topics l) (Bloom_Add keccak bin (l_Address l))"

definition LogsBloom :: "(bytes \<Rightarrow> bytes) \<Rightarrow> Log list \<Rightarrow> bloom" where
  "LogsBloom keccak logs = fold (addLogTo keccak) logs (zero_array 256)"

text \<open>Of a receipt, only its logs are read.\<close>

definition CreateBloom :: "(bytes \<Rightarrow> bytes) \<Rightarrow> Log list list \<Rightarrow> bloom" where
  "CreateBloom keccak receipts = fold (fold (addLogTo keccak)) receipts (zero_array 256)"

section \<open>Filters as sets of bits\<close>

definition bloom_or :: "bloom \<Rightarrow> bloom \<Rightarrow> bloom" where
  "bloom_or a b = map2 or a b"

lemma bloomIndex_less: "bloomIndex h k < 256"
  by (simp add: bloomIndex_def)

lemma length_orInto [simp]: "length (orInto b ivs) = length b"
  by (induction b ivs rule: orInto.induct) simp_all

lemma length_Bloom_Add [simp]: "length (Bloom_Add keccak b d) = length b"
  by (simp add: Bloom_Add_def)

lemma length_addLogTo [simp]: "length (addLogTo keccak l b) = length b"
proof -
  have "length (fold (\<lambda>t b. Bloom_Add keccak b t) ts b) = length b" for ts b
    by (induction ts arbitrary: b) simp_all
  then show ?thesis by (simp add: addLogTo_def)
qed

lemma length_fold_addLogTo [simp]: "length (fold (addLogTo keccak) ls b) = length b"
  by (induction ls arbitrary: b) simp_all

lemma bloom_or_update:
  "length a = length b \<Longrightarrow> i < length b \<Longrightarrow>
   (bloom_or a b)[i := or (bloom_or a b ! i) v] = bloom_or a (b[i := or (b ! i) v])"
  by (rule nth_equalityI) (auto simp: bloom_or_def nth_list_update or.assoc)

lemma orInto_or:
  "length a = length b \<Longrightarrow> \<forall>(i, v) \<in> set ivs. i < length b \<Longrightarrow>
   orInto (bloom_or a b) ivs = bloom_or a (orInto b ivs)"
  by (induction b ivs rule: orInto.induct) (auto simp: bloom_or_update)

lemma bloomValues_less: "(i, v) \<in> set (bloomValues keccak d) \<Longrightarrow> i < 256"
  by (auto simp: bloomValues_def Let_def bloomIndex_less)

lemma Bloom_Add_or:
  "length a = 256 \<Longrightarrow> length b = 256 \<Longrightarrow> Bloom_Add keccak (bloom_or a b) d = bloom_or a (Bloom_Add keccak b d)"
  unfolding Bloom_Add_def by (rule orInto_or) (auto dest: bloomValues_less)

lemma length_bloom_or [simp]: "length a = length b \<Longrightarrow> length (bloom_or a b) = length b"
  by (simp add: bloom_or_def)

lemma addLogTo_or:
  assumes "length a = 256" "length b = 256"
  shows "addLogTo keccak l (bloom_or a b) = bloom_or a (addLogTo keccak l b)"
proof -
  have "length b = 256 \<Longrightarrow> fold (\<lambda>t b. Bloom_Add keccak b t) ts (bloom_or a b) =
      bloom_or a (fold (\<lambda>t b. Bloom_Add keccak b t) ts b)" for ts b
    by (induction ts arbitrary: b) (simp_all add: Bloom_Add_or assms(1))
  then show ?thesis using assms by (simp add: addLogTo_def Bloom_Add_or)
qed

lemma fold_addLogTo_or:
  "length a = 256 \<Longrightarrow> length b = 256 \<Longrightarrow>
   fold (addLogTo keccak) ls (bloom_or a b) = bloom_or a (fold (addLogTo keccak) ls b)"
  by (induction ls arbitrary: b) (simp_all add: addLogTo_or)

lemma bloom_or_zero [simp]: "length a = 256 \<Longrightarrow> bloom_or a (zero_array 256) = a"
  by (rule nth_equalityI) (auto simp: bloom_or_def)

lemma length_LogsBloom [simp]: "length (LogsBloom keccak ls) = 256"
  by (simp add: LogsBloom_def)

lemma fold_addLogTo_LogsBloom:
  "length a = 256 \<Longrightarrow> fold (addLogTo keccak) ls a = bloom_or a (LogsBloom keccak ls)"
  using fold_addLogTo_or[of a "zero_array 256" keccak ls] by (simp add: LogsBloom_def)

section \<open>No false negatives\<close>

lemma and_or_absorb: "v = and v (x :: byte) \<Longrightarrow> v = and v (or x y)"
  by (auto simp: bit_eq_iff bit_simps)

lemma orInto_keeps: "v = and v (b ! i) \<Longrightarrow> v = and v (orInto b ivs ! i)"
proof (induction b ivs rule: orInto.induct)
  case (2 b j w ivs)
  have "v = and v (b[j := or (b ! j) w] ! i)"
  proof (cases "i = j \<and> j < length b")
    case True
    then show ?thesis using "2.prems" and_or_absorb by simp
  next
    case False
    then have "b[j := or (b ! j) w] ! i = b ! i" by (cases "j < length b") (auto simp: list_update_beyond)
    then show ?thesis using "2.prems" by (rule ssubst)
  qed
  then show ?case using "2.IH" by simp
qed simp

lemma orInto_sets: "(i, v) \<in> set ivs \<Longrightarrow> i < length b \<Longrightarrow> v = and v (orInto b ivs ! i)"
proof (induction b ivs rule: orInto.induct)
  case (2 b j w ivs)
  show ?case
  proof (cases "(i, v) \<in> set ivs")
    case False
    then have "i = j" "v = w" using "2.prems" by auto
    then have "b[j := or (b ! j) w] ! i = or (b ! j) v" using "2.prems" by simp
    moreover have "v = and v (or (b ! j) v)" by (auto simp: bit_eq_iff bit_simps)
    ultimately have "v = and v (b[j := or (b ! j) w] ! i)" by simp
    then show ?thesis using orInto_keeps by simp
  qed (use 2 in simp)
qed simp

lemma Test_Add: "length b = 256 \<Longrightarrow> Bloom_Test keccak (Bloom_Add keccak b d) d"
  unfolding Bloom_Test_def Bloom_Add_def list_all_iff by (auto intro!: orInto_sets dest: bloomValues_less)

lemma Test_Add_mono: "Bloom_Test keccak b t \<Longrightarrow> Bloom_Test keccak (Bloom_Add keccak b d) t"
  unfolding Bloom_Test_def Bloom_Add_def list_all_iff using orInto_keeps by fastforce

lemma Test_addTopics:
  "length b = 256 \<Longrightarrow> t \<in> set ts \<or> Bloom_Test keccak b t \<Longrightarrow>
   Bloom_Test keccak (fold (\<lambda>t b. Bloom_Add keccak b t) ts b) t"
proof (induction ts arbitrary: b)
  case (Cons u ts)
  then show ?case using Test_Add[of b keccak u] Test_Add_mono[of keccak b t u] by auto
qed simp

definition log_has :: "Log \<Rightarrow> bytes \<Rightarrow> bool" where
  "log_has l t \<longleftrightarrow> t = l_Address l \<or> t \<in> set (l_Topics l)"

lemma Test_addLog:
  "length b = 256 \<Longrightarrow> log_has l t \<or> Bloom_Test keccak b t \<Longrightarrow> Bloom_Test keccak (addLogTo keccak l b) t"
  unfolding addLogTo_def log_has_def
  using Test_Add[of b keccak "l_Address l"] Test_Add_mono[of keccak b t "l_Address l"]
  by (intro Test_addTopics) auto

lemma Test_addLogs:
  "length b = 256 \<Longrightarrow> (\<exists>l \<in> set ls. log_has l t) \<or> Bloom_Test keccak b t \<Longrightarrow>
   Bloom_Test keccak (fold (addLogTo keccak) ls b) t"
proof (induction ls arbitrary: b)
  case (Cons l ls)
  have "(\<exists>l \<in> set ls. log_has l t) \<or> Bloom_Test keccak (addLogTo keccak l b) t"
    using Cons.prems Test_addLog[of b l t keccak] by auto
  then show ?case using Cons.IH[of "addLogTo keccak l b"] Cons.prems(1) by simp
qed simp

lemma Test_receipts:
  "length b = 256 \<Longrightarrow> (\<exists>ls \<in> set rs. \<exists>l \<in> set ls. log_has l t) \<or> Bloom_Test keccak b t \<Longrightarrow>
   Bloom_Test keccak (fold (fold (addLogTo keccak)) rs b) t"
proof (induction rs arbitrary: b)
  case (Cons ls rs)
  have "(\<exists>ls \<in> set rs. \<exists>l \<in> set ls. log_has l t) \<or> Bloom_Test keccak (fold (addLogTo keccak) ls b) t"
    using Cons.prems Test_addLogs[of b ls t keccak] by auto
  then show ?case using Cons.IH[of "fold (addLogTo keccak) ls b"] Cons.prems(1) by simp
qed simp

lemma CreateBloom_or:
  "length b = 256 \<Longrightarrow>
   fold (fold (addLogTo keccak)) rs b = foldl bloom_or b (map (LogsBloom keccak) rs)"
  by (induction rs arbitrary: b) (simp_all add: fold_addLogTo_LogsBloom)

text \<open>C32. The log filter has no false negatives: the address and every topic of every log of the
  receipts test positive in the filter of its receipt and of the block, and the filter of the
  block is the bytewise disjunction of the filters of its receipts.\<close>

theorem CreateBloom_complete:
  "(\<forall>ls \<in> set receipts. \<forall>l \<in> set ls. \<forall>t \<in> insert (l_Address l) (set (l_Topics l)).
     Bloom_Test keccak (LogsBloom keccak ls) t \<and> Bloom_Test keccak (CreateBloom keccak receipts) t) \<and>
   CreateBloom keccak receipts = foldl bloom_or (zero_array 256) (map (LogsBloom keccak) receipts)"
proof (intro conjI ballI)
  fix ls l t
  assume "ls \<in> set receipts" "l \<in> set ls" "t \<in> insert (l_Address l) (set (l_Topics l))"
  then have h: "ls \<in> set receipts" "l \<in> set ls" "log_has l t" by (auto simp: log_has_def)
  show "Bloom_Test keccak (LogsBloom keccak ls) t"
    unfolding LogsBloom_def by (rule Test_addLogs) (use h in auto)
  show "Bloom_Test keccak (CreateBloom keccak receipts) t"
    unfolding CreateBloom_def by (rule Test_receipts) (use h in auto)
qed (simp add: CreateBloom_def CreateBloom_or)

definition sample_log :: Log where
  "sample_log = \<lparr>l_Address = replicate 20 9, l_Topics = [replicate 32 1], l_Data = [], l_BlockNumber = 0, l_TxHash = [],
     l_TxIndex = 0, l_BlockHash = [], l_Index = 0, l_Removed = False\<rparr>"

theorem CreateBloom_complete_witness:
  "Bloom_Test (\<lambda>d. d) (CreateBloom (\<lambda>d. d) [[], [sample_log]]) (replicate 32 1)"
proof -
  have "replicate 32 1 \<in> insert (l_Address sample_log) (set (l_Topics sample_log))"
    by (simp add: sample_log_def)
  moreover have "[sample_log] \<in> set [[], [sample_log]]" "sample_log \<in> set [sample_log]" by simp_all
  ultimately show ?thesis using CreateBloom_complete[of "[[], [sample_log]]" "\<lambda>d. d"] by blast
qed

end
