(* ===== verification/Hex.thy ===== *)
theory Hex
  imports Common "HOL-Library.List_Lexorder"
begin

text \<open>
  Hexadecimal strings (\<^verbatim>\<open>src/common/hexutil/hexutil.go\<close> and the helpers of
  \<^verbatim>\<open>src/common/bytes.go\<close>), on which hashes are sorted and quantities are transmitted. A Go
  string is its bytes. The two functions of \<^verbatim>\<open>encoding/hex\<close> and the number parser of
  \<^verbatim>\<open>strconv\<close> that the code calls are written out.
\<close>

section \<open>The code\<close>

definition hexDigit :: "nat \<Rightarrow> byte" where
  "hexDigit n = (if n < 10 then 0x30 + word_of_nat n else 0x57 + word_of_nat n)"

definition fromHexChar :: "byte \<Rightarrow> nat option" where
  "fromHexChar c =
     (if 0x30 \<le> c \<and> c \<le> 0x39 then Some (unat (c - 0x30))
      else if 0x61 \<le> c \<and> c \<le> 0x66 then Some (unat (c - 0x61) + 10)
      else if 0x41 \<le> c \<and> c \<le> 0x46 then Some (unat (c - 0x41) + 10)
      else None)"

primrec hex_Encode :: "bytes \<Rightarrow> bytes" where
  "hex_Encode [] = []"
| "hex_Encode (b # bs) = hexDigit (unat b div 16) # hexDigit (unat b mod 16) # hex_Encode bs"

text \<open>\<^verbatim>\<open>hex.DecodeString\<close> returns the bytes decoded before the error along with it.\<close>

fun hex_DecodeString :: "bytes \<Rightarrow> bytes \<times> hex_error option" where
  "hex_DecodeString [] = ([], None)"
| "hex_DecodeString [c] = ([], Some (if fromHexChar c = None then ErrSyntax else ErrOddLength))"
| "hex_DecodeString (c # d # s) =
     (case (fromHexChar c, fromHexChar d) of
        (Some h, Some l) \<Rightarrow>
          (case hex_DecodeString s of (bs, e) \<Rightarrow> (word_of_nat (h * 16 + l) # bs, e))
      | _ \<Rightarrow> ([], Some ErrSyntax))"

definition has0xPrefix :: "bytes \<Rightarrow> bool" where
  "has0xPrefix s \<longleftrightarrow> length s \<ge> 2 \<and> s ! 0 = 0x30 \<and> (s ! 1 = 0x78 \<or> s ! 1 = 0x58)"

definition hex_Encode0x :: "bytes \<Rightarrow> bytes" where
  "hex_Encode0x b = [0x30, 0x78] @ hex_Encode b"

definition hex_Decode :: "bytes \<Rightarrow> bytes res" where
  "hex_Decode input =
     (if length input = 0 then Err (HexErr ErrEmptyString)
      else if \<not> has0xPrefix input then Err (HexErr ErrMissingPrefix)
      else (case hex_DecodeString (drop 2 input) of
              (b, None) \<Rightarrow> Ok b
            | (b, Some e) \<Rightarrow> Err (HexErr e)))"

definition MustDecode :: "bytes \<Rightarrow> bytes res" where
  "MustDecode input = (case hex_Decode input of Ok b \<Rightarrow> Ok b | _ \<Rightarrow> Panic)"

definition checkNumber :: "bytes \<Rightarrow> bytes res" where
  "checkNumber input =
     (if length input = 0 then Err (HexErr ErrEmptyString)
      else if \<not> has0xPrefix input then Err (HexErr ErrMissingPrefix)
      else let raw = drop 2 input in
        if length raw = 0 then Err (HexErr ErrEmptyNumber)
        else if length raw > 1 \<and> raw ! 0 = 0x30 then Err (HexErr ErrLeadingZero)
        else Ok raw)"

text \<open>\<^verbatim>\<open>strconv.ParseUint(raw, 16, 64)\<close> on a non-empty string: digit by digit, with the range
  check before each multiplication by the base.\<close>

fun ParseUint_loop :: "u64 \<Rightarrow> bytes \<Rightarrow> u64 res" where
  "ParseUint_loop n [] = Ok n"
| "ParseUint_loop n (c # s) =
     (case fromHexChar c of
        None \<Rightarrow> Err (HexErr ErrSyntax)
      | Some d \<Rightarrow>
          if n \<ge> 2 ^ 60 then Err (HexErr ErrUint64Range)
          else (let m = n * 16; n1 = m + word_of_nat d in
                if n1 < m then Err (HexErr ErrUint64Range) else ParseUint_loop n1 s))"

definition DecodeUint64 :: "bytes \<Rightarrow> u64 res" where
  "DecodeUint64 input = rbind (checkNumber input) (ParseUint_loop 0)"

definition MustDecodeUint64 :: "bytes \<Rightarrow> u64 res" where
  "MustDecodeUint64 input = (case DecodeUint64 input of Ok n \<Rightarrow> Ok n | _ \<Rightarrow> Panic)"

function hexDigits :: "nat \<Rightarrow> bytes" where
  "hexDigits n = (if n < 16 then [hexDigit n] else hexDigits (n div 16) @ [hexDigit (n mod 16)])"
  by pat_completeness auto
termination
  by (relation "measure id") auto

declare hexDigits.simps [simp del]

definition EncodeUint64 :: "u64 \<Rightarrow> bytes" where
  "EncodeUint64 i = [0x30, 0x78] @ hexDigits (unat i)"

definition decodeNibble :: "byte \<Rightarrow> nat option" where
  "decodeNibble c =
     (if c \<ge> 0x30 \<and> c \<le> 0x39 then Some (unat (c - 0x30))
      else if c \<ge> 0x41 \<and> c \<le> 0x46 then Some (unat (c - 0x41 + 10))
      else if c \<ge> 0x61 \<and> c \<le> 0x66 then Some (unat (c - 0x61 + 10))
      else None)"

text \<open>One 64-bit word of the number: \<open>words[i]*16 + nib\<close> over the nibbles \<open>raw[start..end)\<close>.\<close>

fun nibbleWord :: "u64 \<Rightarrow> bytes \<Rightarrow> u64 res" where
  "nibbleWord w [] = Ok w"
| "nibbleWord w (c # cs) =
     (case decodeNibble c of
        None \<Rightarrow> Err (HexErr ErrSyntax)
      | Some nib \<Rightarrow> nibbleWord (w * 16 + word_of_nat nib) cs)"

fun nibbleWords :: "nat \<Rightarrow> nat \<Rightarrow> bytes \<Rightarrow> u64 list res" where
  "nibbleWords 0 hi raw = Ok []"
| "nibbleWords (Suc k) hi raw =
     (let start = hi - 16 in
      rbind (nibbleWord 0 (take (hi - start) (drop start raw))) (\<lambda>w.
      rbind (nibbleWords k start raw) (\<lambda>ws. Ok (w # ws))))"

primrec bits_value :: "u64 list \<Rightarrow> int" where
  "bits_value [] = 0"
| "bits_value (w # ws) = uint w + 2 ^ 64 * bits_value ws"

definition DecodeBig :: "bytes \<Rightarrow> int res" where
  "DecodeBig input =
     rbind (checkNumber input) (\<lambda>raw.
     if length raw > 64 then Err (HexErr ErrBig256Range)
     else rbind (nibbleWords (length raw div 16 + 1) (length raw) raw) (\<lambda>words. Ok (bits_value words)))"

definition EncodeBig :: "int \<Rightarrow> bytes" where
  "EncodeBig bigint =
     (if bigint = 0 then [0x30, 0x78, 0x30]
      else (if bigint < 0 then [0x2D] else []) @ [0x30, 0x78] @ hexDigits (nat \<bar>bigint\<bar>))"

definition FromHex :: "bytes \<Rightarrow> bytes" where
  "FromHex s =
     (let s1 = (if has0xPrefix s then drop 2 s else s);
          s2 = (if length s1 mod 2 = 1 then 0x30 # s1 else s1)
      in fst (hex_DecodeString s2))"

definition HexToHash :: "bytes \<Rightarrow> hash" where
  "HexToHash s = BytesToHash (FromHex s)"

definition Hash_String :: "hash \<Rightarrow> bytes" where
  "Hash_String h = hex_Encode0x h"

text \<open>\<^verbatim>\<open>sort.Strings\<close> orders strings bytewise; equal strings are indistinguishable, so any correct
  sort gives the same list.\<close>

definition ha_Sort :: "hash list \<Rightarrow> hash list" where
  "ha_Sort ha = map HexToHash (sort (map Hash_String ha))"

section \<open>Digits\<close>

lemma unat_hexDigit: "n < 16 \<Longrightarrow> unat (hexDigit n) = (if n < 10 then 48 + n else 87 + n)"
  by (simp add: hexDigit_def unat_word_ariths(1) unat_of_nat)

lemma fromHexChar_unat:
  "fromHexChar c = (let n = unat c in
     if 48 \<le> n \<and> n \<le> 57 then Some (n - 48) else if 97 \<le> n \<and> n \<le> 102 then Some (n - 87)
     else if 65 \<le> n \<and> n \<le> 70 then Some (n - 55) else None)"
  by (auto simp: fromHexChar_def word_le_nat_alt unat_sub_if_size Let_def word_size)

lemma fromHexChar_hexDigit [simp]: "n < 16 \<Longrightarrow> fromHexChar (hexDigit n) = Some n"
  by (simp add: fromHexChar_unat unat_hexDigit)

definition lower :: "byte \<Rightarrow> byte" where
  "lower c = (if 0x41 \<le> c \<and> c \<le> 0x46 then c + 0x20 else c)"

lemma fromHexChar_Some:
  assumes "fromHexChar c = Some d"
  shows "d < 16" "hexDigit d = lower c"
proof -
  show d: "d < 16" using assms by (auto simp: fromHexChar_unat Let_def split: if_splits)
  have "unat (hexDigit d) = unat (lower c)"
    using assms unfolding unat_hexDigit[OF d]
    by (auto simp: fromHexChar_unat lower_def word_le_nat_alt unat_word_ariths(1) Let_def split: if_splits)
  then show "hexDigit d = lower c" by (rule unsigned_word_eqI)
qed

lemma decodeNibble_eq: "decodeNibble = fromHexChar"
  by (rule ext) (auto simp: decodeNibble_def fromHexChar_unat word_le_nat_alt unat_sub_if_size unat_word_ariths(1) Let_def word_size)

lemma hex_Decode_Encode: "hex_DecodeString (hex_Encode b) = (b, None)"
proof (induction b)
  case (Cons x b)
  have "unat x div 16 < 16" using byte_less_256[of x] by linarith
  then show ?case using Cons by simp
qed simp

primrec hexval :: "nat \<Rightarrow> bytes \<Rightarrow> nat option" where
  "hexval a [] = Some a"
| "hexval a (c # s) = (case fromHexChar c of None \<Rightarrow> None | Some d \<Rightarrow> hexval (a * 16 + d) s)"

lemma hexval_append: "hexval a (s @ t) = Option.bind (hexval a s) (\<lambda>b. hexval b t)"
  by (induction s arbitrary: a) (auto split: option.split)

lemma hexval_shift: "hexval a s = map_option (\<lambda>v. a * 16 ^ length s + v) (hexval 0 s)"
proof (induction s arbitrary: a)
  case (Cons c s)
  show ?case
  proof (cases "fromHexChar c")
    case (Some d)
    show ?thesis using Cons[of "a * 16 + d"] Cons[of d] Some
      by (cases "hexval 0 s") (simp_all add: algebra_simps)
  qed simp
qed simp

lemma hexval_hexDigits: "hexval 0 (hexDigits n) = Some n"
proof (induction n rule: hexDigits.induct)
  case (1 n)
  show ?case
  proof (cases "n < 16")
    case True
    then show ?thesis by (simp add: hexDigits.simps[of n])
  next
    case False
    then show ?thesis using 1 by (simp add: hexDigits.simps[of n] hexval_append)
  qed
qed

lemma ParseUint_loop_iff: "ParseUint_loop n s = Ok m \<longleftrightarrow> hexval (unat n) s = Some (unat m)"
proof (induction s arbitrary: n)
  case (Cons c s)
  show ?case
  proof (cases "fromHexChar c")
    case (Some d)
    have d: "d < 16" by (rule fromHexChar_Some(1)[OF Some])
    have e: "unat (2 ^ 60 :: u64) = 2 ^ 60" by simp
    show ?thesis
    proof (cases "unat n \<ge> 2 ^ 60")
      case True
      have "hexval (unat n * 16 + d) s \<noteq> Some (unat m)"
      proof
        assume "hexval (unat n * 16 + d) s = Some (unat m)"
        then obtain v where "(unat n * 16 + d) * 16 ^ length s + v = unat m"
          unfolding hexval_shift[of "unat n * 16 + d"] by auto
        moreover have "unat n * 16 + d \<le> (unat n * 16 + d) * 16 ^ length s" by simp
        ultimately have "unat n * 16 + d \<le> unat m" by (metis le_add1 le_trans)
        then have "unat m \<ge> 2 ^ 64" using True by simp
        then show False using unat_u64_less[of m] by linarith
      qed
      then show ?thesis using Some True e by (simp add: word_le_nat_alt)
    next
      case False
      have m: "unat (n * 16) = unat n * 16" using False by (simp add: unat_word_ariths(2))
      have m1: "unat (n * 16 + word_of_nat d) = unat n * 16 + d"
        using False d m by (simp add: unat_word_ariths(1) unat_of_nat)
      then show ?thesis using Some False Cons[of "n * 16 + word_of_nat d"] m e
        by (simp add: word_le_nat_alt word_less_nat_alt Let_def)
    qed
  qed simp
qed (auto simp: word_unat_eq_iff)

lemma hexDigits_unique:
  assumes "hexval 0 s = Some v" "s \<noteq> []" "length s > 1 \<longrightarrow> s ! 0 \<noteq> 0x30"
  shows "map lower s = hexDigits v"
  using assms
proof (induction s arbitrary: v rule: rev_induct)
  case (snoc c s)
  from snoc.prems(1) obtain u d where u: "hexval 0 s = Some u" "fromHexChar c = Some d" "v = u * 16 + d"
    by (auto simp: hexval_append bind_eq_Some_conv split: option.splits)
  note d = fromHexChar_Some[OF u(2)]
  show ?case
  proof (cases "s = []")
    case True
    then have "v = d" using u by simp
    then show ?thesis using True d by (simp add: hexDigits.simps[of d])
  next
    case False
    have s0: "s ! 0 \<noteq> 0x30" using snoc.prems(3) False by (cases s) auto
    then have IH: "map lower s = hexDigits u" using snoc.IH[OF u(1) False] by simp
    have "u \<noteq> 0"
    proof
      assume "u = 0"
      then have "map lower s = [0x30]" using IH by (simp add: hexDigits.simps hexDigit_def)
      then obtain b where b: "s = [b]" "lower b = 0x30" by auto
      then show False using s0 by (auto simp: lower_def word_le_nat_alt unat_word_ariths(1) dest!: arg_cong[of _ _ unat] split: if_splits)
    qed
    then show ?thesis using IH u(3) d by (simp add: hexDigits.simps[of "u * 16 + d"])
  qed
qed simp

lemma hexDigits_Nil [simp]: "hexDigits n \<noteq> []"
  by (subst hexDigits.simps) simp

lemma hexDigit_0: "n < 16 \<Longrightarrow> hexDigit n = 0x30 \<longleftrightarrow> n = 0"
proof -
  assume n: "n < 16"
  have z: "hexDigit 0 = 0x30" by (simp add: hexDigit_def)
  show "hexDigit n = 0x30 \<longleftrightarrow> n = 0"
    using fromHexChar_hexDigit[OF n] fromHexChar_hexDigit[of 0] z by fastforce
qed

lemma hexDigits_head: "0 < n \<Longrightarrow> hexDigits n ! 0 \<noteq> 0x30"
proof (induction n rule: hexDigits.induct)
  case (1 n)
  then show ?case
    by (subst hexDigits.simps) (auto simp: hexDigit_0 nth_append)
qed

lemma checkNumber_digits: "checkNumber ([0x30, 0x78] @ hexDigits n) = Ok (hexDigits n)"
proof -
  have "\<not> (length (hexDigits n) > 1 \<and> hexDigits n ! 0 = 0x30)"
    using hexDigits_head[of n] by (cases "n = 0") (simp_all add: hexDigits.simps[of 0])
  then show ?thesis by (simp add: checkNumber_def has0xPrefix_def Let_def)
qed

lemma length_hexDigits: "n < 16 ^ k \<Longrightarrow> 0 < k \<Longrightarrow> length (hexDigits n) \<le> k"
proof (induction k arbitrary: n)
  case (Suc k)
  show ?case
  proof (cases "n < 16")
    case False
    then have "n div 16 < 16 ^ k" "k \<noteq> 0" using Suc.prems(1) by (auto simp: less_mult_imp_div_less mult.commute intro!: Nat.gr0I)
    then show ?thesis using Suc.IH[of "n div 16"] False by (simp add: hexDigits.simps[of n])
  qed (simp add: hexDigits.simps[of n])
qed simp

section \<open>Big quantities\<close>

lemma nibbleWord_spec:
  "hexval (unat w) s = Some v \<Longrightarrow> v < 2 ^ 64 \<Longrightarrow> nibbleWord w s = Ok (word_of_nat v)"
proof (induction s arbitrary: w)
  case (Cons c s)
  then obtain d where d: "fromHexChar c = Some d" "hexval (unat w * 16 + d) s = Some v" by (auto split: option.splits)
  then obtain z where "(unat w * 16 + d) * 16 ^ length s + z = v" unfolding hexval_shift[of "unat w * 16 + d"] by auto
  moreover have "unat w * 16 + d \<le> (unat w * 16 + d) * 16 ^ length s" by simp
  ultimately have "unat w * 16 + d \<le> v" by (metis le_add1 le_trans)
  then have "unat w * 16 + d < 2 ^ 64" using Cons.prems(2) by (rule le_less_trans)
  then have "unat (w * 16 + word_of_nat d) = unat w * 16 + d"
    using fromHexChar_Some(1)[OF d(1)] by (simp add: unat_word_ariths unat_of_nat)
  then show ?case using Cons.IH[of "w * 16 + word_of_nat d"] d Cons.prems(2) by (simp add: decodeNibble_eq)
qed (auto simp: word_unat_eq_iff unat_of_nat)

lemma hexval_less: "hexval 0 s = Some v \<Longrightarrow> v < 16 ^ length s"
proof (induction s arbitrary: v rule: rev_induct)
  case (snoc c s)
  then obtain u d where "hexval 0 s = Some u" "fromHexChar c = Some d" "v = u * 16 + d"
    by (auto simp: hexval_append bind_eq_Some_conv split: option.splits)
  then show ?case using snoc.IH[of u] fromHexChar_Some(1)[of c d] by simp
qed simp

lemma nibbleWords_zero: "nibbleWords k 0 raw = Ok ws \<Longrightarrow> bits_value ws = 0"
  by (induction k arbitrary: ws) (auto simp: rbind_eq_Ok)

lemma nibbleWords_spec:
  assumes "hexval 0 (take hi raw) = Some v" "hi \<le> length raw" "hi \<le> 16 * k"
  shows "\<exists>ws. nibbleWords k hi raw = Ok ws \<and> bits_value ws = int v"
  using assms
proof (induction k arbitrary: hi v)
  case (Suc k)
  let ?st = "hi - 16"
  let ?mid = "take (hi - ?st) (drop ?st raw)"
  have sp: "take hi raw = take ?st raw @ ?mid"
    using take_add[of ?st "hi - ?st" raw] by simp
  from Suc.prems(1) obtain u where u: "hexval 0 (take ?st raw) = Some u" "hexval u ?mid = Some v"
    unfolding sp hexval_append by (auto simp: bind_eq_Some_conv)
  from u(2) obtain z where z: "hexval 0 ?mid = Some z" "v = u * 16 ^ length ?mid + z"
    unfolding hexval_shift[of u] by auto
  have len: "length ?mid = hi - ?st" using Suc.prems(2) by simp
  have "z < 16 ^ 16"
  proof -
    have "(16 :: nat) ^ length ?mid \<le> 16 ^ 16" unfolding len by (rule power_increasing) simp_all
    then show ?thesis using hexval_less[OF z(1)] by linarith
  qed
  then have z64: "z < 2 ^ 64" by simp
  have w: "nibbleWord 0 ?mid = Ok (word_of_nat z)" using nibbleWord_spec[of 0 ?mid z] z(1) z64 by simp
  have "?st \<le> length raw" "?st \<le> 16 * k" using Suc.prems(2,3) by simp_all
  from Suc.IH[OF u(1) this] obtain ws where ws: "nibbleWords k ?st raw = Ok ws" "bits_value ws = int u"
    by blast
  have "u * 16 ^ length ?mid = 2 ^ 64 * u"
  proof (cases "?st = 0")
    case True
    then have "u = 0" using u(1) by simp
    then show ?thesis by simp
  next
    case False
    then have "length ?mid = 16" unfolding len by simp
    then show ?thesis by simp
  qed
  then have "v = z + 2 ^ 64 * u" using z(2) by simp
  then have "uint (word_of_nat z :: u64) + 2 ^ 64 * int u = int v" using z64
    by (simp add: uint_nat unat_of_nat)
  then show ?case using w ws by (simp add: Let_def)
qed simp

text \<open>C28. The hexadecimal formats round-trip and quantities have one representation: encoding then
  decoding gives the value back for byte strings, 64-bit and 256-bit quantities, and a string that
  decodes to a 64-bit quantity is, up to letter case, its encoding.\<close>

theorem hexutil_codec:
  shows "hex_Decode (hex_Encode0x b) = Ok b \<and> DecodeUint64 (EncodeUint64 u) = Ok u \<and>
    (0 \<le> n \<and> n < 2 ^ 256 \<longrightarrow> DecodeBig (EncodeBig n) = Ok n) \<and>
    (DecodeUint64 s = Ok w \<longrightarrow> has0xPrefix s \<and> map lower (drop 2 s) = drop 2 (EncodeUint64 w))"
proof (intro conjI impI)
  show "hex_Decode (hex_Encode0x b) = Ok b"
    by (simp add: hex_Decode_def hex_Encode0x_def has0xPrefix_def hex_Decode_Encode)
  show "DecodeUint64 (EncodeUint64 u) = Ok u"
    unfolding DecodeUint64_def EncodeUint64_def checkNumber_digits rbind_simps ParseUint_loop_iff
    by (simp add: hexval_hexDigits)
next
  assume n: "0 \<le> n \<and> n < 2 ^ 256"
  have e: "EncodeBig n = [0x30, 0x78] @ hexDigits (nat n)"
    using n by (auto simp: EncodeBig_def hexDigits.simps[of 0] hexDigit_def)
  have "nat n < 16 ^ 64" using n by (simp add: nat_less_iff)
  from length_hexDigits[OF this] have l: "length (hexDigits (nat n)) \<le> 64" by simp
  let ?d = "hexDigits (nat n)"
  have "length ?d \<le> 16 * (length ?d div 16 + 1)"
    using div_mult_mod_eq[of "length ?d" 16] mod_less_divisor[of 16 "length ?d"] by (simp only: distrib_left)
  from nibbleWords_spec[of "length ?d" ?d "nat n", OF _ _ this]
  obtain ws where "nibbleWords (length ?d div 16 + 1) (length ?d) ?d = Ok ws" "bits_value ws = n"
    using n by (auto simp: hexval_hexDigits)
  then show "DecodeBig (EncodeBig n) = Ok n" using l unfolding e DecodeBig_def checkNumber_digits by simp
next
  assume "DecodeUint64 s = Ok w"
  then obtain raw where r: "checkNumber s = Ok raw" "ParseUint_loop 0 raw = Ok w" by (auto simp: DecodeUint64_def rbind_eq_Ok)
  then show "has0xPrefix s" by (auto simp: checkNumber_def split: if_splits)
  have c: "raw = drop 2 s" "raw \<noteq> []" "length raw > 1 \<longrightarrow> raw ! 0 \<noteq> 0x30"
    using r(1) by (auto simp: checkNumber_def Let_def split: if_splits)
  have "hexval 0 raw = Some (unat w)" using r(2) by (simp add: ParseUint_loop_iff)
  from hexDigits_unique[OF this c(2,3)] show "map lower (drop 2 s) = drop 2 (EncodeUint64 w)"
    using c(1) by (simp add: EncodeUint64_def)
qed

theorem hexutil_codec_witness:
  "DecodeBig (EncodeBig (2 ^ 70)) = Ok (2 ^ 70) \<and>
   map lower (drop 2 [0x30, 0x78, 0x46, 0x66]) = drop 2 (EncodeUint64 255)"
proof -
  have "DecodeUint64 [0x30, 0x78, 0x46, 0x66] = Ok 255"
    by (simp add: DecodeUint64_def checkNumber_def has0xPrefix_def fromHexChar_def)
  then show ?thesis using hexutil_codec[of "[]" 0 "2 ^ 70" "[0x30, 0x78, 0x46, 0x66]" 255] by simp
qed

end
