(* ===== verification/Hash_Order.thy ===== *)
theory Hash_Order
  imports Hex "HOL-Library.Multiset"
begin

text \<open>
  Sorting and keys of hash arrays, and the text form of addresses (\<^verbatim>\<open>src/common/types.go\<close>,
  \<^verbatim>\<open>src/common/bytes.go\<close>). Both sorts go through hexadecimal strings: hashes through the plain
  lower-case form, addresses through the mixed-case checksum form. The hash function
  Keccak-256 is a parameter.
\<close>

section \<open>The code\<close>

definition ha_Key :: "(bytes \<Rightarrow> bytes) \<Rightarrow> hash list \<Rightarrow> hash" where
  "ha_Key keccak ha = BytesToHash (keccak (ha_ToBytes (ha_Sort (ha_Uniq ha))))"

definition Address_hex :: "address \<Rightarrow> bytes" where
  "Address_hex a = [0x30, 0x78] @ hex_Encode a"

text \<open>The loop of \<^verbatim>\<open>checksumHex\<close> from index \<open>i\<close> on; the digits are upper-cased where the nibble
  of the hash is above seven.\<close>

fun checksum_loop :: "bytes \<Rightarrow> nat \<Rightarrow> bytes \<Rightarrow> bytes res" where
  "checksum_loop h i [] = Ok []"
| "checksum_loop h i (c # cs) =
     rbind (go_index h ((i - 2) div 2)) (\<lambda>hb.
     let hashByte = (if i mod 2 = 0 then drop_bit 4 hb else and hb 0xf);
         c' = (if c > 0x39 \<and> hashByte > 7 then c - 32 else c)
     in rbind (checksum_loop h (Suc i) cs) (\<lambda>r. Ok (c' # r)))"

definition checksumHex :: "(bytes \<Rightarrow> bytes) \<Rightarrow> address \<Rightarrow> bytes res" where
  "checksumHex keccak a =
     (let buf = Address_hex a in
      rbind (checksum_loop (keccak (drop 2 buf)) 2 (drop 2 buf)) (\<lambda>r. Ok (take 2 buf @ r)))"

definition HexToAddress :: "bytes \<Rightarrow> address" where
  "HexToAddress s = BytesToAddress (FromHex s)"

definition SortAddresses :: "(bytes \<Rightarrow> bytes) \<Rightarrow> address list \<Rightarrow> address list res" where
  "SortAddresses keccak addresses =
     rbind (rmap (checksumHex keccak) addresses) (\<lambda>strs. Ok (map HexToAddress (sort strs)))"

definition isHexCharacter :: "byte \<Rightarrow> bool" where
  "isHexCharacter c \<longleftrightarrow>
     (0x30 \<le> c \<and> c \<le> 0x39) \<or> (0x61 \<le> c \<and> c \<le> 0x66) \<or> (0x41 \<le> c \<and> c \<le> 0x46)"

definition isHex :: "bytes \<Rightarrow> bool" where
  "isHex str \<longleftrightarrow> length str mod 2 = 0 \<and> list_all isHexCharacter str"

definition IsHexAddress :: "bytes \<Rightarrow> bool" where
  "IsHexAddress s =
     (let s = (if has0xPrefix s then drop 2 s else s) in length s = 2 * 20 \<and> isHex s)"

fun trimLeft_idx :: "bytes \<Rightarrow> nat \<Rightarrow> nat" where
  "trimLeft_idx [] idx = idx"
| "trimLeft_idx (b # bs) idx = (if b \<noteq> 0 then idx else trimLeft_idx bs (Suc idx))"

definition TrimLeftZeroes :: "bytes \<Rightarrow> bytes" where
  "TrimLeftZeroes s = drop (trimLeft_idx s 0) s"

fun trimRight_idx :: "bytes \<Rightarrow> nat \<Rightarrow> nat" where
  "trimRight_idx s 0 = 0"
| "trimRight_idx s (Suc idx) = (if s ! idx \<noteq> 0 then Suc idx else trimRight_idx s idx)"

definition TrimRightZeroes :: "bytes \<Rightarrow> bytes" where
  "TrimRightZeroes s = take (trimRight_idx s (length s)) s"

definition LeftPadBytes :: "bytes \<Rightarrow> nat \<Rightarrow> bytes" where
  "LeftPadBytes s l =
     (if l \<le> length s then s else zero_array (l - length s) @ go_copy (zero_array (length s)) s)"

definition RightPadBytes :: "bytes \<Rightarrow> nat \<Rightarrow> bytes" where
  "RightPadBytes s l = (if l \<le> length s then s else go_copy (zero_array l) s)"

definition Hex2BytesFixed :: "bytes \<Rightarrow> nat \<Rightarrow> bytes" where
  "Hex2BytesFixed str flen =
     (let h = fst (hex_DecodeString str) in
      if length h = flen then h
      else if length h > flen then drop (length h - flen) h
      else zero_array (flen - length h) @ h)"

section \<open>Padding and trimming\<close>

lemma trimLeft_idx_spec:
  "trimLeft_idx s i = i + length (takeWhile ((=) 0) s)"
  by (induction s arbitrary: i) auto

lemma TrimLeftZeroes_dropWhile: "TrimLeftZeroes s = dropWhile ((=) 0) s"
  by (simp add: TrimLeftZeroes_def trimLeft_idx_spec dropWhile_eq_drop)

lemma trim_pad_left: "LeftPadBytes (TrimLeftZeroes s) (length s) = s"
proof -
  have "takeWhile ((=) 0) s = zero_array (length (takeWhile ((=) 0) s))"
    by (rule replicate_eqI) (auto dest: set_takeWhileD)
  moreover have "length s = length (takeWhile ((=) 0) s) + length (dropWhile ((=) 0) s)"
    by (metis length_append takeWhile_dropWhile_id)
  ultimately show ?thesis
    using takeWhile_dropWhile_id[of "(=) 0" s]
    by (cases "takeWhile ((=) 0) s = []") (simp_all add: LeftPadBytes_def TrimLeftZeroes_dropWhile)
qed

lemma trimRight_idx_le: "trimRight_idx s n \<le> n"
  by (induction s n rule: trimRight_idx.induct) (auto simp: le_SucI)

lemma trimRight_idx_zeros: "trimRight_idx s n \<le> i \<Longrightarrow> i < n \<Longrightarrow> s ! i = 0"
  by (induction s n rule: trimRight_idx.induct) (auto simp: less_Suc_eq split: if_splits)

lemma trim_pad_right: "RightPadBytes (TrimRightZeroes s) (length s) = s"
proof -
  let ?k = "trimRight_idx s (length s)"
  have k: "?k \<le> length s" by (rule trimRight_idx_le)
  have "drop ?k s = zero_array (length s - ?k)"
    using trimRight_idx_zeros[of s "length s"] by (intro nth_equalityI) auto
  then show ?thesis
    using k append_take_drop_id[of ?k s] by (simp add: RightPadBytes_def TrimRightZeroes_def go_copy_def)
qed

section \<open>Sorting by hexadecimal strings\<close>

lemma hexDigit_mono: "m < n \<Longrightarrow> n < 16 \<Longrightarrow> hexDigit m < hexDigit n"
  by (simp add: word_less_nat_alt unat_hexDigit)

lemma div_byte: "unat (b :: byte) div 16 < 16" "unat b mod 16 < 16"
  using byte_less_256[of b] by linarith simp

lemma length_hex_Encode [simp]: "length (hex_Encode b) = 2 * length b"
  by (induction b) simp_all

lemma hex_Encode_mono: "length a = length b \<Longrightarrow> a \<le> b \<Longrightarrow> hex_Encode a \<le> hex_Encode b"
proof (induction a b rule: list_induct2)
  case (Cons x xs y ys)
  show ?case
  proof (cases "x = y")
    case True
    then show ?thesis using Cons by simp
  next
    case False
    then have "unat x < unat y" using Cons.prems by (simp add: word_less_nat_alt)
    then have "unat x div 16 < unat y div 16 \<or>
        unat x div 16 = unat y div 16 \<and> unat x mod 16 < unat y mod 16"
      by (metis div_le_mono div_mult_mod_eq le_less nat_add_left_cancel_less)
    then show ?thesis
      using hexDigit_mono[of "unat x div 16" "unat y div 16"] hexDigit_mono[of "unat x mod 16" "unat y mod 16"]
        div_byte[of y] by auto
  qed
qed simp

lemma HexToHash_String: "length h = 32 \<Longrightarrow> HexToHash (Hash_String h) = h"
  by (simp add: HexToHash_def Hash_String_def hex_Encode0x_def FromHex_def has0xPrefix_def hex_Decode_Encode Let_def)

lemma ha_Sort_sort:
  assumes "\<forall>h \<in> set ha. length h = 32"
  shows "ha_Sort ha = sort ha"
proof -
  have "sorted_wrt (\<lambda>a b. Hash_String a \<le> Hash_String b) (sort ha)"
    by (rule sorted_wrt_mono_rel[OF _ sorted_sort])
      (use assms in \<open>simp add: Hash_String_def hex_Encode0x_def hex_Encode_mono\<close>)
  then have "sort (map Hash_String ha) = map Hash_String (sort ha)"
    by (intro properties_for_sort) (simp_all add: sorted_map)
  moreover have "map HexToHash (map Hash_String (sort ha)) = sort ha"
    unfolding map_map by (rule map_idI) (use assms in \<open>simp add: HexToHash_String\<close>)
  ultimately show ?thesis by (simp add: ha_Sort_def)
qed

lemma ha_ToBytes_inject:
  "\<forall>h \<in> set a \<union> set b. length h = 32 \<Longrightarrow> ha_ToBytes a = ha_ToBytes b \<longleftrightarrow> a = b"
proof -
  assume "\<forall>h \<in> set a \<union> set b. length h = 32"
  then have "HashArrayFromBytes (ha_ToBytes a) = a" "HashArrayFromBytes (ha_ToBytes b) = b"
    by (simp_all add: HashArrayFromBytes_inverse list_all_iff)
  then show ?thesis by metis
qed

lemma sort_Uniq_set: "sort (ha_Uniq a) = sort (ha_Uniq b) \<longleftrightarrow> set a = set b"
proof
  assume "sort (ha_Uniq a) = sort (ha_Uniq b)"
  then have "set (sort (ha_Uniq a)) = set (sort (ha_Uniq b))" by simp
  then show "set a = set b" by (simp add: uniq_distinct)
next
  assume "set a = set b"
  then show "sort (ha_Uniq a) = sort (ha_Uniq b)"
    by (intro sorted_distinct_set_unique) (simp_all add: uniq_distinct)
qed

text \<open>C29. \<^verbatim>\<open>HashArray.Sort\<close>, which compares hexadecimal strings, sorts by the bytes of the hashes, and
  \<^verbatim>\<open>HashArray.Key\<close> identifies arrays as sets: the bytes that are hashed agree exactly when the two
  arrays have the same elements, whatever their order and repetitions.\<close>

theorem ha_Key_of_set:
  assumes "\<forall>h \<in> set a \<union> set b. length h = 32"
  shows "ha_Sort a = sort a \<and>
    (ha_ToBytes (ha_Sort (ha_Uniq a)) = ha_ToBytes (ha_Sort (ha_Uniq b)) \<longleftrightarrow> set a = set b) \<and>
    (set a = set b \<longrightarrow> ha_Key keccak a = ha_Key keccak b)"
proof (intro conjI)
  show "ha_Sort a = sort a" using assms by (simp add: ha_Sort_sort)
  have u: "ha_Sort (ha_Uniq a) = sort (ha_Uniq a)" "ha_Sort (ha_Uniq b) = sort (ha_Uniq b)"
    using assms by (simp_all add: ha_Sort_sort uniq_distinct)
  show e: "ha_ToBytes (ha_Sort (ha_Uniq a)) = ha_ToBytes (ha_Sort (ha_Uniq b)) \<longleftrightarrow> set a = set b"
    unfolding u sort_Uniq_set[symmetric]
    by (rule ha_ToBytes_inject) (use assms in \<open>simp add: uniq_distinct\<close>)
  show "set a = set b \<longrightarrow> ha_Key keccak a = ha_Key keccak b" unfolding ha_Key_def using e by metis
qed

theorem ha_Key_of_set_witness:
  "ha_Key (\<lambda>b. b) [replicate 32 7, replicate 32 3, replicate 32 7] =
   ha_Key (\<lambda>b. b) [replicate 32 3, replicate 32 7]"
  using ha_Key_of_set[of "[replicate 32 7, replicate 32 3, replicate 32 7]"
      "[replicate 32 3, replicate 32 7]" "\<lambda>b. b"] by (simp add: insert_commute)

section \<open>Addresses as text\<close>

lemma checksum_loop_spec:
  assumes "\<forall>c \<in> set cs. \<exists>n < 16. c = hexDigit n" "2 \<le> i" "i - 2 + length cs \<le> 2 * length h"
  shows "\<exists>r. checksum_loop h i cs = Ok r \<and> map fromHexChar r = map fromHexChar cs"
  using assms
proof (induction h i cs rule: checksum_loop.induct)
  case (2 h i c cs)
  have "(i - 2) div 2 < length h" using "2.prems"(3) by (simp add: less_mult_imp_div_less mult.commute)
  then have g: "go_index h ((i - 2) div 2) = Ok (h ! ((i - 2) div 2))" by (simp add: go_index_def)
  obtain r where r: "checksum_loop h (Suc i) cs = Ok r" "map fromHexChar r = map fromHexChar cs"
  proof -
    have "\<forall>c \<in> set cs. \<exists>n < 16. c = hexDigit n" "2 \<le> Suc i" "Suc i - 2 + length cs \<le> 2 * length h"
      using "2.prems" by (simp_all add: Suc_diff_le)
    from "2.IH"[OF refl refl this] show ?thesis using that by blast
  qed
  obtain n where n: "n < 16" "c = hexDigit n" using "2.prems"(1) by auto
  have "fromHexChar (c - 32) = fromHexChar c" if "c > 0x39"
  proof -
    have "unat c = 87 + n" "n \<ge> 10" using that unat_hexDigit[OF n(1)] n(2) by (simp_all add: word_less_nat_alt split: if_splits)
    moreover have "unat (c - 32) = 55 + n" using calculation by (simp add: unat_sub_if_size)
    ultimately show ?thesis using n(1) by (simp add: fromHexChar_unat)
  qed
  then show ?case using g r by (simp add: Let_def)
qed simp

lemma hex_DecodeString_cong:
  "map fromHexChar s = map fromHexChar t \<Longrightarrow> hex_DecodeString s = hex_DecodeString t"
proof (induction s arbitrary: t rule: hex_DecodeString.induct)
  case (3 c d s)
  then obtain c' d' t' where "t = c' # d' # t'" "fromHexChar c' = fromHexChar c" "fromHexChar d' = fromHexChar d"
    "map fromHexChar s = map fromHexChar t'"
    by (auto simp: Cons_eq_map_conv)
  then show ?case using "3.IH" by (auto split: option.splits)
next
  case (2 c)
  then obtain d where "t = [d]" "fromHexChar c = fromHexChar d" by (auto simp: Cons_eq_map_conv)
  then show ?case by simp
qed simp

lemma hex_Encode_digits: "c \<in> set (hex_Encode b) \<Longrightarrow> \<exists>n < 16. c = hexDigit n"
proof (induction b)
  case (Cons x b)
  then show ?case using div_byte[of x] by (metis hex_Encode.simps(2) set_ConsD)
qed simp

lemma checksumHex_spec:
  assumes "length a = 20" "\<forall>x. length (keccak x) = 32"
  shows "\<exists>s. checksumHex keccak a = Ok s \<and> HexToAddress s = a \<and> IsHexAddress s"
proof -
  obtain r where r: "checksum_loop (keccak (hex_Encode a)) 2 (hex_Encode a) = Ok r"
      "map fromHexChar r = map fromHexChar (hex_Encode a)"
    using checksum_loop_spec[of "hex_Encode a" 2 "keccak (hex_Encode a)"] hex_Encode_digits assms by auto
  have l: "length r = 40" using arg_cong[OF r(2), of length] assms(1) by simp
  have x: "isHexCharacter c" if "c \<in> set r" for c
  proof -
    have "fromHexChar c \<in> fromHexChar ` set (hex_Encode a)" using that r(2) by (metis image_eqI list.set_map)
    then obtain n where "n < 16" "fromHexChar c = fromHexChar (hexDigit n)" using hex_Encode_digits by blast
    then have "fromHexChar c \<noteq> None" by simp
    then show ?thesis by (auto simp: fromHexChar_def isHexCharacter_def split: if_splits)
  qed
  have "checksumHex keccak a = Ok ([0x30, 0x78] @ r)" using r(1) by (simp add: checksumHex_def Address_hex_def Let_def)
  moreover have "HexToAddress ([0x30, 0x78] @ r) = a"
    using hex_DecodeString_cong[OF r(2)] l assms(1)
    by (simp add: HexToAddress_def FromHex_def has0xPrefix_def Let_def hex_Decode_Encode)
  moreover have "IsHexAddress ([0x30, 0x78] @ r)"
    using l x by (simp add: IsHexAddress_def has0xPrefix_def isHex_def list_all_iff)
  ultimately show ?thesis by blast
qed

text \<open>C30. The mixed-case text of an address is a valid hexadecimal address that parses back to it
  whatever the checksum hash, so \<^verbatim>\<open>SortAddresses\<close> never fails and returns a permutation of its
  argument whose texts ascend.\<close>

theorem SortAddresses_permutes:
  assumes "\<forall>a \<in> set addresses. length a = 20" "\<forall>x. length (keccak x) = 32"
  shows "\<exists>l. SortAddresses keccak addresses = Ok l \<and> mset l = mset addresses \<and>
    (\<exists>strs. rmap (checksumHex keccak) l = Ok strs \<and> sorted strs \<and> list_all IsHexAddress strs)"
proof -
  let ?f = "\<lambda>a. SOME s. checksumHex keccak a = Ok s"
  have f: "checksumHex keccak a = Ok (?f a)" "HexToAddress (?f a) = a" "IsHexAddress (?f a)" if "a \<in> set addresses" for a
    using checksumHex_spec[of a keccak] that assms by (auto intro: someI2)
  let ?s = "sort (map ?f addresses)" and ?l = "map HexToAddress (sort (map ?f addresses))"
  have inv: "?f (HexToAddress s) = s" if "s \<in> set ?s" for s using that f(2) by auto
  have "SortAddresses keccak addresses = Ok ?l"
    using rmap_Ok[of addresses "checksumHex keccak" ?f] f(1) by (simp add: SortAddresses_def)
  moreover have "mset ?l = mset addresses"
  proof -
    have "mset ?l = mset (map (HexToAddress \<circ> ?f) addresses)"
      by (simp only: mset_map mset_sort image_mset.compositionality)
    also have "map (HexToAddress \<circ> ?f) addresses = addresses" by (rule map_idI) (use f(2) in simp)
    finally show ?thesis .
  qed
  moreover have "rmap (checksumHex keccak) ?l = Ok (map ?f ?l)"
    by (rule rmap_Ok) (use f in auto)
  moreover have "map ?f ?l = ?s" unfolding map_map by (rule map_idI) (use inv in simp)
  moreover have "list_all IsHexAddress ?s" using f(3) by (auto simp: list_all_iff)
  ultimately show ?thesis by (metis sorted_sort)
qed

theorem SortAddresses_permutes_witness:
  "\<exists>l. SortAddresses (\<lambda>x. replicate 32 0xFF) [replicate 20 0xAB, replicate 20 0x12] = Ok l \<and>
     mset l = {#replicate 20 0xAB, replicate 20 0x12#}"
  using SortAddresses_permutes[of "[replicate 20 0xAB, replicate 20 0x12]" "\<lambda>x. replicate 32 0xFF"] by auto

end
