(* ===== verification/Dag_Types.thy ===== *)
theory Dag_Types
  imports Block_Header Hash_Order "HOL-Library.Product_Lexorder"
begin

text \<open>
  The types of the block graph: checkpoints (\<^verbatim>\<open>src/core/types/dag.go\<close>), tips with their stored
  form, header and block maps (\<^verbatim>\<open>src/core/types/block_dag.go\<close>) and the sorters of
  \<^verbatim>\<open>src/common/sorting.go\<close>. A Go map is an association list with distinct keys; the order of the
  list is the order in which a \<^verbatim>\<open>range\<close> visits it, which Go leaves open, so every theorem is for
  all orders.
\<close>

section \<open>Checkpoints\<close>

record Checkpoint =
  cp_Epoch :: u64
  cp_FinEpoch :: u64
  cp_Root :: hash
  cp_Spine :: hash

definition Checkpoint_Bytes :: "Checkpoint \<Rightarrow> bytes" where
  "Checkpoint_Bytes cp = bePut64 (cp_Epoch cp) @ bePut64 (cp_FinEpoch cp) @ cp_Root cp @ cp_Spine cp"

definition Checkpoint_SetBytes :: "bytes \<Rightarrow> Checkpoint res" where
  "Checkpoint_SetBytes data =
     (if length data \<noteq> 8 + 8 + 32 + 32 then Err (DagErr ErrBadCheckpointLen)
      else rbind (go_slice data 0 8) (\<lambda>b. rbind (beUint64 b) (\<lambda>epoch.
           rbind (go_slice data 8 16) (\<lambda>b. rbind (beUint64 b) (\<lambda>finEpoch.
           rbind (go_slice data 16 48) (\<lambda>root.
           rbind (go_slice data 48 80) (\<lambda>spine.
           Ok \<lparr>cp_Epoch = epoch, cp_FinEpoch = finEpoch, cp_Root = BytesToHash root,
               cp_Spine = BytesToHash spine\<rparr>)))))))"

definition BytesToCheckpoint :: "bytes \<Rightarrow> Checkpoint res" where
  "BytesToCheckpoint b = Checkpoint_SetBytes b"

definition Checkpoint_Copy :: "Checkpoint \<Rightarrow> Checkpoint" where
  "Checkpoint_Copy cp =
     (let cpy = \<lparr>cp_Epoch = cp_Epoch cp, cp_FinEpoch = cp_FinEpoch cp, cp_Root = zero_array 32,
                 cp_Spine = cp_Spine cp\<rparr>
      in cpy\<lparr>cp_Root := go_copy (cp_Root cpy) (cp_Root cp), cp_Spine := go_copy (cp_Spine cpy) (cp_Spine cp)\<rparr>)"

section \<open>Finalisation requests\<close>

record FinalizationParams =
  fp_Spines :: "hash list"
  fp_BaseSpine :: "hash option"
  fp_Checkpoint :: "Checkpoint option"
  fp_ValSyncData :: "ValidatorSync option list option"
  fp_SyncMode :: byte

definition ValidatorSync_Copy :: "ValidatorSync option \<Rightarrow> ValidatorSync option res" where
  "ValidatorSync_Copy vs =
     (case vs of
        None \<Rightarrow> Panic
      | Some v \<Rightarrow> Ok (Some
          \<lparr>vs_InitTxHash = go_copy (zero_array 32) (vs_InitTxHash v), vs_OpType = vs_OpType v,
           vs_ProcEpoch = vs_ProcEpoch v, vs_Index = vs_Index v,
           vs_Creator = go_copy (zero_array 20) (vs_Creator v), vs_Amount = vs_Amount v,
           vs_TxHash = map_option (go_copy (zero_array 32)) (vs_TxHash v), vs_Balance = vs_Balance v\<rparr>))"

definition FinalizationParams_Copy :: "FinalizationParams \<Rightarrow> FinalizationParams res" where
  "FinalizationParams_Copy fp =
     rbind (case fp_ValSyncData fp of
              None \<Rightarrow> Ok None
            | Some vss \<Rightarrow> rbind (rmap ValidatorSync_Copy vss) (\<lambda>cs. Ok (Some cs))) (\<lambda>valSyncData.
     Ok \<lparr>fp_Spines = go_copy (replicate (length (fp_Spines fp)) (zero_array 32)) (fp_Spines fp),
         fp_BaseSpine = map_option (go_copy (zero_array 32)) (fp_BaseSpine fp),
         fp_Checkpoint = map_option Checkpoint_Copy (fp_Checkpoint fp),
         fp_ValSyncData = valSyncData, fp_SyncMode = fp_SyncMode fp\<rparr>)"

section \<open>Tips\<close>

record BlockDAG =
  bd_Hash :: hash
  bd_Height :: u64
  bd_Slot :: u64
  bd_CpHash :: hash
  bd_CpHeight :: u64
  bd_OrderedAncestorsHashes :: "hash list"

definition BlockDAG_ToBytes :: "BlockDAG \<Rightarrow> bytes" where
  "BlockDAG_ToBytes b =
     bd_Hash b @ bePut64 (bd_Height b) @ bePut64 (bd_Slot b) @ bd_CpHash b @ bePut64 (bd_CpHeight b) @
     bePut32 (length (bd_OrderedAncestorsHashes b)) @ ha_ToBytes (bd_OrderedAncestorsHashes b)"

definition BlockDAG_SetBytes :: "bytes \<Rightarrow> BlockDAG res" where
  "BlockDAG_SetBytes data =
     rbind (go_slice data 0 32) (\<lambda>h.
     rbind (go_slice data 32 40) (\<lambda>b. rbind (beUint64 b) (\<lambda>height.
     rbind (go_slice data 40 48) (\<lambda>b. rbind (beUint64 b) (\<lambda>slot.
     rbind (go_slice data 48 80) (\<lambda>cpHash.
     rbind (go_slice data 80 88) (\<lambda>b. rbind (beUint64 b) (\<lambda>cpHeight.
     rbind (go_slice data 88 92) (\<lambda>b. rbind (beUint32 b) (\<lambda>lenDC.
     rbind (go_slice data 92 (92 + 32 * lenDC)) (\<lambda>anc.
     Ok \<lparr>bd_Hash = BytesToHash h, bd_Height = height, bd_Slot = slot, bd_CpHash = BytesToHash cpHash,
         bd_CpHeight = cpHeight, bd_OrderedAncestorsHashes = HashArrayFromBytes anc\<rparr>)))))))))))"

type_synonym tips = "(hash \<times> BlockDAG) list"

definition Tips_Add :: "tips \<Rightarrow> BlockDAG option \<Rightarrow> tips" where
  "Tips_Add tips blockDag =
     (case blockDag of
        None \<Rightarrow> tips
      | Some b \<Rightarrow>
          let b = b\<lparr>bd_OrderedAncestorsHashes := ha_Deduplicate (bd_OrderedAncestorsHashes b)\<rparr>
          in AList.update (bd_Hash b) b tips)"

definition Tips_Remove :: "tips \<Rightarrow> hash \<Rightarrow> tips" where
  "Tips_Remove tips h = AList.delete h tips"

definition Tips_Get :: "tips \<Rightarrow> hash \<Rightarrow> BlockDAG option" where
  "Tips_Get tips h = map_of tips h"

definition Tips_Copy :: "tips \<Rightarrow> tips" where
  "Tips_Copy tips = foldl (\<lambda>cpy (key, value). AList.update key value cpy) [] tips"

definition Tips_GetHashes :: "tips \<Rightarrow> hash list" where
  "Tips_GetHashes tips = map (\<lambda>(k, b). bd_Hash b) tips"

definition Tips_GetAncestorsHashes :: "tips \<Rightarrow> hash list" where
  "Tips_GetAncestorsHashes tips = foldl (\<lambda>ancestors (k, dag). ancestors @ bd_OrderedAncestorsHashes dag) [] tips"

definition Tips_GetMaxSlot :: "tips \<Rightarrow> u64" where
  "Tips_GetMaxSlot tips = foldl (\<lambda>maxSlot (k, t). if bd_Slot t > maxSlot then bd_Slot t else maxSlot) 0 tips"

subsection \<open>Ordering by height\<close>

text \<open>\<open>heightMap[key] = append(heightMap[key], hash)\<close>\<close>

definition append_at :: "'k \<Rightarrow> 'v \<Rightarrow> ('k \<times> 'v list) list \<Rightarrow> ('k \<times> 'v list) list" where
  "append_at k v m = AList.update k ((case map_of m k of None \<Rightarrow> [] | Some l \<Rightarrow> l) @ [v]) m"

definition group_by_key :: "('k \<times> 'v) list \<Rightarrow> ('k \<times> 'v list) list" where
  "group_by_key items = foldl (\<lambda>m (k, v). append_at k v m) [] items"

definition SorterAscU64 :: "u64 list \<Rightarrow> u64 list" where
  "SorterAscU64 ks = sort ks"

definition SorterDescU64 :: "u64 list \<Rightarrow> u64 list" where
  "SorterDescU64 ks = rev (sort ks)"

definition sortedHashes :: "(u64 \<times> hash list) list \<Rightarrow> u64 list \<Rightarrow> hash list" where
  "sortedHashes heightMap keys =
     foldl (\<lambda>sorted k. sorted @ ha_Sort (case map_of heightMap k of None \<Rightarrow> [] | Some l \<Rightarrow> l)) [] keys"

definition Tips_getOrderedHashes :: "tips \<Rightarrow> hash list" where
  "Tips_getOrderedHashes tips =
     (let heightMap = group_by_key (map (\<lambda>(k, dag). (bd_Height dag, bd_Hash dag)) tips)
      in sortedHashes heightMap (SorterDescU64 (map fst heightMap)))"

definition Tips_GetFinalizingDag :: "tips \<Rightarrow> BlockDAG option" where
  "Tips_GetFinalizingDag tips =
     (case Tips_getOrderedHashes tips of [] \<Rightarrow> None | h # hs \<Rightarrow> Tips_Get tips h)"

definition Tips_GetStableStateHash :: "tips \<Rightarrow> hash res" where
  "Tips_GetStableStateHash tips =
     (case Tips_GetFinalizingDag tips of None \<Rightarrow> Panic | Some dag \<Rightarrow> Ok (bd_Hash dag))"

fun ancestors_loop :: "tips \<Rightarrow> hash list \<Rightarrow> hash list \<Rightarrow> hash list res" where
  "ancestors_loop tips allHashes [] = Ok allHashes"
| "ancestors_loop tips allHashes (dagHash # hs) =
     (case Tips_Get tips dagHash of
        None \<Rightarrow> Panic
      | Some dag \<Rightarrow>
          let all1 = allHashes @ bd_OrderedAncestorsHashes dag
          in ancestors_loop tips (ha_Uniq (all1 @ [dagHash])) hs)"

definition Tips_GetOrderedAncestorsHashes :: "tips \<Rightarrow> hash list res" where
  "Tips_GetOrderedAncestorsHashes tips =
     rbind (ancestors_loop tips [] (Tips_getOrderedHashes tips)) (\<lambda>l. Ok (ha_Uniq l))"

section \<open>Header maps\<close>

text \<open>The hash of a header; blooms are arrays of 256 bytes, so copying one cannot panic.\<close>

definition hhash :: "(bytes \<Rightarrow> hash) \<Rightarrow> Header option \<Rightarrow> hash" where
  "hhash keccak ho = (case Header_Hash keccak ho of Ok h \<Rightarrow> h | _ \<Rightarrow> zero_array 32)"

type_synonym header_map = "(hash \<times> Header option) list"

definition HeaderMap_Add :: "(bytes \<Rightarrow> hash) \<Rightarrow> header_map \<Rightarrow> Header option \<Rightarrow> header_map" where
  "HeaderMap_Add keccak hm header =
     (if header = None then hm else AList.update (hhash keccak header) header hm)"

definition HeaderMap_FromArray :: "(bytes \<Rightarrow> hash) \<Rightarrow> header_map \<Rightarrow> Header option list \<Rightarrow> header_map" where
  "HeaderMap_FromArray keccak hm headers =
     foldl (\<lambda>hm h. if h \<noteq> None then HeaderMap_Add keccak hm h else hm) hm headers"

definition HeaderMap_RmEmpty :: "header_map \<Rightarrow> header_map" where
  "HeaderMap_RmEmpty hm = filter (\<lambda>(k, h). h \<noteq> None) hm"

definition HeaderMap_ToArray :: "header_map \<Rightarrow> Header option list" where
  "HeaderMap_ToArray hm = map snd hm"

definition HeaderMap_Hashes :: "(bytes \<Rightarrow> hash) \<Rightarrow> header_map \<Rightarrow> hash list" where
  "HeaderMap_Hashes keccak hm = map (\<lambda>(k, h). hhash keccak h) hm"

text \<open>Reading a field of a missing header panics.\<close>

definition header_field :: "(Header \<Rightarrow> 'a) \<Rightarrow> Header option \<Rightarrow> 'a res" where
  "header_field f ho = (case ho of None \<Rightarrow> Panic | Some h \<Rightarrow> Ok (f h))"

definition HeaderMap_GetMaxTime :: "header_map \<Rightarrow> u64 res" where
  "HeaderMap_GetMaxTime hm =
     rbind (rmap (header_field hd_Time) (map snd hm)) (\<lambda>ts. Ok (foldl (\<lambda>m t. if t > m then t else m) 0 ts))"

definition HeaderMap_AvgGasLimit :: "header_map \<Rightarrow> u64 res" where
  "HeaderMap_AvgGasLimit hm =
     (let count = word_of_nat (length hm) :: u64 in
      if count < 1 then Ok 0
      else rbind (rmap (header_field hd_GasLimit) (map snd hm)) (\<lambda>gs. Ok (foldl (+) 0 gs div count)))"

definition HeaderMap_ParentHashes :: "header_map \<Rightarrow> hash list res" where
  "HeaderMap_ParentHashes hm =
     rbind (rmap (header_field hd_ParentHashes) (map snd hm)) (\<lambda>ps. Ok (foldl (@) [] ps))"

definition HeaderMap_FinalizingSort :: "(bytes \<Rightarrow> hash) \<Rightarrow> header_map \<Rightarrow> hash list res" where
  "HeaderMap_FinalizingSort keccak hm =
     rbind (rmap (\<lambda>h. rbind (header_field hd_Height h) (\<lambda>ht. Ok (ht, hhash keccak h))) (map snd hm))
       (\<lambda>items. let heightMap = group_by_key items
                 in Ok (sortedHashes heightMap (SorterAscU64 (map fst heightMap))))"

section \<open>Grouping and sorting\<close>

definition items_at :: "'k \<Rightarrow> ('k \<times> 'v) list \<Rightarrow> 'v list" where
  "items_at k items = map snd (filter (\<lambda>p. fst p = k) items)"

lemma group_by_key_snoc: "group_by_key (xs @ [(k, v)]) = append_at k v (group_by_key xs)"
  by (simp add: group_by_key_def)

lemma group_by_key_lookup:
  "map_of (group_by_key items) k = (if k \<in> fst ` set items then Some (items_at k items) else None)"
proof (induction items rule: rev_induct)
  case (snoc p items)
  obtain k' v where p: "p = (k', v)" by (cases p)
  have e: "items_at j (items @ [(k', v)]) = items_at j items @ (if j = k' then [v] else [])" for j
    by (simp add: items_at_def)
  have "items_at k items = []" if "k \<notin> fst ` set items"
    using that by (force simp: items_at_def filter_empty_conv)
  then show ?case
    using snoc by (cases "k = k'"; cases "k \<in> fst ` set items")
      (simp_all add: p group_by_key_snoc append_at_def update_conv' e image_iff)
qed (simp add: group_by_key_def)

lemma group_by_key_distinct: "distinct (map fst (group_by_key items))"
proof (induction items rule: rev_induct)
  case (snoc p items)
  then show ?case by (cases p) (simp add: group_by_key_snoc append_at_def distinct_update)
qed (simp add: group_by_key_def)

lemma group_by_key_keys: "set (map fst (group_by_key items)) = fst ` set items"
proof -
  have "set (map fst (group_by_key items)) = dom (map_of (group_by_key items))"
    by (simp add: dom_map_of_conv_image_fst)
  also have "\<dots> = fst ` set items" by (auto simp: dom_def group_by_key_lookup)
  finally show ?thesis .
qed

lemma foldl_append: "foldl (\<lambda>acc x. acc @ f x) a xs = a @ concat (map f xs)"
  by (induction xs arbitrary: a) simp_all

text \<open>Concatenating the sorted groups in the order of their keys sorts by key, then value.\<close>

lemma sorted_groups:
  fixes f :: "'k \<Rightarrow> int" and items :: "('k \<times> ('v :: linorder)) list"
  assumes "distinct ks" "set ks = fst ` set items" "sorted_wrt (\<lambda>a b. f a < f b) ks"
  shows "concat (map (\<lambda>k. map (Pair k) (sort (items_at k items))) ks) = sort_key (\<lambda>(k, v). (f k, v)) items"
    (is "?l = _")
proof (rule sort_key_inj_key_eq[symmetric])
  show "mset items = mset ?l"
  proof (rule multiset_eqI)
    fix p :: "'k \<times> 'v"
    obtain k v where p: "p = (k, v)" by (cases p)
    have c: "count (mset (map (Pair k') (sort (items_at k' items)))) (k, v) =
        (if k' = k then count (mset items) (k, v) else 0)" for k'
    proof (cases "k' = k")
      case True
      have "count (mset (map (Pair k) (items_at k items))) (k, v) = count (mset items) (k, v)"
        by (induction items) (auto simp: items_at_def)
      then show ?thesis using True by simp
    qed (auto simp: count_eq_zero_iff)
    have "count (mset ?l) (k, v) = (\<Sum>k' \<leftarrow> ks. if k' = k then count (mset items) (k, v) else 0)"
      by (induction ks) (simp_all add: c[simplified])
    also have "\<dots> = (if k \<in> set ks then count (mset items) (k, v) else 0)"
      using assms(1) by (induction ks) auto
    also have "\<dots> = count (mset items) (k, v)"
      unfolding assms(2) by (force simp: count_eq_zero_iff)
    finally show "count (mset items) p = count (mset ?l) p" by (simp add: p)
  qed
  show "inj_on (\<lambda>(k, v). (f k, v)) (set items)"
  proof (rule inj_onI, clarsimp)
    fix k v k'
    assume "(k, v) \<in> set items" "(k', v) \<in> set items" "f k = f k'"
    moreover have "inj_on f (set ks)"
    proof -
      have "distinct (map f ks)"
        using assms(3) strict_sorted_iff[of "map f ks"] by (simp add: sorted_wrt_map)
      then show ?thesis by (simp add: distinct_map)
    qed
    ultimately show "k = k'" unfolding assms(2) by (force dest: inj_onD)
  qed
  show "sorted (map (\<lambda>(k, v). (f k, v)) ?l)"
    using assms(3)
  proof (induction ks)
    case (Cons k ks)
    have "sorted (map (\<lambda>(k, v). (f k, v)) (map (Pair k) (sort (items_at k items))))"
      by (simp add: sorted_map comp_def sorted_wrt_mono_rel[OF _ sorted_sort])
    moreover have "\<forall>x \<in> set (map (\<lambda>(k, v). (f k, v)) (map (Pair k) (sort (items_at k items)))).
       \<forall>y \<in> set (map (\<lambda>(k, v). (f k, v)) (concat (map (\<lambda>k. map (Pair k) (sort (items_at k items))) ks))). x \<le> y"
      using Cons.prems by auto
    ultimately show ?case using Cons by (simp add: sorted_append)
  qed simp
qed

lemma sortedHashes_spec:
  assumes "\<forall>p \<in> set items. length (snd p) = 32"
    and "distinct ks" "set ks = fst ` set items" "sorted_wrt (\<lambda>a b. f a < (f b :: int)) ks"
  shows "sortedHashes (group_by_key items) ks = map snd (sort_key (\<lambda>(k, v). (f k, v)) items)"
proof -
  have h: "\<forall>h \<in> set (items_at k items). length h = 32" for k using assms(1) by (auto simp: items_at_def)
  have g: "(case map_of (group_by_key items) k of None \<Rightarrow> [] | Some l \<Rightarrow> l) = items_at k items" if "k \<in> set ks" for k
    using that assms(3) by (simp add: group_by_key_lookup)
  have "sortedHashes (group_by_key items) ks = concat (map (\<lambda>k. sort (items_at k items)) ks)"
    unfolding sortedHashes_def foldl_append using g h by (simp add: ha_Sort_sort cong: map_cong)
  also have "\<dots> = map snd (concat (map (\<lambda>k. map (Pair k) (sort (items_at k items))) ks))"
    by (simp add: map_concat comp_def)
  finally show ?thesis unfolding sorted_groups[OF assms(2-4)] .
qed

lemma strict_sorted_distinct: "distinct xs \<Longrightarrow> sorted_wrt (<) (sort xs)"
  by (simp add: strict_sorted_iff)

lemma group_keys_sorted:
  "distinct (SorterAscU64 (map fst (group_by_key items)))"
  "set (SorterAscU64 (map fst (group_by_key items))) = fst ` set items"
  "sorted_wrt (\<lambda>a b. uint a < uint b) (SorterAscU64 (map fst (group_by_key items)))"
  "distinct (SorterDescU64 (map fst (group_by_key items)))"
  "set (SorterDescU64 (map fst (group_by_key items))) = fst ` set items"
  "sorted_wrt (\<lambda>a b. - uint a < - uint b) (SorterDescU64 (map fst (group_by_key items)))"
proof -
  have "((<) :: u64 \<Rightarrow> _) = (\<lambda>a b. uint a < uint b)" by (intro ext) (simp add: word_less_def)
  then have "sorted_wrt (\<lambda>a b. uint a < uint b) (sort (map fst (group_by_key items)))"
    using strict_sorted_distinct[OF group_by_key_distinct[of items]] by simp
  then show "sorted_wrt (\<lambda>a b. uint a < uint b) (SorterAscU64 (map fst (group_by_key items)))"
    "sorted_wrt (\<lambda>a b. - uint a < - uint b) (SorterDescU64 (map fst (group_by_key items)))"
    by (simp_all add: SorterAscU64_def SorterDescU64_def sorted_wrt_rev)
qed (use group_by_key_distinct[of items] group_by_key_keys[of items] in
    \<open>simp_all add: SorterAscU64_def SorterDescU64_def\<close>)

section \<open>Hash lists without repetition\<close>

lemma uniq_loop_set_cong: "set m = set m' \<Longrightarrow> uniq_loop m c xs = uniq_loop m' c xs"
proof (induction xs arbitrary: m m' c)
  case (Cons x xs)
  have "x \<in> set m \<longleftrightarrow> x \<in> set m'" using Cons.prems by blast
  moreover have "set (x # m) = set (x # m')" using Cons.prems by simp
  ultimately show ?case using Cons.IH[OF Cons.prems] Cons.IH[of "x # m" "x # m'"] by simp
qed simp

lemma uniq_loop_append:
  "set m = set c \<Longrightarrow> uniq_loop m c (a @ b) = uniq_loop (uniq_loop m c a) (uniq_loop m c a) b"
proof (induction a arbitrary: m c)
  case Nil
  then show ?case using uniq_loop_set_cong[of m c c b] by simp
qed simp

lemma ha_Uniq_append: "ha_Uniq (a @ b) = uniq_loop (ha_Uniq a) (ha_Uniq a) b"
  by (simp add: ha_Uniq_def uniq_loop_append)

lemma ha_Uniq_idem [simp]: "ha_Uniq (ha_Uniq a) = ha_Uniq a"
  using uniq_loop_id[OF uniq_distinct(1)[of a], of "[]" "[]"] by (simp add: ha_Uniq_def)

lemma ha_Uniq_absorb: "ha_Uniq (ha_Uniq a @ b) = ha_Uniq (a @ b)"
  unfolding ha_Uniq_append ha_Uniq_idem ..

section \<open>Tips\<close>

definition tips_ok :: "tips \<Rightarrow> bool" where
  "tips_ok tips \<longleftrightarrow> distinct (map fst tips) \<and>
     (\<forall>(k, b) \<in> set tips. bd_Hash b = k \<and> length k = 32 \<and> distinct (bd_OrderedAncestorsHashes b))"

lemma tips_ok_Add:
  assumes "tips_ok tips" "length (bd_Hash b) = 32"
  shows "tips_ok (Tips_Add tips (Some b))"
proof -
  have "set (AList.update k v tips) \<subseteq> insert (k, v) (set tips)" for k v
    by (induction tips) auto
  moreover have "tips_ok (AList.update (bd_Hash v) v tips)"
    if "distinct (bd_OrderedAncestorsHashes v)" "length (bd_Hash v) = 32"
      "set (AList.update (bd_Hash v) v tips) \<subseteq> insert (bd_Hash v, v) (set tips)" for v
    unfolding tips_ok_def using that assms(1) by (auto simp: tips_ok_def distinct_update)
  note this[of "b\<lparr>bd_OrderedAncestorsHashes := ha_Uniq (bd_OrderedAncestorsHashes b)\<rparr>"]
  ultimately show ?thesis using assms(2) uniq_distinct(1)
    by (simp add: Tips_Add_def Let_def ha_Deduplicate_Uniq)
qed

lemma tips_ok_Remove: "tips_ok tips \<Longrightarrow> tips_ok (Tips_Remove tips h)"
  by (auto simp: tips_ok_def Tips_Remove_def AList.delete_eq distinct_map_filter)

lemma Tips_ordered:
  assumes "tips_ok tips"
  shows "Tips_getOrderedHashes tips =
    map snd (sort_key (\<lambda>(ht, h). (- uint ht, h)) (map (\<lambda>(k, b). (bd_Height b, k)) tips))"
proof -
  let ?items = "map (\<lambda>(k, dag). (bd_Height dag, bd_Hash dag)) tips"
  have e: "?items = map (\<lambda>(k, b). (bd_Height b, k)) tips" using assms by (auto simp: tips_ok_def)
  have "\<forall>p \<in> set (map (\<lambda>(k, b). (bd_Height b, k)) tips). length (snd p) = 32"
    using assms by (auto simp: tips_ok_def)
  then show ?thesis
    unfolding Tips_getOrderedHashes_def Let_def e by (rule sortedHashes_spec[OF _ group_keys_sorted(4-6)])
qed

lemma Tips_ordered_set: "tips_ok tips \<Longrightarrow> set (Tips_getOrderedHashes tips) = fst ` set tips"
  by (force simp: Tips_ordered)

lemma ancestors_loop_spec:
  assumes "\<forall>h \<in> set hs. Tips_Get tips h = Some (dag h)"
  shows "ancestors_loop tips (ha_Uniq acc) hs =
    Ok (ha_Uniq (acc @ concat (map (\<lambda>h. bd_OrderedAncestorsHashes (dag h) @ [h]) hs)))"
  using assms
proof (induction hs arbitrary: acc)
  case (Cons h hs)
  have "ha_Uniq (ha_Uniq acc @ bd_OrderedAncestorsHashes (dag h) @ [h]) =
      ha_Uniq (acc @ bd_OrderedAncestorsHashes (dag h) @ [h])" by (rule ha_Uniq_absorb)
  then show ?case using Cons by (simp add: Let_def ha_Uniq_absorb)
qed simp

lemma Tips_ancestors:
  assumes "tips_ok tips"
  shows "Tips_GetOrderedAncestorsHashes tips =
    Ok (ha_Uniq (concat (map (\<lambda>h. bd_OrderedAncestorsHashes (the (map_of tips h)) @ [h]) (Tips_getOrderedHashes tips))))"
proof -
  have "\<forall>h \<in> set (Tips_getOrderedHashes tips). Tips_Get tips h = Some (the (map_of tips h))"
    using Tips_ordered_set[OF assms] by (auto simp: Tips_Get_def weak_map_of_SomeI)
  from ancestors_loop_spec[OF this, of "[]"] show ?thesis
    by (simp add: Tips_GetOrderedAncestorsHashes_def ha_Uniq_def[of "[]"])
qed

lemma sort_key_hd:
  assumes "sort_key f xs = y # ys"
  shows "y \<in> set xs" "x \<in> set xs \<Longrightarrow> f y \<le> f x"
proof -
  have s: "set (y # ys) = set xs" using assms by (metis set_sort)
  then show "y \<in> set xs" by auto
  have "sorted (map f (y # ys))" using assms by (metis sorted_sort_key)
  then show "x \<in> set xs \<Longrightarrow> f y \<le> f x" using s by auto
qed

lemma Tips_finalizing:
  assumes "tips_ok tips" "tips \<noteq> []"
  obtains b where "Tips_GetFinalizingDag tips = Some b" "(bd_Hash b, b) \<in> set tips"
    "\<forall>(k, t) \<in> set tips. bd_Height t < bd_Height b \<or> bd_Height t = bd_Height b \<and> bd_Hash b \<le> k"
proof -
  let ?items = "map (\<lambda>(k, b). (bd_Height b, k)) tips"
  let ?f = "\<lambda>(ht, h). (- uint (ht :: u64), h :: hash)"
  have "length (sort_key ?f ?items) \<noteq> 0" using assms(2) by (simp only: length_sort length_map length_0_conv not_False_eq_True)
  then obtain p ys where p: "sort_key ?f ?items = p # ys" by (cases "sort_key ?f ?items") auto
  obtain ht h where "p = (ht, h)" by (cases p)
  with p have e: "sort_key ?f ?items = (ht, h) # ys" by simp
  obtain b where b: "(h, b) \<in> set tips" "ht = bd_Height b" using sort_key_hd(1)[OF e] by auto
  have hb: "bd_Hash b = h" using b(1) assms(1) by (auto simp: tips_ok_def)
  have "map_of tips h = Some b" using b(1) assms(1) by (simp add: tips_ok_def)
  then have "Tips_GetFinalizingDag tips = Some b"
    using e by (simp add: Tips_GetFinalizingDag_def Tips_ordered[OF assms(1)] Tips_Get_def)
  moreover have "bd_Height t < bd_Height b \<or> bd_Height t = bd_Height b \<and> bd_Hash b \<le> k" if "(k, t) \<in> set tips" for k t
  proof -
    have "(bd_Height t, k) \<in> set ?items" using that by force
    from sort_key_hd(2)[OF e this]
    have "uint (bd_Height t) < uint ht \<or> uint (bd_Height t) = uint ht \<and> h \<le> k"
      by (simp add: less_eq_prod_def) linarith
    then show ?thesis unfolding hb b(2) word_less_def word_uint_eq_iff .
  qed
  ultimately show thesis using that hb b(1) by blast
qed

lemma tips_ok_mset: "mset tips' = mset tips \<Longrightarrow> tips_ok tips \<Longrightarrow> tips_ok tips'"
  unfolding tips_ok_def using mset_eq_setD[of tips' tips] mset_eq_imp_distinct_iff[of "map fst tips'" "map fst tips"]
  by simp

lemma map_of_mset: "mset a = mset b \<Longrightarrow> distinct (map fst a) \<Longrightarrow> map_of a = map_of b"
  using map_of_inject_set[of a b] mset_eq_setD[of a b] mset_eq_imp_distinct_iff[of "map fst a" "map fst b"] by simp

lemma sort_key_mset: "mset a = mset b \<Longrightarrow> inj_on f (set a) \<Longrightarrow> sort_key f a = sort_key f b"
  using sort_key_inj_key_eq[of a "sort_key f b" f] by simp

lemma Tips_order_independent:
  assumes "tips_ok tips" "mset tips' = mset tips"
  shows "Tips_getOrderedHashes tips' = Tips_getOrderedHashes tips"
    "Tips_GetFinalizingDag tips' = Tips_GetFinalizingDag tips"
    "Tips_GetOrderedAncestorsHashes tips' = Tips_GetOrderedAncestorsHashes tips"
proof -
  have ok: "tips_ok tips'" using tips_ok_mset[OF assms(2,1)] .
  have m: "map_of tips' = map_of tips" using map_of_mset[OF assms(2)] ok by (simp add: tips_ok_def)
  have "sort_key (\<lambda>(ht, h). (- uint ht, h)) (map (\<lambda>(k, b). (bd_Height b, k)) tips') =
      sort_key (\<lambda>(ht, h). (- uint ht, h)) (map (\<lambda>(k, b). (bd_Height b, k)) tips)"
    by (rule sort_key_mset) (auto simp: assms(2) inj_on_def word_uint_eq_iff)
  then show o: "Tips_getOrderedHashes tips' = Tips_getOrderedHashes tips"
    by (simp add: Tips_ordered[OF ok] Tips_ordered[OF assms(1)])
  then show "Tips_GetFinalizingDag tips' = Tips_GetFinalizingDag tips"
    by (simp add: Tips_GetFinalizingDag_def Tips_Get_def m split: list.splits)
  show "Tips_GetOrderedAncestorsHashes tips' = Tips_GetOrderedAncestorsHashes tips"
    using o by (simp add: Tips_ancestors[OF ok] Tips_ancestors[OF assms(1)] m)
qed

lemma FinalizingSort_spec:
  assumes "\<forall>x. length (keccak x) = 32" "\<forall>(k, h) \<in> set hm. h \<noteq> None"
  shows "HeaderMap_FinalizingSort keccak hm =
    Ok (map snd (sort_key (\<lambda>(ht, h). (uint ht, h)) (map (\<lambda>(k, h). (hd_Height (the h), hhash keccak h)) hm)))"
proof -
  let ?items = "map (\<lambda>(k, h). (hd_Height (the h), hhash keccak h)) hm"
  have l: "length (hhash keccak h) = 32" for h
    using assms(1) by (auto simp: hhash_def Header_Hash_def rlpHash_def rbind_def split: res.splits)
  have "rmap (\<lambda>h. rbind (header_field hd_Height h) (\<lambda>ht. Ok (ht, hhash keccak h))) (map snd hm) =
      Ok (map (\<lambda>h. (hd_Height (the h), hhash keccak h)) (map snd hm))"
    by (rule rmap_Ok) (use assms(2) in \<open>auto simp: header_field_def\<close>)
  moreover have "map (\<lambda>h. (hd_Height (the h), hhash keccak h)) (map snd hm) = ?items" by auto
  moreover have "\<forall>p \<in> set ?items. length (snd p) = 32" using l by auto
  ultimately show ?thesis
    using sortedHashes_spec[OF _ group_keys_sorted(1-3), of ?items]
    by (simp only: HeaderMap_FinalizingSort_def rbind_simps Let_def)
qed

section \<open>Stored forms\<close>

definition checkpoint_ok :: "Checkpoint \<Rightarrow> bool" where
  "checkpoint_ok cp \<longleftrightarrow> length (cp_Root cp) = 32 \<and> length (cp_Spine cp) = 32"

definition blockdag_ok :: "BlockDAG \<Rightarrow> bool" where
  "blockdag_ok b \<longleftrightarrow> length (bd_Hash b) = 32 \<and> length (bd_CpHash b) = 32 \<and>
     list_all (\<lambda>h. length h = 32) (bd_OrderedAncestorsHashes b) \<and>
     length (bd_OrderedAncestorsHashes b) < 2 ^ 32"

text \<open>Copies are equal to what they copy.\<close>

lemma update_new: "k \<notin> set (map fst m) \<Longrightarrow> AList.update k v m = m @ [(k, v)]"
  by (induction m) auto

lemma foldl_update_distinct:
  "distinct (map fst (m @ xs)) \<Longrightarrow> foldl (\<lambda>m (k, v). AList.update k v m) m xs = m @ xs"
proof (induction xs arbitrary: m)
  case (Cons x xs)
  obtain k v where x: "x = (k, v)" by fastforce
  then have "AList.update k v m = m @ [(k, v)]" using Cons.prems by (intro update_new) simp
  then show ?case using Cons.IH[of "m @ [x]"] Cons.prems x by simp
qed simp

lemma Tips_Copy_id: "tips_ok tips \<Longrightarrow> Tips_Copy tips = tips"
  using foldl_update_distinct[of "[]" tips] by (simp add: Tips_Copy_def tips_ok_def)

definition sync_ok :: "ValidatorSync option \<Rightarrow> bool" where
  "sync_ok vs \<longleftrightarrow>
     (\<exists>v. vs = Some v \<and> length (vs_InitTxHash v) = 32 \<and> length (vs_Creator v) = 20 \<and>
        (\<forall>h. vs_TxHash v = Some h \<longrightarrow> length h = 32))"

lemma FinalizationParams_Copy_id:
  assumes "\<forall>h. fp_BaseSpine fp = Some h \<longrightarrow> length h = 32" "\<forall>cp. fp_Checkpoint fp = Some cp \<longrightarrow> checkpoint_ok cp"
    and "\<forall>vss. fp_ValSyncData fp = Some vss \<longrightarrow> list_all sync_ok vss"
  shows "FinalizationParams_Copy fp = Ok fp"
proof -
  have c: "go_copy (zero_array n) b = b" if "length b = n" for n b using that by (simp add: go_copy_def)
  have "ValidatorSync_Copy vs = Ok vs" if "sync_ok vs" for vs
    using that by (cases "vs_TxHash (the vs)") (auto simp: ValidatorSync_Copy_def sync_ok_def c)
  then have "rmap ValidatorSync_Copy vss = Ok vss" if "fp_ValSyncData fp = Some vss" for vss
    using rmap_Ok[of vss ValidatorSync_Copy id] assms(3) that by (auto simp: list_all_iff)
  moreover have "map_option Checkpoint_Copy (fp_Checkpoint fp) = fp_Checkpoint fp"
    using assms(2) by (cases "fp_Checkpoint fp") (auto simp: Checkpoint_Copy_def checkpoint_ok_def c go_copy_def Let_def)
  moreover have "map_option (go_copy (zero_array 32)) (fp_BaseSpine fp) = fp_BaseSpine fp"
    using assms(1) by (cases "fp_BaseSpine fp") (auto simp: c)
  moreover have "go_copy (replicate (length hs) z) hs = hs" for hs and z :: hash by (simp add: go_copy_def)
  ultimately show ?thesis by (simp add: FinalizationParams_Copy_def split: option.splits)
qed

lemma bePut64_be: "length b = 8 \<Longrightarrow> bePut64 (word_of_nat (of_be b)) = b"
proof -
  assume l: "length b = 8"
  have "of_be b < 2 ^ 64" using of_be_less[of b] l by simp
  then show ?thesis using to_be_of_be[of b] l by (simp add: bePut64_def)
qed

lemma Checkpoint_inverse:
  assumes "checkpoint_ok cp"
  shows "BytesToCheckpoint (Checkpoint_Bytes cp) = Ok cp"
  using assms
  by (simp add: BytesToCheckpoint_def Checkpoint_SetBytes_def Checkpoint_Bytes_def checkpoint_ok_def go_slice_def)

lemma Checkpoint_canonical:
  assumes "BytesToCheckpoint b = Ok cp"
  shows "Checkpoint_Bytes cp = b \<and> checkpoint_ok cp"
proof -
  have l: "length b = 80" and cp: "cp = \<lparr>cp_Epoch = word_of_nat (of_be (take 8 b)),
      cp_FinEpoch = word_of_nat (of_be (take 8 (drop 8 b))), cp_Root = take 32 (drop 16 b), cp_Spine = drop 48 b\<rparr>"
    using assms by (auto simp: BytesToCheckpoint_def Checkpoint_SetBytes_def go_slice_def beUint64_def split: if_splits)
  have "take 8 b @ take 8 (drop 8 b) @ take 32 (drop 16 b) @ drop 48 b = b"
  proof -
    have "drop 16 b = take 32 (drop 16 b) @ drop 48 b" using append_take_drop_id[of 32 "drop 16 b"] by simp
    moreover have "drop 8 b = take 8 (drop 8 b) @ drop 16 b" using append_take_drop_id[of 8 "drop 8 b"] by simp
    ultimately show ?thesis using append_take_drop_id[of 8 b] by metis
  qed
  then show ?thesis using l by (simp add: cp Checkpoint_Bytes_def checkpoint_ok_def bePut64_be)
qed

lemma BlockDAG_inverse:
  assumes "blockdag_ok b"
  shows "BlockDAG_SetBytes (BlockDAG_ToBytes b @ rest) = Ok b"
proof -
  let ?a = "bd_OrderedAncestorsHashes b"
  have a: "length (ha_ToBytes ?a) = 32 * length ?a" "HashArrayFromBytes (ha_ToBytes ?a) = ?a"
    using assms by (simp_all add: blockdag_ok_def length_ha_ToBytes HashArrayFromBytes_inverse)
  have n: "length ?a < 2 ^ 32" using assms by (simp add: blockdag_ok_def)
  show ?thesis
    using assms beUint32_bePut32[OF n, of "[]"] a
    by (simp add: BlockDAG_SetBytes_def BlockDAG_ToBytes_def blockdag_ok_def go_slice_def)
qed

text \<open>C33. The stored forms of checkpoints and tips are faithful: a checkpoint or a tip reads back as
  it was written, and every byte string that reads as a checkpoint is the one the checkpoint is
  written as.\<close>

theorem dag_codec:
  assumes "checkpoint_ok cp" "blockdag_ok b"
  shows "BytesToCheckpoint (Checkpoint_Bytes cp) = Ok cp \<and> BlockDAG_SetBytes (BlockDAG_ToBytes b @ rest) = Ok b \<and>
    (BytesToCheckpoint data = Ok c \<longrightarrow> data = Checkpoint_Bytes c)"
  using Checkpoint_inverse[OF assms(1)] BlockDAG_inverse[OF assms(2)] Checkpoint_canonical[of data c] by blast

definition sample_checkpoint :: Checkpoint where
  "sample_checkpoint = \<lparr>cp_Epoch = 7, cp_FinEpoch = 9, cp_Root = replicate 32 1, cp_Spine = replicate 32 2\<rparr>"

definition sample_tip :: "byte \<Rightarrow> u64 \<Rightarrow> byte list \<Rightarrow> BlockDAG" where
  "sample_tip k height anc =
     \<lparr>bd_Hash = replicate 32 k, bd_Height = height, bd_Slot = 5, bd_CpHash = replicate 32 0,
      bd_CpHeight = 1, bd_OrderedAncestorsHashes = map (replicate 32) anc\<rparr>"

theorem dag_codec_witness:
  "BytesToCheckpoint (Checkpoint_Bytes sample_checkpoint) = Ok sample_checkpoint \<and>
   BlockDAG_SetBytes (BlockDAG_ToBytes (sample_tip 1 4 [2, 3])) = Ok (sample_tip 1 4 [2, 3])"
  using dag_codec[of sample_checkpoint "sample_tip 1 4 [2, 3]" "[]" "[]"]
  by (simp add: checkpoint_ok_def blockdag_ok_def sample_checkpoint_def sample_tip_def)

section \<open>The finalising order\<close>

text \<open>C34. Tips and headers have one finalising order, whatever order Go visits the map in: tips by
  height downwards and headers by height upwards, blocks of equal height by hash. The tip
  chosen for finalisation is the first in that order, and the list of ancestors built from the
  tips is the same for every visiting order.\<close>

theorem finalizing_order:
  assumes "tips_ok tips" "mset tips' = mset tips"
    and "\<forall>x. length (keccak x) = 32" "\<forall>(k, h) \<in> set hm. h \<noteq> None"
  shows "Tips_getOrderedHashes tips' =
      map snd (sort_key (\<lambda>(ht, h). (- uint ht, h)) (map (\<lambda>(k, b). (bd_Height b, k)) tips)) \<and>
    Tips_GetFinalizingDag tips' = Tips_GetFinalizingDag tips \<and>
    Tips_GetOrderedAncestorsHashes tips' = Tips_GetOrderedAncestorsHashes tips \<and>
    HeaderMap_FinalizingSort keccak hm =
      Ok (map snd (sort_key (\<lambda>(ht, h). (uint ht, h)) (map (\<lambda>(k, h). (hd_Height (the h), hhash keccak h)) hm)))"
  using Tips_order_independent[OF assms(1,2)] Tips_ordered[OF assms(1)] FinalizingSort_spec[OF assms(3,4)]
  by simp

definition sample_tips :: tips where
  "sample_tips = [(replicate 32 1, sample_tip 1 4 [5, 6]), (replicate 32 2, sample_tip 2 7 [6, 8])]"

lemma sample_tips_ok: "tips_ok sample_tips"
  by (simp add: tips_ok_def sample_tips_def sample_tip_def)

theorem finalizing_order_witness:
  "Tips_getOrderedHashes (rev sample_tips) = [replicate 32 2, replicate 32 1]"
  using finalizing_order[of sample_tips "rev sample_tips" "\<lambda>x. replicate 32 0" "[]"] sample_tips_ok
  by (simp add: sample_tips_def sample_tip_def)

text \<open>C35. The tips stay consistent: adding and removing tips keeps every entry filed under its own
  hash with ancestors listed once, an added tip is found and removed tips are not. The list
  built for the next block contains every tip and every ancestor of a tip exactly once, and the
  tip chosen for finalisation is of maximal height.\<close>

theorem tips_consistent:
  assumes "tips_ok tips" "length (bd_Hash b) = 32"
  shows "tips_ok (Tips_Add tips (Some b)) \<and> tips_ok (Tips_Remove tips h) \<and>
    Tips_Get (Tips_Add tips (Some b)) (bd_Hash b) =
      Some (b\<lparr>bd_OrderedAncestorsHashes := ha_Uniq (bd_OrderedAncestorsHashes b)\<rparr>) \<and>
    Tips_Get (Tips_Remove tips h) h = None \<and>
    (\<exists>l. Tips_GetOrderedAncestorsHashes tips = Ok l \<and> distinct l \<and>
       set l = fst ` set tips \<union> \<Union> ((\<lambda>(k, t). set (bd_OrderedAncestorsHashes t)) ` set tips)) \<and>
    (tips \<noteq> [] \<longrightarrow> (\<exists>t. Tips_GetFinalizingDag tips = Some t \<and>
       (\<forall>(k, u) \<in> set tips. bd_Height u \<le> bd_Height t) \<and>
       Tips_GetStableStateHash tips = Ok (bd_Hash t)))"
proof (intro conjI impI)
  show "tips_ok (Tips_Add tips (Some b))" "tips_ok (Tips_Remove tips h)"
    using assms by (rule tips_ok_Add) (rule tips_ok_Remove[OF assms(1)])
  show "Tips_Get (Tips_Add tips (Some b)) (bd_Hash b) =
      Some (b\<lparr>bd_OrderedAncestorsHashes := ha_Uniq (bd_OrderedAncestorsHashes b)\<rparr>)"
    by (simp add: Tips_Get_def Tips_Add_def Let_def update_conv' ha_Deduplicate_Uniq)
  show "Tips_Get (Tips_Remove tips h) h = None"
    by (simp add: Tips_Get_def Tips_Remove_def delete_conv')
  let ?l = "concat (map (\<lambda>h. bd_OrderedAncestorsHashes (the (map_of tips h)) @ [h]) (Tips_getOrderedHashes tips))"
  have "map_of tips k = Some t" if "(k, t) \<in> set tips" for k t using that assms(1) by (simp add: tips_ok_def)
  then have "set ?l = fst ` set tips \<union> \<Union> ((\<lambda>(k, t). set (bd_OrderedAncestorsHashes t)) ` set tips)"
    using Tips_ordered_set[OF assms(1)] by (fastforce simp: image_iff)
  then show "\<exists>l. Tips_GetOrderedAncestorsHashes tips = Ok l \<and> distinct l \<and>
       set l = fst ` set tips \<union> \<Union> ((\<lambda>(k, t). set (bd_OrderedAncestorsHashes t)) ` set tips)"
    using Tips_ancestors[OF assms(1)] uniq_distinct[of ?l] by blast
  show "\<exists>t. Tips_GetFinalizingDag tips = Some t \<and> (\<forall>(k, u) \<in> set tips. bd_Height u \<le> bd_Height t) \<and>
       Tips_GetStableStateHash tips = Ok (bd_Hash t)" if ne: "tips \<noteq> []"
  proof -
    obtain t where "Tips_GetFinalizingDag tips = Some t"
      "\<forall>(k, u) \<in> set tips. bd_Height u < bd_Height t \<or> bd_Height u = bd_Height t \<and> bd_Hash t \<le> k"
      using Tips_finalizing[OF assms(1) ne] by blast
    then show ?thesis by (auto simp: Tips_GetStableStateHash_def)
  qed
qed

theorem tips_consistent_witness:
  "\<exists>t. Tips_GetFinalizingDag sample_tips = Some t \<and>
     (\<forall>(k, u) \<in> set sample_tips. bd_Height u \<le> bd_Height t)"
proof -
  have "length (bd_Hash (sample_tip 3 1 [])) = 32" "sample_tips \<noteq> []"
    by (simp_all add: sample_tip_def sample_tips_def)
  then show ?thesis using tips_consistent[OF sample_tips_ok, of "sample_tip 3 1 []" "[]"] by blast
qed

end
