(* ===== verification/Spine.thy ===== *)
theory Spine
  imports Dag_Types
begin

text \<open>
  Spines (\<^verbatim>\<open>src/core/types/spine.go\<close>, the block lists of \<^verbatim>\<open>block.go\<close>, block maps of
  \<^verbatim>\<open>block_dag.go\<close> and block retrieval of \<^verbatim>\<open>src/core/blockchain_reader.go\<close>): the order in which
  the blocks of a slot are considered, the spine block of each slot, the optimistic candidates
  and the chain of unfinalised ancestors that a spine finalises. A pointer that may be nil is an
  option; following nil panics.
\<close>

section \<open>Blocks\<close>

record 'tx Block =
  b_header :: "Header option"
  b_transactions :: "'tx list"

definition blk_header :: "'tx Block option \<Rightarrow> Header res" where
  "blk_header bo =
     (case bo of None \<Rightarrow> Panic
      | Some b \<Rightarrow> (case b_header b of None \<Rightarrow> Panic | Some h \<Rightarrow> Ok h))"

definition blk_Hash :: "(bytes \<Rightarrow> hash) \<Rightarrow> 'tx Block option \<Rightarrow> hash res" where
  "blk_Hash keccak bo = (case bo of None \<Rightarrow> Panic | Some b \<Rightarrow> Ok (hhash keccak (b_header b)))"

definition Blocks_GroupBySlot :: "'tx Block option list \<Rightarrow> (u64 \<times> 'tx Block option list) list res" where
  "Blocks_GroupBySlot bs =
     rbind (rmap (\<lambda>bo. case bo of None \<Rightarrow> Err (DagErr ErrNilBlock)
                    | Some b \<Rightarrow> (case b_header b of None \<Rightarrow> Err (DagErr ErrNilHeader)
                                 | Some h \<Rightarrow> Ok (hd_Slot h, bo))) bs)
       (\<lambda>items. Ok (group_by_key items))"

fun dedup_blocks :: "(bytes \<Rightarrow> hash) \<Rightarrow> bool \<Rightarrow> hash list \<Rightarrow> 'tx Block option list \<Rightarrow> 'tx Block option list" where
  "dedup_blocks keccak rmNil bmap [] = []"
| "dedup_blocks keccak rmNil bmap (None # bs) =
     (if rmNil then dedup_blocks keccak rmNil bmap bs
      else if zero_array 32 \<notin> set bmap then None # dedup_blocks keccak rmNil (zero_array 32 # bmap) bs
      else dedup_blocks keccak rmNil bmap bs)"
| "dedup_blocks keccak rmNil bmap (Some b # bs) =
     (let h = hhash keccak (b_header b) in
      if h \<notin> set bmap then Some b # dedup_blocks keccak rmNil (h # bmap) bs
      else dedup_blocks keccak rmNil bmap bs)"

definition Blocks_Deduplicate :: "(bytes \<Rightarrow> hash) \<Rightarrow> 'tx Block option list \<Rightarrow> bool \<Rightarrow> 'tx Block option list" where
  "Blocks_Deduplicate keccak bs rmNil = dedup_blocks keccak rmNil [] bs"

definition Blocks_GetHashes :: "(bytes \<Rightarrow> hash) \<Rightarrow> 'tx Block option list \<Rightarrow> hash list res" where
  "Blocks_GetHashes keccak bs = rmap (blk_Hash keccak) bs"

subsection \<open>Block maps\<close>

definition CopyHeader :: "Header option \<Rightarrow> Header option" where
  "CopyHeader ho =
     (case ho of
        None \<Rightarrow> None
      | Some h \<Rightarrow>
          let cpy = h\<lparr>hd_Number := (if hd_Number h \<noteq> None then Some (Header_Nr h) else None)\<rparr>
          in Some (if length (hd_Extra h) > 0
                   then cpy\<lparr>hd_Extra := go_copy (zero_array (length (hd_Extra h))) (hd_Extra h)\<rparr> else cpy))"

definition blk_Header :: "'tx Block option \<Rightarrow> Header option res" where
  "blk_Header bo = (case bo of None \<Rightarrow> Panic | Some b \<Rightarrow> Ok (CopyHeader (b_header b)))"

type_synonym 'tx block_map = "(hash \<times> 'tx Block option) list"

definition BlockMap_ToArray :: "'tx block_map \<Rightarrow> 'tx Block option list" where
  "BlockMap_ToArray bm = map snd bm"

definition BlockMap_Add :: "(bytes \<Rightarrow> hash) \<Rightarrow> 'tx block_map \<Rightarrow> 'tx Block option \<Rightarrow> 'tx block_map" where
  "BlockMap_Add keccak bm block =
     (case block of None \<Rightarrow> bm | Some b \<Rightarrow> AList.update (hhash keccak (b_header b)) block bm)"

definition BlockMap_Hashes :: "(bytes \<Rightarrow> hash) \<Rightarrow> 'tx block_map \<Rightarrow> hash list res" where
  "BlockMap_Hashes keccak bm = rmap (blk_Hash keccak) (map snd bm)"

definition BlockMap_Headers :: "(bytes \<Rightarrow> hash) \<Rightarrow> 'tx block_map \<Rightarrow> header_map res" where
  "BlockMap_Headers keccak bm =
     rbind (rmap (\<lambda>block. rbind (blk_Hash keccak block) (\<lambda>hash. rbind (blk_Header block) (\<lambda>h. Ok (hash, h)))) (map snd bm))
       (\<lambda>items. Ok (foldl (\<lambda>headers (hash, h). AList.update hash h headers) [] items))"

definition BlockMap_GetMaxTime :: "(bytes \<Rightarrow> hash) \<Rightarrow> 'tx block_map \<Rightarrow> u64 res" where
  "BlockMap_GetMaxTime keccak bm = rbind (BlockMap_Headers keccak bm) HeaderMap_GetMaxTime"

definition BlockMap_AvgGasLimit :: "(bytes \<Rightarrow> hash) \<Rightarrow> 'tx block_map \<Rightarrow> u64 res" where
  "BlockMap_AvgGasLimit keccak bm = rbind (BlockMap_Headers keccak bm) HeaderMap_AvgGasLimit"

definition BlockMap_FinalizingSort :: "(bytes \<Rightarrow> hash) \<Rightarrow> 'tx block_map \<Rightarrow> hash list res" where
  "BlockMap_FinalizingSort keccak bm = rbind (BlockMap_Headers keccak bm) (HeaderMap_FinalizingSort keccak)"

section \<open>The order within a slot\<close>

definition lookup_or_empty :: "('k \<times> 'v list) list \<Rightarrow> 'k \<Rightarrow> 'v list" where
  "lookup_or_empty m k = (case map_of m k of None \<Rightarrow> [] | Some l \<Rightarrow> l)"

text \<open>\<open>heightPlenMap[h][plen][hash] = bl\<close>, creating the inner maps on first use.\<close>

type_synonym 'b height_map = "(u64 \<times> (u64 \<times> (hash \<times> 'b) list) list) list"

definition put_block :: "u64 \<Rightarrow> u64 \<Rightarrow> hash \<Rightarrow> 'b \<Rightarrow> 'b height_map \<Rightarrow> 'b height_map" where
  "put_block h plen hash bl m =
     (let plenMap = lookup_or_empty m h; hashMap = lookup_or_empty plenMap plen
      in AList.update h (AList.update plen (AList.update hash bl hashMap) plenMap) m)"

definition sort_item :: "(bytes \<Rightarrow> hash) \<Rightarrow> 'tx Block option \<Rightarrow> ((u64 \<times> u64 \<times> hash) \<times> 'tx Block option) res" where
  "sort_item keccak bl =
     rbind (blk_header bl) (\<lambda>hd.
     rbind (blk_Hash keccak bl) (\<lambda>hash.
     Ok ((hd_Height hd, word_of_nat (length (hd_ParentHashes hd)), hash), bl)))"

definition height_plen_map :: "((u64 \<times> u64 \<times> hash) \<times> 'b) list \<Rightarrow> 'b height_map" where
  "height_plen_map items = foldl (\<lambda>m ((h, plen, hash), bl). put_block h plen hash bl m) [] items"

definition hash_blocks :: "(hash \<times> 'b) list \<Rightarrow> 'b option list" where
  "hash_blocks hashMap = map (map_of hashMap) (ha_Sort (map fst hashMap))"

definition plen_blocks :: "(u64 \<times> (hash \<times> 'b) list) list \<Rightarrow> 'b option list" where
  "plen_blocks plenMap =
     foldl (\<lambda>acc k. acc @ hash_blocks (lookup_or_empty plenMap k)) [] (SorterDescU64 (map fst plenMap))"

definition height_blocks :: "'b height_map \<Rightarrow> 'b option list" where
  "height_blocks m =
     foldl (\<lambda>acc hk. acc @ plen_blocks (lookup_or_empty m hk)) [] (SorterDescU64 (map fst m))"

text \<open>A key missing from a map of pointers reads as nil.\<close>

definition SpineSortBlocks :: "(bytes \<Rightarrow> hash) \<Rightarrow> 'tx Block option list \<Rightarrow> 'tx Block option list res" where
  "SpineSortBlocks keccak blocks =
     rbind (rmap (sort_item keccak) blocks) (\<lambda>items.
     Ok (map (\<lambda>p. case p of None \<Rightarrow> None | Some bl \<Rightarrow> bl) (height_blocks (height_plen_map items))))"

fun spines_loop :: "(bytes \<Rightarrow> hash) \<Rightarrow> (u64 \<times> 'tx Block option list) list \<Rightarrow> u64 list \<Rightarrow>
    (u64 \<times> 'tx Block option) list \<Rightarrow> (u64 \<times> 'tx Block option) list res" where
  "spines_loop keccak blocksBySlot [] spines = Ok spines"
| "spines_loop keccak blocksBySlot (slot # slots) spines =
     rbind (SpineSortBlocks keccak (lookup_or_empty blocksBySlot slot)) (\<lambda>slotBlocks.
     case slotBlocks of
       [] \<Rightarrow> spines_loop keccak blocksBySlot slots spines
     | b # _ \<Rightarrow> spines_loop keccak blocksBySlot slots (AList.update slot b spines))"

definition CalculateSpines ::
    "(bytes \<Rightarrow> hash) \<Rightarrow> 'tx Block option list \<Rightarrow> u64 \<Rightarrow> (u64 \<times> 'tx Block option) list res" where
  "CalculateSpines keccak blocks lastFinSlot =
     rbind (Blocks_GroupBySlot blocks) (\<lambda>blocksBySlot.
     let slots = SorterAscU64 (filter (\<lambda>sl. sl > lastFinSlot) (map fst blocksBySlot))
     in spines_loop keccak blocksBySlot slots [])"

section \<open>Optimistic candidates\<close>

text \<open>The loops of \<^verbatim>\<open>selectSpinesByMaxHeight\<close> and \<^verbatim>\<open>selectSpinesByMaxParentsCount\<close>.\<close>

fun select_max :: "('a \<Rightarrow> u64) \<Rightarrow> u64 \<Rightarrow> 'a list \<Rightarrow> 'a list \<Rightarrow> 'a list" where
  "select_max f mx sel [] = sel"
| "select_max f mx sel (x # xs) =
     (if f x < mx then select_max f mx sel xs
      else if f x > mx then select_max f (f x) [x] xs
      else select_max f mx (sel @ [x]) xs)"

definition selectSpinesByMaxHeight :: "Header list \<Rightarrow> Header list" where
  "selectSpinesByMaxHeight blocks = (if blocks = [] then [] else select_max hd_Height 0 [] blocks)"

definition selectSpinesByMaxParentsCount :: "Header list \<Rightarrow> Header list" where
  "selectSpinesByMaxParentsCount headers =
     select_max (\<lambda>h. word_of_nat (length (hd_ParentHashes h))) 0 [] headers"

definition sortByHash :: "(bytes \<Rightarrow> hash) \<Rightarrow> Header list \<Rightarrow> Header list" where
  "sortByHash keccak headers = sort_key (\<lambda>h. hhash keccak (Some h)) headers"

definition CalculateOptimisticSpines :: "(bytes \<Rightarrow> hash) \<Rightarrow> Header list \<Rightarrow> hash list" where
  "CalculateOptimisticSpines keccak slotBlocks =
     (let s1 = selectSpinesByMaxHeight slotBlocks;
          s2 = (if length s1 > 1 then selectSpinesByMaxParentsCount s1 else s1);
          s3 = (if length s2 > 1 then sortByHash keccak s2 else s2)
      in map (\<lambda>h. hhash keccak (Some h)) s3)"

definition plen_hashes :: "(u64 \<times> hash list) list \<Rightarrow> hash list" where
  "plen_hashes plenMap =
     foldl (\<lambda>acc k. acc @ sort (lookup_or_empty plenMap k)) [] (SorterDescU64 (map fst plenMap))"

definition put_hash :: "u64 \<Rightarrow> u64 \<Rightarrow> hash \<Rightarrow> (u64 \<times> (u64 \<times> hash list) list) list \<Rightarrow>
    (u64 \<times> (u64 \<times> hash list) list) list" where
  "put_hash h plen hash m = AList.update h (append_at plen hash (lookup_or_empty m h)) m"

definition OptimisticSortSlotHeaders :: "(bytes \<Rightarrow> hash) \<Rightarrow> Header list \<Rightarrow> hash list" where
  "OptimisticSortSlotHeaders keccak slotHeaders =
     (let m = foldl (\<lambda>m bl. put_hash (hd_Height bl) (word_of_nat (length (hd_ParentHashes bl)))
                 (hhash keccak (Some bl)) m) [] slotHeaders
      in foldl (\<lambda>acc hk. acc @ plen_hashes (lookup_or_empty m hk)) [] (SorterDescU64 (map fst m)))"

section \<open>Sorting through nested maps\<close>

lemma sorted_wrt_concat:
  assumes "sorted_wrt R ks" "\<And>k. k \<in> set ks \<Longrightarrow> sorted_wrt P (g k)"
    and "\<And>k k' a b. R k k' \<Longrightarrow> a \<in> set (g k) \<Longrightarrow> b \<in> set (g k') \<Longrightarrow> P a b"
  shows "sorted_wrt P (concat (map g ks))"
  using assms(1,2) by (induction ks) (auto simp: sorted_wrt_append dest: assms(3))

lemma strict_sorted_unique:
  assumes "sorted_wrt (\<lambda>a b. f a < f b) xs" "set xs = set ys" "inj_on f (set ys)"
  shows "xs = sort_key f (remdups ys)"
proof (rule sort_key_inj_key_eq[symmetric])
  have s: "sorted_wrt (<) (map f xs)" using assms(1) by (simp add: sorted_wrt_map)
  then have "distinct xs" by (simp add: strict_sorted_iff distinct_map)
  then show "mset (remdups ys) = mset xs" using assms(2) by (simp add: set_eq_iff_mset_eq_distinct[symmetric])
  show "sorted (map f xs)" using s by (simp add: strict_sorted_iff)
  show "inj_on f (set (remdups ys))" using assms(3) by simp
qed

lemma map_sort_key: "map f (sort_key f xs) = sort (map f xs)"
  by (rule properties_for_sort[symmetric]) simp_all

lemma lookup_or_empty_update:
  "lookup_or_empty (AList.update k v m) k' = (if k' = k then v else lookup_or_empty m k')"
  by (simp add: lookup_or_empty_def update_conv')

abbreviation lookup3 :: "'b height_map \<Rightarrow> u64 \<Rightarrow> u64 \<Rightarrow> hash \<Rightarrow> 'b option" where
  "lookup3 m h p x \<equiv> map_of (lookup_or_empty (lookup_or_empty m h) p) x"

lemma put_block_lookup:
  "lookup3 (put_block h p x b m) h' p' x' = (if (h', p', x') = (h, p, x) then Some b else lookup3 m h' p' x')"
  by (simp add: put_block_def Let_def lookup_or_empty_update update_conv')

lemma height_plen_map_snoc:
  "height_plen_map (items @ [((h, p, x), b)]) = put_block h p x b (height_plen_map items)"
  by (simp add: height_plen_map_def)

lemma height_plen_map_lookup: "lookup3 (height_plen_map items) h p x = map_of (rev items) (h, p, x)"
proof (induction items rule: rev_induct)
  case (snoc i items)
  obtain h' p' x' b where i: "i = ((h', p', x'), b)" by (metis prod_cases3 surj_pair)
  show ?case unfolding i height_plen_map_snoc put_block_lookup using snoc by simp
qed (simp add: height_plen_map_def lookup_or_empty_def)

definition hm_ok :: "'b height_map \<Rightarrow> bool" where
  "hm_ok m \<longleftrightarrow> distinct (map fst m) \<and> (\<forall>h. distinct (map fst (lookup_or_empty m h))) \<and>
     (\<forall>h p. distinct (map fst (lookup_or_empty (lookup_or_empty m h) p)))"

lemma hm_ok_put: "hm_ok m \<Longrightarrow> hm_ok (put_block h p x b m)"
  by (simp add: hm_ok_def put_block_def Let_def lookup_or_empty_update distinct_update)

lemma hm_ok_map: "hm_ok (height_plen_map items)"
proof (induction items rule: rev_induct)
  case (snoc i items)
  obtain h' p' x' b where i: "i = ((h', p', x'), b)" by (metis prod_cases3 surj_pair)
  show ?case unfolding i height_plen_map_snoc by (rule hm_ok_put[OF snoc])
qed (simp add: hm_ok_def height_plen_map_def lookup_or_empty_def)

lemma lookup_or_empty_key: "lookup_or_empty m k \<noteq> [] \<Longrightarrow> k \<in> fst ` set m"
  by (force simp: lookup_or_empty_def dest: map_of_SomeD split: option.splits)

definition ordered_keys :: "'b height_map \<Rightarrow> (u64 \<times> u64 \<times> hash) list" where
  "ordered_keys m =
     concat (map (\<lambda>h. concat (map (\<lambda>p. map (\<lambda>x. (h, p, x)) (sort (map fst (lookup_or_empty (lookup_or_empty m h) p))))
       (SorterDescU64 (map fst (lookup_or_empty m h))))) (SorterDescU64 (map fst m)))"

definition order_key :: "u64 \<times> u64 \<times> hash \<Rightarrow> int \<times> int \<times> hash" where
  "order_key = (\<lambda>(h, p, x). (- uint h, - uint p, x))"

lemma inj_order_key: "inj_on order_key A"
  by (auto simp: order_key_def inj_on_def word_uint_eq_iff)

lemma SorterDescU64_strict: "distinct ks \<Longrightarrow> sorted_wrt (\<lambda>a b. - uint a < - uint b) (SorterDescU64 ks)"
proof -
  assume d: "distinct ks"
  have "((<) :: u64 \<Rightarrow> _) = (\<lambda>a b. uint a < uint b)" by (intro ext) (simp add: word_less_def)
  then show ?thesis using strict_sorted_distinct[OF d] by (simp add: SorterDescU64_def sorted_wrt_rev)
qed

lemma set_SorterDescU64 [simp]: "set (SorterDescU64 ks) = set ks"
  by (simp add: SorterDescU64_def)

lemma ordered_keys_sorted: "hm_ok m \<Longrightarrow> sorted_wrt (\<lambda>a b. order_key a < order_key b) (ordered_keys m)"
  unfolding ordered_keys_def
proof (rule sorted_wrt_concat)
  assume m: "hm_ok m"
  show "sorted_wrt (\<lambda>a b. - uint a < - uint b) (SorterDescU64 (map fst m))"
    using m by (intro SorterDescU64_strict) (simp add: hm_ok_def)
  fix h
  show "sorted_wrt (\<lambda>a b. order_key a < order_key b) (concat (map (\<lambda>p. map (\<lambda>x. (h, p, x))
      (sort (map fst (lookup_or_empty (lookup_or_empty m h) p)))) (SorterDescU64 (map fst (lookup_or_empty m h)))))"
  proof (rule sorted_wrt_concat)
    show "sorted_wrt (\<lambda>a b. - uint a < - uint b) (SorterDescU64 (map fst (lookup_or_empty m h)))"
      using m by (intro SorterDescU64_strict) (simp add: hm_ok_def)
    fix p
    have "distinct (map fst (lookup_or_empty (lookup_or_empty m h) p))" using m by (simp add: hm_ok_def)
    from strict_sorted_distinct[OF this]
    show "sorted_wrt (\<lambda>a b. order_key a < order_key b)
        (map (\<lambda>x. (h, p, x)) (sort (map fst (lookup_or_empty (lookup_or_empty m h) p))))"
      by (simp add: sorted_wrt_map order_key_def)
  qed (auto simp: order_key_def)
qed (auto simp: order_key_def)

lemma ordered_keys_set: "(h, p, x) \<in> set (ordered_keys m) \<longleftrightarrow> lookup3 m h p x \<noteq> None"
proof
  assume "(h, p, x) \<in> set (ordered_keys m)"
  then have "x \<in> fst ` set (lookup_or_empty (lookup_or_empty m h) p)" by (auto simp: ordered_keys_def)
  then show "lookup3 m h p x \<noteq> None" by (simp add: map_of_eq_None_iff)
next
  assume a: "lookup3 m h p x \<noteq> None"
  then have "lookup_or_empty (lookup_or_empty m h) p \<noteq> []" by auto
  then have "p \<in> fst ` set (lookup_or_empty m h)" by (rule lookup_or_empty_key)
  moreover from this have "h \<in> fst ` set m" by (intro lookup_or_empty_key) auto
  moreover have "x \<in> fst ` set (lookup_or_empty (lookup_or_empty m h) p)" using a by (metis map_of_eq_None_iff)
  ultimately show "(h, p, x) \<in> set (ordered_keys m)" by (auto simp: ordered_keys_def)
qed

lemma height_blocks_keys:
  assumes "\<forall>h p. \<forall>x \<in> fst ` set (lookup_or_empty (lookup_or_empty m h) p). length x = 32"
  shows "height_blocks m = map (\<lambda>(h, p, x). lookup3 m h p x) (ordered_keys m)"
proof -
  have "ha_Sort (map fst (lookup_or_empty (lookup_or_empty m h) p)) =
      sort (map fst (lookup_or_empty (lookup_or_empty m h) p))" for h p
    by (rule ha_Sort_sort) (use assms in simp)
  then show ?thesis
    by (simp add: height_blocks_def plen_blocks_def hash_blocks_def foldl_append ordered_keys_def map_concat comp_def)
qed

definition block_key :: "(bytes \<Rightarrow> hash) \<Rightarrow> 'tx Block option \<Rightarrow> u64 \<times> u64 \<times> hash" where
  "block_key keccak bo =
     (let hd = the (b_header (the bo))
      in (hd_Height hd, word_of_nat (length (hd_ParentHashes hd)), hhash keccak (b_header (the bo))))"

definition block_present :: "'tx Block option \<Rightarrow> bool" where
  "block_present bo \<longleftrightarrow> (\<exists>b h. bo = Some b \<and> b_header b = Some h)"

lemma sort_item_present: "block_present bo \<Longrightarrow> sort_item keccak bo = Ok (block_key keccak bo, bo)"
  by (auto simp: block_present_def sort_item_def blk_header_def blk_Hash_def block_key_def Let_def)

lemma length_hhash: "\<forall>x. length (keccak x) = 32 \<Longrightarrow> length (hhash keccak h) = 32"
  by (auto simp: hhash_def Header_Hash_def rlpHash_def rbind_def split: res.splits)

lemma SpineSortBlocks_spec:
  assumes "\<forall>x. length (keccak x) = 32" "\<forall>bo \<in> set bs. block_present bo"
  obtains out where "SpineSortBlocks keccak bs = Ok out"
    "map (block_key keccak) out = sort_key order_key (remdups (map (block_key keccak) bs))" "set out \<subseteq> set bs"
proof -
  let ?items = "map (\<lambda>bo. (block_key keccak bo, bo)) bs"
  let ?m = "height_plen_map ?items"
  have items: "rmap (sort_item keccak) bs = Ok ?items"
    using assms(2) by (intro rmap_Ok) (simp add: sort_item_present)
  have k: "set (ordered_keys ?m) = set (map (block_key keccak) bs)"
  proof (intro set_eqI)
    fix t :: "u64 \<times> u64 \<times> hash"
    obtain h p x where t: "t = (h, p, x)" by (cases t)
    show "t \<in> set (ordered_keys ?m) \<longleftrightarrow> t \<in> set (map (block_key keccak) bs)"
      unfolding t ordered_keys_set height_plen_map_lookup map_of_eq_None_iff not_not by force
  qed
  have ks: "ordered_keys ?m = sort_key order_key (remdups (map (block_key keccak) bs))"
    by (rule strict_sorted_unique[OF ordered_keys_sorted[OF hm_ok_map] k inj_order_key])
  have "length x = 32" if "x \<in> fst ` set (lookup_or_empty (lookup_or_empty ?m h) p)" for h p x
  proof -
    have "lookup3 ?m h p x \<noteq> None" using that by (simp add: map_of_eq_None_iff)
    then have "(h, p, x) \<in> set (map (block_key keccak) bs)" by (simp only: ordered_keys_set[symmetric] k)
    then show ?thesis using length_hhash[OF assms(1)] by (auto simp: block_key_def Let_def)
  qed
  then have hb: "height_blocks ?m = map (\<lambda>t. map_of (rev ?items) t) (ordered_keys ?m)"
    by (subst height_blocks_keys) (auto simp: height_plen_map_lookup)
  let ?out = "map (\<lambda>t. case map_of (rev ?items) t of None \<Rightarrow> None | Some bl \<Rightarrow> bl) (ordered_keys ?m)"
  have el: "\<exists>bo \<in> set bs. map_of (rev ?items) t = Some bo \<and> block_key keccak bo = t" if "t \<in> set (ordered_keys ?m)" for t
  proof -
    have "map_of (rev ?items) t \<noteq> None" using that unfolding k map_of_eq_None_iff by force
    then obtain bo where "map_of (rev ?items) t = Some bo" by blast
    then show ?thesis using map_of_SomeD[of "rev ?items" t bo] by auto
  qed
  have a: "SpineSortBlocks keccak bs = Ok ?out"
    by (simp add: SpineSortBlocks_def items hb comp_def)
  have b: "map (block_key keccak) ?out = ordered_keys ?m"
    unfolding map_map by (rule map_idI) (use el in force)
  have c: "set ?out \<subseteq> set bs" using el by force
  show thesis by (rule that[OF a _ c]) (rule trans[OF b ks])
qed

text \<open>C36. The blocks of a slot are ordered by height downwards, then number of parents downwards,
  then hash upwards, each hash once, whatever the order of the blocks and of the three nested
  maps: this is the order that every node must agree on.\<close>

theorem SpineSortBlocks_order:
  assumes "\<forall>x. length (keccak x) = 32" "\<forall>bo \<in> set bs. block_present bo"
  shows "\<exists>out. SpineSortBlocks keccak bs = Ok out \<and> set out \<subseteq> set bs \<and>
    map (block_key keccak) out = sort_key order_key (remdups (map (block_key keccak) bs))"
  using SpineSortBlocks_spec[OF assms] by metis

definition sample_block :: "u64 \<Rightarrow> u64 \<Rightarrow> unit Block option" where
  "sample_block slot height =
     Some \<lparr>b_header = Some (sample_header\<lparr>hd_Slot := slot, hd_Height := height\<rparr>), b_transactions = []\<rparr>"

lemma sample_block_key [simp]:
  "\<forall>x. length (keccak x) = 32 \<Longrightarrow> fst (block_key keccak (sample_block slot height)) = height"
  "fst (snd (block_key keccak (sample_block slot height))) = 1"
  "block_present (sample_block slot height)"
  by (simp_all add: sample_block_def block_key_def block_present_def sample_header_def)

theorem SpineSortBlocks_order_witness:
  "\<exists>out. SpineSortBlocks (\<lambda>x. replicate 32 1) [sample_block 5 4, sample_block 5 7] = Ok out \<and>
     map (fst \<circ> block_key (\<lambda>x. replicate 32 1)) out = [7, 4]"
proof -
  let ?k = "\<lambda>x :: bytes. replicate 32 1 :: hash" and ?bs = "[sample_block 5 4, sample_block 5 7]"
  have p: "\<forall>bo \<in> set ?bs. block_present bo" by simp
  obtain out where o: "SpineSortBlocks ?k ?bs = Ok out"
    "map (block_key ?k) out = sort_key order_key (remdups (map (block_key ?k) ?bs))"
    using SpineSortBlocks_order[of ?k ?bs] p by auto
  obtain x y where b: "block_key ?k (sample_block 5 4) = (4, 1, x)" "block_key ?k (sample_block 5 7) = (7, 1, y)"
    by (metis (no_types, lifting) length_replicate prod.exhaust_sel sample_block_key(1,2))
  have "map (block_key ?k) out = [(7, 1, y), (4, 1, x)]" using o(2) by (simp add: b order_key_def)
  then have "map fst (map (block_key ?k) out) = [7, 4]" by simp
  then show ?thesis using o(1) by auto
qed

section \<open>The spine of a slot\<close>

definition block_slot :: "'tx Block option \<Rightarrow> u64" where
  "block_slot bo = hd_Slot (the (b_header (the bo)))"

lemma GroupBySlot_spec:
  assumes "\<forall>bo \<in> set bs. block_present bo"
  shows "Blocks_GroupBySlot bs = Ok (group_by_key (map (\<lambda>bo. (block_slot bo, bo)) bs))"
proof -
  have "rmap (\<lambda>bo. case bo of None \<Rightarrow> Err (DagErr ErrNilBlock)
      | Some b \<Rightarrow> (case b_header b of None \<Rightarrow> Err (DagErr ErrNilHeader) | Some h \<Rightarrow> Ok (hd_Slot h, bo))) bs =
      Ok (map (\<lambda>bo. (block_slot bo, bo)) bs)"
    using assms by (intro rmap_Ok) (auto simp: block_present_def block_slot_def)
  then show ?thesis by (simp add: Blocks_GroupBySlot_def)
qed

definition slot_blocks :: "'tx Block option list \<Rightarrow> u64 \<Rightarrow> 'tx Block option list" where
  "slot_blocks bs slot = filter (\<lambda>bo. block_slot bo = slot) bs"

lemma group_slot:
  "lookup_or_empty (group_by_key (map (\<lambda>bo. (block_slot bo, bo)) bs)) slot = slot_blocks bs slot"
proof -
  have e: "items_at slot (map (\<lambda>bo. (block_slot bo, bo)) bs) = slot_blocks bs slot"
    by (simp add: items_at_def slot_blocks_def filter_map comp_def)
  show ?thesis
  proof (cases "slot_blocks bs slot = []")
    case True
    then have "slot \<notin> fst ` set (map (\<lambda>bo. (block_slot bo, bo)) bs)"
      by (auto simp: slot_blocks_def filter_empty_conv)
    then show ?thesis using True by (simp add: lookup_or_empty_def group_by_key_lookup)
  next
    case False
    then have "slot \<in> fst ` set (map (\<lambda>bo. (block_slot bo, bo)) bs)"
      by (force simp: slot_blocks_def filter_empty_conv)
    then show ?thesis by (simp add: lookup_or_empty_def group_by_key_lookup e)
  qed
qed

definition is_spine :: "(bytes \<Rightarrow> hash) \<Rightarrow> 'tx Block option list \<Rightarrow> u64 \<Rightarrow> 'tx Block option \<Rightarrow> bool" where
  "is_spine keccak bs slot bo \<longleftrightarrow> bo \<in> set (slot_blocks bs slot) \<and>
     (\<forall>b \<in> set (slot_blocks bs slot). order_key (block_key keccak bo) \<le> order_key (block_key keccak b))"

lemma SpineSort_first:
  assumes "\<forall>x. length (keccak x) = 32" "\<forall>bo \<in> set bs. block_present bo" "slot_blocks bs slot \<noteq> []"
  obtains bo rest where "SpineSortBlocks keccak (slot_blocks bs slot) = Ok (bo # rest)" "is_spine keccak bs slot bo"
proof -
  have p: "\<forall>bo \<in> set (slot_blocks bs slot). block_present bo" using assms(2) by (simp add: slot_blocks_def)
  obtain out where o: "SpineSortBlocks keccak (slot_blocks bs slot) = Ok out" "set out \<subseteq> set (slot_blocks bs slot)"
    "map (block_key keccak) out = sort_key order_key (remdups (map (block_key keccak) (slot_blocks bs slot)))"
    using SpineSortBlocks_spec[OF assms(1) p] by metis
  have "set (map (block_key keccak) out) = set (map (block_key keccak) (slot_blocks bs slot))" unfolding o(3) by simp
  then have "out \<noteq> []" using assms(3) by auto
  then obtain bo rest where out: "out = bo # rest" by (cases out) auto
  have h: "sort_key order_key (remdups (map (block_key keccak) (slot_blocks bs slot))) =
      block_key keccak bo # map (block_key keccak) rest" using o(3) out by simp
  have "order_key (block_key keccak bo) \<le> order_key (block_key keccak b)" if "b \<in> set (slot_blocks bs slot)" for b
    using sort_key_hd(2)[OF h] that by simp
  then show thesis using that o(1,2) out by (simp add: is_spine_def)
qed

lemma spines_loop_spec:
  assumes "\<forall>x. length (keccak x) = 32" "\<forall>bo \<in> set bs. block_present bo"
    and "\<forall>slot \<in> set slots. slot_blocks bs slot \<noteq> []" "distinct slots"
  shows "\<exists>out. spines_loop keccak (group_by_key (map (\<lambda>bo. (block_slot bo, bo)) bs)) slots spines = Ok out \<and>
    (\<forall>slot. slot \<notin> set slots \<longrightarrow> map_of out slot = map_of spines slot) \<and>
    (\<forall>slot \<in> set slots. \<exists>bo. map_of out slot = Some bo \<and> is_spine keccak bs slot bo)"
  using assms(3,4)
proof (induction slots arbitrary: spines)
  case (Cons s slots)
  obtain bo rest where b: "SpineSortBlocks keccak (slot_blocks bs s) = Ok (bo # rest)" "is_spine keccak bs s bo"
    using SpineSort_first[OF assms(1,2)] Cons.prems(1) by (metis list.set_intros(1))
  obtain out where "spines_loop keccak (group_by_key (map (\<lambda>bo. (block_slot bo, bo)) bs)) slots (AList.update s bo spines) = Ok out"
    "\<forall>slot. slot \<notin> set slots \<longrightarrow> map_of out slot = map_of (AList.update s bo spines) slot"
    "\<forall>slot \<in> set slots. \<exists>bo. map_of out slot = Some bo \<and> is_spine keccak bs slot bo"
    using Cons.IH[of "AList.update s bo spines"] Cons.prems by auto
  then show ?case using b Cons.prems(2) by (auto simp: group_slot update_conv')
qed simp

text \<open>C10. The spines computed from unfinalised blocks are exactly one block per slot above the last
  finalised slot that has blocks, and that block is the first of its slot in the agreed order:
  of maximal height, then most parents, then least hash.\<close>

theorem CalculateSpines_first:
  assumes "\<forall>x. length (keccak x) = 32" "\<forall>bo \<in> set bs. block_present bo"
  shows "\<exists>spines. CalculateSpines keccak bs lastFinSlot = Ok spines \<and>
    (\<forall>slot. case map_of spines slot of
        None \<Rightarrow> slot \<le> lastFinSlot \<or> slot_blocks bs slot = []
      | Some bo \<Rightarrow> slot > lastFinSlot \<and> is_spine keccak bs slot bo)"
proof -
  let ?g = "group_by_key (map (\<lambda>bo. (block_slot bo, bo)) bs)"
  let ?slots = "SorterAscU64 (filter (\<lambda>sl. sl > lastFinSlot) (map fst ?g))"
  have k: "fst ` set ?g = block_slot ` set bs" using group_by_key_keys[of "map (\<lambda>bo. (block_slot bo, bo)) bs"] by force
  have set: "slot \<in> set ?slots \<longleftrightarrow> slot > lastFinSlot \<and> slot_blocks bs slot \<noteq> []" for slot
    using k by (auto simp: SorterAscU64_def slot_blocks_def filter_empty_conv)
  have d: "distinct ?slots"
    by (simp only: SorterAscU64_def distinct_sort) (intro distinct_filter group_by_key_distinct)
  from spines_loop_spec[OF assms, of ?slots "[]"] set d
  obtain out where "spines_loop keccak ?g ?slots [] = Ok out"
    "\<forall>slot. slot \<notin> set ?slots \<longrightarrow> map_of out slot = None"
    "\<forall>slot \<in> set ?slots. \<exists>bo. map_of out slot = Some bo \<and> is_spine keccak bs slot bo" by auto
  note out = this
  have "case map_of out slot of None \<Rightarrow> slot \<le> lastFinSlot \<or> slot_blocks bs slot = []
      | Some bo \<Rightarrow> slot > lastFinSlot \<and> is_spine keccak bs slot bo" for slot
  proof (cases "slot \<in> set ?slots")
    case True
    then obtain bo where "map_of out slot = Some bo" "is_spine keccak bs slot bo" using out(3) by blast
    then show ?thesis using True set[of slot] by simp
  next
    case False
    then have "map_of out slot = None" using out(2) by blast
    then show ?thesis using False set[of slot] by auto
  qed
  then show ?thesis using out(1) by (simp add: CalculateSpines_def GroupBySlot_spec[OF assms(2)])
qed

theorem CalculateSpines_first_witness:
  "\<exists>spines bo. CalculateSpines (\<lambda>x. replicate 32 1) [sample_block 5 4, sample_block 5 7, sample_block 2 9] 2 = Ok spines \<and>
     map_of spines 5 = Some bo \<and> is_spine (\<lambda>x. replicate 32 1) [sample_block 5 4, sample_block 5 7, sample_block 2 9] 5 bo \<and>
     map_of spines 2 = None"
proof -
  let ?bs = "[sample_block 5 4, sample_block 5 7, sample_block 2 9]"
  have ne: "slot_blocks ?bs 5 \<noteq> []" by (simp add: slot_blocks_def block_slot_def sample_block_def)
  obtain spines where "CalculateSpines (\<lambda>x. replicate 32 1) ?bs 2 = Ok spines"
    "\<forall>slot. case map_of spines slot of None \<Rightarrow> slot \<le> 2 \<or> slot_blocks ?bs slot = []
      | Some bo \<Rightarrow> slot > 2 \<and> is_spine (\<lambda>x. replicate 32 1) ?bs slot bo"
    using CalculateSpines_first[of "\<lambda>x. replicate 32 1" ?bs 2] by auto
  note sp = ne this
  have "\<exists>bo. map_of spines 5 = Some bo \<and> is_spine (\<lambda>x. replicate 32 1) ?bs 5 bo" "map_of spines 2 = None"
    using sp(1) sp(3)[rule_format, of 5] sp(3)[rule_format, of 2] by (auto split: option.splits)
  then show ?thesis using sp(2) by blast
qed

section \<open>Optimistic candidates\<close>

lemma select_max_spec:
  assumes "\<forall>y \<in> set sel. f y = mx"
  shows "select_max f mx sel xs = filter (\<lambda>x. f x = fold (\<lambda>x m. max (f x) m) xs mx) (sel @ xs)"
  using assms
proof (induction f mx sel xs rule: select_max.induct)
  case (1 f mx sel)
  then show ?case by (simp add: filter_id_conv)
next
  case (2 f mx sel x xs)
  have ge: "m \<le> fold (\<lambda>x m. max (f x) m) ys m" for ys m
    by (induction ys arbitrary: m) (auto intro: order_trans[OF max.cobounded2])
  consider "f x < mx" | "f x > mx" | "f x = mx" by fastforce
  then show ?case
  proof cases
    case 1
    then have "f x \<noteq> fold (\<lambda>x m. max (f x) m) xs mx" using ge[of mx xs] by auto
    then show ?thesis using 1 "2.IH"(1) "2.prems" by (simp add: max.absorb2 less_imp_le)
  next
    case 2
    have "f y \<noteq> fold (\<lambda>x m. max (f x) m) xs (f x)" if "y \<in> set sel" for y
      using ge[of "f x" xs] 2 "2.prems" that by auto
    then have "filter (\<lambda>y. f y = fold (\<lambda>x m. max (f x) m) xs (f x)) sel = []"
      by (simp only: filter_empty_conv) blast
    then have e: "filter (\<lambda>y. f y = fold (\<lambda>x m. max (f x) m) xs (f x)) (sel @ x # xs) =
        filter (\<lambda>y. f y = fold (\<lambda>x m. max (f x) m) xs (f x)) ([x] @ xs)"
      by (simp only: filter_append append_Nil append_Cons)
    have m: "fold (\<lambda>x m. max (f x) m) (x # xs) mx = fold (\<lambda>x m. max (f x) m) xs (f x)"
      using 2 by (simp only: fold_simps max.absorb1 less_imp_le)
    have n: "\<not> f x < mx" using 2 by simp
    then have "select_max f mx sel (x # xs) = select_max f (f x) [x] xs" using 2 by simp
    also have "\<dots> = filter (\<lambda>y. f y = fold (\<lambda>x m. max (f x) m) xs (f x)) ([x] @ xs)"
      using "2.IH"(2)[OF n 2] by (simp only: list.set ball_simps simp_thms)
    finally show ?thesis unfolding m e .
  next
    case 3
    then show ?thesis using "2.IH"(3) "2.prems" by simp
  qed
qed

lemma fold_max_attained:
  fixes f :: "'a \<Rightarrow> u64"
  assumes "x \<in> set xs"
  shows "f x = fold (\<lambda>x m. max (f x) m) xs 0 \<longleftrightarrow> (\<forall>y \<in> set xs. f y \<le> f x)"
proof -
  have M: "fold (\<lambda>x m. max (f x) m) xs m = Max (insert m (f ` set xs))" for m
    using Max.set_eq_fold[of m "map f xs"] by (simp add: fold_map comp_def)
  have "Max (insert 0 (f ` set xs)) = f x \<longleftrightarrow> (\<forall>y \<in> set xs. f y \<le> f x)"
    using assms by (subst Max_eq_iff) auto
  then show ?thesis unfolding M by metis
qed

lemma select_max_filter:
  "select_max f 0 [] xs = filter (\<lambda>x. \<forall>y \<in> set xs. f y \<le> f x) xs"
proof -
  have "select_max f 0 [] xs = filter (\<lambda>x. f x = fold (\<lambda>x m. max (f x) m) xs 0) xs"
    using select_max_spec[of "[]" f 0 xs] by simp
  also have "\<dots> = filter (\<lambda>x. \<forall>y \<in> set xs. f y \<le> f x) xs"
    by (rule filter_cong[OF refl fold_max_attained])
  finally show ?thesis .
qed

definition header_rank :: "Header \<Rightarrow> int \<times> int" where
  "header_rank h = (- uint (hd_Height h), - uint (word_of_nat (length (hd_ParentHashes h)) :: u64))"

definition header_key :: "(bytes \<Rightarrow> hash) \<Rightarrow> Header \<Rightarrow> int \<times> int \<times> hash" where
  "header_key keccak h = (fst (header_rank h), snd (header_rank h), hhash keccak (Some h))"

definition best_headers :: "Header list \<Rightarrow> Header list" where
  "best_headers hs = filter (\<lambda>h. \<forall>y \<in> set hs. header_rank h \<le> header_rank y) hs"

lemma lexicographic_max:
  fixes f g :: "'a \<Rightarrow> int"
  assumes "x \<in> A"
  shows "(\<forall>y \<in> A. f y \<le> f x) \<and> (\<forall>y \<in> A. (\<forall>z \<in> A. f z \<le> f y) \<longrightarrow> g y \<le> g x) \<longleftrightarrow>
    (\<forall>y \<in> A. (- f x, - g x) \<le> (- f y, - g y))"
proof (intro iffI conjI ballI impI)
  fix y
  assume h: "(\<forall>y \<in> A. f y \<le> f x) \<and> (\<forall>y \<in> A. (\<forall>z \<in> A. f z \<le> f y) \<longrightarrow> g y \<le> g x)" and y: "y \<in> A"
  show "(- f x, - g x) \<le> (- f y, - g y)"
  proof (cases "f y = f x")
    case True
    then have "g y \<le> g x" using h y by metis
    then show ?thesis using True by simp
  next
    case False
    then have "f y < f x" using h y by force
    then show ?thesis by simp
  qed
next
  fix y
  assume h: "\<forall>y \<in> A. (- f x, - g x) \<le> (- f y, - g y)" and y: "y \<in> A"
  have le: "f y < f x \<or> f y = f x \<and> g y \<le> g x" using h y by (force simp: less_eq_prod_def)
  then show "f y \<le> f x" by auto
  assume "\<forall>z \<in> A. f z \<le> f y"
  then show "g y \<le> g x" using le assms by force
qed

lemma select_both: "selectSpinesByMaxParentsCount (selectSpinesByMaxHeight hs) = best_headers hs"
proof -
  have h: "selectSpinesByMaxHeight hs = filter (\<lambda>x. \<forall>y \<in> set hs. hd_Height y \<le> hd_Height x) hs"
    by (simp add: selectSpinesByMaxHeight_def select_max_filter)
  show ?thesis
    unfolding h selectSpinesByMaxParentsCount_def select_max_filter best_headers_def filter_filter
  proof (rule filter_cong[OF refl])
    fix x
    assume x: "x \<in> set hs"
    let ?p = "\<lambda>h. word_of_nat (length (hd_ParentHashes h)) :: u64"
    show "((\<forall>y \<in> set hs. hd_Height y \<le> hd_Height x) \<and>
        (\<forall>y \<in> set (filter (\<lambda>x. \<forall>y \<in> set hs. hd_Height y \<le> hd_Height x) hs). ?p y \<le> ?p x)) =
        (\<forall>y \<in> set hs. header_rank x \<le> header_rank y)"
      using lexicographic_max[OF x, of "\<lambda>h. uint (hd_Height h)" "\<lambda>h. uint (?p h)"]
      unfolding header_rank_def word_le_def set_filter by blast
  qed
qed

lemma selections_total:
  "length s1 > 1 \<or> selectSpinesByMaxParentsCount s1 = s1" "length s2 > 1 \<or> sortByHash keccak s2 = s2"
  by (cases s1; cases "tl s1"; simp add: selectSpinesByMaxParentsCount_def word_less_nat_alt)
    (cases s2; cases "tl s2"; simp add: sortByHash_def)

lemma CalculateOptimisticSpines_best:
  "CalculateOptimisticSpines keccak hs = sort (map (\<lambda>h. hhash keccak (Some h)) (best_headers hs))"
proof -
  have a: "(if length s > 1 then selectSpinesByMaxParentsCount s else s) = selectSpinesByMaxParentsCount s" for s
    using selections_total(1)[of s] by auto
  have b: "(if length s > 1 then sortByHash keccak s else s) = sortByHash keccak s" for s
    using selections_total(2)[of s keccak] by auto
  show ?thesis
    unfolding CalculateOptimisticSpines_def Let_def a b select_both unfolding sortByHash_def by (rule map_sort_key)
qed

definition put_all :: "(u64 \<times> u64 \<times> hash) list \<Rightarrow> (u64 \<times> (u64 \<times> hash list) list) list" where
  "put_all items = foldl (\<lambda>m (h, p, x). put_hash h p x m) [] items"

lemma items_at_snoc: "items_at k (xs @ [(k', v)]) = items_at k xs @ (if k = k' then [v] else [])"
  by (simp add: items_at_def)

lemma lookup_append_at:
  "lookup_or_empty (append_at k v m) k' = lookup_or_empty m k' @ (if k' = k then [v] else [])"
  by (simp add: lookup_or_empty_def append_at_def update_conv')

lemma append_at_keys: "fst ` set (append_at k v m) = insert k (fst ` set m)"
  by (simp add: append_at_def dom_update)

lemma distinct_append_at: "distinct (map fst m) \<Longrightarrow> distinct (map fst (append_at k v m))"
  by (simp add: append_at_def distinct_update)

lemma put_all_lookup:
  "lookup_or_empty (lookup_or_empty (put_all items) h) p = items_at p (items_at h items)"
  "fst ` set (lookup_or_empty (put_all items) h) = fst ` set (items_at h items)"
  "distinct (map fst (lookup_or_empty (put_all items) h))"
  "fst ` set (put_all items) = fst ` set items" "distinct (map fst (put_all items))"
proof (induction items rule: rev_induct)
  case Nil
  case 1 show ?case by (simp add: put_all_def lookup_or_empty_def items_at_def)
  case 2 show ?case by (simp add: put_all_def lookup_or_empty_def items_at_def)
  case 3 show ?case by (simp add: put_all_def lookup_or_empty_def)
  case 4 show ?case by (simp add: put_all_def)
  case 5 show ?case by (simp add: put_all_def)
next
  case (snoc i items)
  obtain h' p' x where i: "i = (h', p', x)" by (cases i)
  have p: "put_all (items @ [(h', p', x)]) = put_hash h' p' x (put_all items)" by (simp add: put_all_def)
  have l: "lookup_or_empty (put_hash h' p' x (put_all items)) k =
      (if k = h' then append_at p' x (lookup_or_empty (put_all items) k) else lookup_or_empty (put_all items) k)" for k
    by (simp add: put_hash_def lookup_or_empty_update)
  case 1 show ?case using snoc(1) by (cases "h = h'") (auto simp: i p l lookup_append_at items_at_snoc)
  case 2 show ?case using snoc(2) by (cases "h = h'") (auto simp: i p l append_at_keys items_at_snoc)
  case 3 show ?case using snoc(3) by (cases "h = h'") (auto simp: i p l distinct_append_at)
  case 4 show ?case using snoc(4) by (simp add: i p put_hash_def dom_update)
  case 5 show ?case using snoc(5) by (simp add: i p put_hash_def distinct_update)
qed

definition neg_fst :: "u64 \<times> hash \<Rightarrow> int \<times> hash" where
  "neg_fst = (\<lambda>(p, x). (- uint p, x))"

lemma plen_hashes_sorted:
  assumes "distinct (map fst pm)" "fst ` set pm = fst ` set inner" "\<And>p. lookup_or_empty pm p = items_at p inner"
  shows "plen_hashes pm = map snd (sort (map neg_fst inner))"
proof -
  let ?ks = "SorterDescU64 (map fst pm)"
  have "plen_hashes pm = concat (map (\<lambda>p. sort (items_at p inner)) ?ks)"
    by (simp add: plen_hashes_def foldl_append assms(3))
  also have "\<dots> = map snd (concat (map (\<lambda>k. map (Pair k) (sort (items_at k inner))) ?ks))"
    by (simp add: map_concat comp_def)
  also have "concat (map (\<lambda>k. map (Pair k) (sort (items_at k inner))) ?ks) = sort_key neg_fst inner"
    unfolding neg_fst_def
  proof (rule sorted_groups)
    show "distinct ?ks" using assms(1) by (simp add: SorterDescU64_def)
    show "set ?ks = fst ` set inner" using assms(2) by simp
    show "sorted_wrt (\<lambda>a b. - uint a < - uint b) ?ks" by (rule SorterDescU64_strict[OF assms(1)])
  qed
  also have "map snd (sort_key neg_fst inner) = map snd (map neg_fst (sort_key neg_fst inner))" by (simp add: neg_fst_def case_prod_unfold)
  finally show ?thesis unfolding map_sort_key .
qed

lemma items_at_map: "items_at k (map (\<lambda>(a, b). (a, f b)) items) = map f (items_at k items)"
  by (simp add: items_at_def filter_map comp_def case_prod_unfold)

lemma OptimisticSort_spec:
  "OptimisticSortSlotHeaders keccak hs = map (snd \<circ> snd) (sort (map (header_key keccak) hs))"
proof -
  let ?items = "map (\<lambda>bl. (hd_Height bl, word_of_nat (length (hd_ParentHashes bl)) :: u64, hhash keccak (Some bl))) hs"
  let ?neg = "map (\<lambda>(a, b). (a, neg_fst b)) ?items"
  let ?ks = "SorterDescU64 (map fst (put_all ?items))"
  have m: "foldl (\<lambda>m bl. put_hash (hd_Height bl) (word_of_nat (length (hd_ParentHashes bl))) (hhash keccak (Some bl)) m) [] hs =
      put_all ?items" by (simp add: put_all_def foldl_map)
  have ph: "plen_hashes (lookup_or_empty (put_all ?items) h) = map snd (sort (items_at h ?neg))" for h
    unfolding items_at_map by (rule plen_hashes_sorted[OF put_all_lookup(3,2,1)])
  have "OptimisticSortSlotHeaders keccak hs = concat (map (\<lambda>h. map snd (sort (items_at h ?neg))) ?ks)"
    by (simp only: OptimisticSortSlotHeaders_def m Let_def foldl_append ph append_Nil)
  also have "\<dots> = map (snd \<circ> snd) (concat (map (\<lambda>h. map (Pair h) (sort (items_at h ?neg))) ?ks))"
    by (simp add: map_concat comp_def)
  also have "concat (map (\<lambda>h. map (Pair h) (sort (items_at h ?neg))) ?ks) = sort_key (\<lambda>(k, v). (- uint k, v)) ?neg"
  proof (rule sorted_groups)
    show "distinct ?ks" using put_all_lookup(5) by (simp add: SorterDescU64_def)
    show "set ?ks = fst ` set ?neg" using put_all_lookup(4)[of ?items] by (simp add: image_image case_prod_unfold)
    show "sorted_wrt (\<lambda>a b. - uint a < - uint b) ?ks" by (rule SorterDescU64_strict[OF put_all_lookup(5)])
  qed
  also have "map (snd \<circ> snd) (sort_key (\<lambda>(k, v). (- uint k, v)) ?neg) =
      map (snd \<circ> snd) (map (\<lambda>(k, v). (- uint k, v)) (sort_key (\<lambda>(k, v). (- uint k, v)) ?neg))"
    by (simp add: case_prod_unfold)
  also have "\<dots> = map (snd \<circ> snd) (sort (map (\<lambda>(k, v). (- uint k, v)) ?neg))" unfolding map_sort_key ..
  also have "map (\<lambda>(k, v). (- uint k, v)) ?neg = map (header_key keccak) hs"
    by (simp add: header_key_def header_rank_def neg_fst_def comp_def)
  finally show ?thesis .
qed

text \<open>C37. The optimistic candidates of a slot are exactly the headers of maximal height and, among
  these, of maximal parent count, in hash order; they are the first entries of the optimistic
  order of the slot, which sorts all its headers by height, parent count and hash.\<close>

theorem optimistic_candidates_first:
  "OptimisticSortSlotHeaders keccak hs = map (snd \<circ> snd) (sort (map (header_key keccak) hs)) \<and>
   CalculateOptimisticSpines keccak hs = sort (map (\<lambda>h. hhash keccak (Some h)) (best_headers hs)) \<and>
   (\<exists>rest. OptimisticSortSlotHeaders keccak hs = CalculateOptimisticSpines keccak hs @ rest)"
proof (intro conjI)
  let ?k = "header_key keccak" and ?worse = "filter (\<lambda>h. \<not> (\<forall>y \<in> set hs. header_rank h \<le> header_rank y)) hs"
  have "map (snd \<circ> snd) (sort (map ?k (best_headers hs))) = sort (map (snd \<circ> snd) (map ?k (best_headers hs)))"
  proof (rule properties_for_sort[symmetric])
    have "x \<le> y \<Longrightarrow> x \<in> ?k ` set (best_headers hs) \<Longrightarrow> y \<in> ?k ` set (best_headers hs) \<Longrightarrow> snd (snd x) \<le> snd (snd y)" for x y
      by (auto simp: best_headers_def header_key_def less_eq_prod_def)
    then have "sorted_wrt (\<lambda>x y. snd (snd x) \<le> snd (snd y)) (sort (map ?k (best_headers hs)))"
      by (intro sorted_wrt_mono_rel[OF _ sorted_sort]) auto
    then show "sorted (map (snd \<circ> snd) (sort (map ?k (best_headers hs))))" by (simp add: sorted_map)
  qed (simp add: multiset.map_comp)
  then have b: "CalculateOptimisticSpines keccak hs = map (snd \<circ> snd) (sort (map ?k (best_headers hs)))"
    by (simp add: CalculateOptimisticSpines_best comp_def header_key_def)
  have "sort (map ?k hs) = sort (map ?k (best_headers hs)) @ sort (map ?k ?worse)"
  proof (rule properties_for_sort)
    show "mset (sort (map ?k (best_headers hs)) @ sort (map ?k ?worse)) = mset (map ?k hs)"
      by (simp add: best_headers_def image_mset_union[symmetric] del: image_mset_union)
    have "?k a \<le> ?k b" if "a \<in> set (best_headers hs)" "b \<in> set ?worse" for a b
    proof -
      have "header_rank a \<le> header_rank b" "header_rank a \<noteq> header_rank b" using that by (auto simp: best_headers_def)
      then show ?thesis by (auto simp: header_key_def less_eq_prod_def prod_eq_iff)
    qed
    then show "sorted (sort (map ?k (best_headers hs)) @ sort (map ?k ?worse))" by (auto simp: sorted_append)
  qed
  then show "\<exists>rest. OptimisticSortSlotHeaders keccak hs = CalculateOptimisticSpines keccak hs @ rest"
    by (simp add: OptimisticSort_spec b)
qed (rule OptimisticSort_spec CalculateOptimisticSpines_best)+

section \<open>Block maps\<close>

lemma CopyHeader_id [simp]: "CopyHeader ho = ho"
  by (auto simp: CopyHeader_def Header_Nr_def go_copy_def Let_def split: option.splits)

text \<open>The maps that \<^verbatim>\<open>Add\<close> builds: every block is under its own hash.\<close>

definition block_map_ok :: "(bytes \<Rightarrow> hash) \<Rightarrow> 'tx block_map \<Rightarrow> bool" where
  "block_map_ok keccak bm \<longleftrightarrow>
     distinct (map fst bm) \<and> (\<forall>(k, bo) \<in> set bm. \<exists>b. bo = Some b \<and> k = hhash keccak (b_header b))"

lemma block_map_ok_Add:
  assumes "block_map_ok keccak bm"
  shows "block_map_ok keccak (BlockMap_Add keccak bm block)"
proof (cases block)
  case (Some b)
  have "set (AList.update k v bm) \<subseteq> insert (k, v) (set bm)" for k and v :: "'a Block option"
    by (induction bm) auto
  note sub = this[of "hhash keccak (b_header b)" "Some b"]
  have "(\<exists>c. bo = Some c \<and> k = hhash keccak (b_header c))" if "(k, bo) \<in> set (BlockMap_Add keccak bm block)" for k bo
  proof -
    have "(k, bo) = (hhash keccak (b_header b), Some b) \<or> (k, bo) \<in> set bm"
      using sub that by (auto simp: BlockMap_Add_def Some)
    then show ?thesis using assms by (auto simp: block_map_ok_def)
  qed
  moreover have "distinct (map fst (BlockMap_Add keccak bm block))"
    using assms distinct_update[of bm] by (simp add: block_map_ok_def BlockMap_Add_def Some)
  ultimately show ?thesis unfolding block_map_ok_def by blast
qed (use assms in \<open>simp add: BlockMap_Add_def\<close>)

lemma BlockMap_reads:
  assumes "block_map_ok keccak bm"
  shows "BlockMap_Hashes keccak bm = Ok (map fst bm)"
    "BlockMap_Headers keccak bm = Ok (map (\<lambda>(k, bo). (k, b_header (the bo))) bm)"
proof -
  have f: "map (\<lambda>bo. hhash keccak (b_header (the bo))) (map snd bm) = map fst bm"
    using assms by (auto simp: block_map_ok_def)
  have "rmap (blk_Hash keccak) (map snd bm) = Ok (map (\<lambda>bo. hhash keccak (b_header (the bo))) (map snd bm))"
    by (rule rmap_Ok) (use assms in \<open>auto simp: block_map_ok_def blk_Hash_def\<close>)
  then show "BlockMap_Hashes keccak bm = Ok (map fst bm)" unfolding BlockMap_Hashes_def f .
  let ?items = "map (\<lambda>bo. (hhash keccak (b_header (the bo)), b_header (the bo))) (map snd bm)"
  have "rmap (\<lambda>block. rbind (blk_Hash keccak block) (\<lambda>hash. rbind (blk_Header block) (\<lambda>h. Ok (hash, h)))) (map snd bm) =
      Ok ?items"
    by (rule rmap_Ok) (use assms in \<open>auto simp: block_map_ok_def blk_Hash_def blk_Header_def\<close>)
  moreover have i: "?items = map (\<lambda>(k, bo). (k, b_header (the bo))) bm"
    using assms by (auto simp: block_map_ok_def)
  moreover have "map fst (map (\<lambda>(k, bo). (k, b_header (the bo))) bm) = map fst bm" by auto
  then have "foldl (\<lambda>m (k, v). AList.update k v m) [] (map (\<lambda>(k, bo). (k, b_header (the bo))) bm) =
      map (\<lambda>(k, bo). (k, b_header (the bo))) bm"
    using assms foldl_update_distinct[of "[]" "map (\<lambda>(k, bo). (k, b_header (the bo))) bm"]
    unfolding block_map_ok_def append_Nil by argo
  ultimately show "BlockMap_Headers keccak bm = Ok (map (\<lambda>(k, bo). (k, b_header (the bo))) bm)"
    unfolding BlockMap_Headers_def by (simp only: rbind_simps)
qed

definition hashed_blocks :: "(bytes \<Rightarrow> hash) \<Rightarrow> 'tx Block option list \<Rightarrow> (hash \<times> 'tx Block option) list" where
  "hashed_blocks keccak blocks =
     map (\<lambda>bo. (hhash keccak (b_header (the bo)), bo)) (filter (\<lambda>bo. bo \<noteq> None) blocks)"

lemma BlockMap_Add_all:
  "block_map_ok keccak (foldl (BlockMap_Add keccak) [] blocks) \<and>
   map_of (foldl (BlockMap_Add keccak) [] blocks) = map_of (rev (hashed_blocks keccak blocks))"
proof (induction blocks rule: rev_induct)
  case Nil
  then show ?case by (simp add: block_map_ok_def hashed_blocks_def)
next
  case (snoc bo blocks)
  let ?bm = "foldl (BlockMap_Add keccak) [] blocks"
  have "block_map_ok keccak (BlockMap_Add keccak ?bm bo)" using snoc block_map_ok_Add by blast
  moreover have "map_of (BlockMap_Add keccak ?bm bo) = map_of (rev (hashed_blocks keccak (blocks @ [bo])))"
    using snoc by (cases bo) (simp_all add: hashed_blocks_def BlockMap_Add_def[of _ ?bm] update_conv')
  ultimately show ?case by simp
qed

text \<open>C40. A map of blocks built by adding them one after the other holds, under every hash, the last
  added block with that hash, whatever missing blocks were passed; its hashes and headers are
  those of the blocks, and its finalising order is the order by height and then by hash.\<close>

theorem block_map_laws:
  assumes "\<forall>b. length (keccak b) = 32" "\<forall>b. Some b \<in> set blocks \<longrightarrow> b_header b \<noteq> None"
    and "bm = foldl (BlockMap_Add keccak) [] blocks"
  shows "map_of bm = map_of (rev (hashed_blocks keccak blocks)) \<and> distinct (map fst bm) \<and>
    BlockMap_Hashes keccak bm = Ok (map fst bm) \<and>
    BlockMap_Headers keccak bm = Ok (map (\<lambda>(k, bo). (k, b_header (the bo))) bm) \<and>
    BlockMap_FinalizingSort keccak bm =
      Ok (map snd (sort_key (\<lambda>(ht, h). (uint ht, h)) (map (\<lambda>(k, bo). (hd_Height (the (b_header (the bo))), k)) bm)))"
proof -
  have ok: "block_map_ok keccak bm" "map_of bm = map_of (rev (hashed_blocks keccak blocks))"
    using BlockMap_Add_all[of keccak blocks] assms(3) by simp_all
  let ?hm = "map (\<lambda>(k, bo). (k, b_header (the bo))) bm"
  have in_blocks: "bo \<in> set blocks \<and> bo \<noteq> None" if "(k, bo) \<in> set bm" for k bo
  proof -
    have "map_of bm k = Some bo" using that ok(1) by (simp add: block_map_ok_def)
    then have "(k, bo) \<in> set (rev (hashed_blocks keccak blocks))" unfolding ok(2) by (rule map_of_SomeD)
    then show ?thesis by (auto simp: hashed_blocks_def)
  qed
  have "\<forall>(k, h) \<in> set ?hm. h \<noteq> None"
    using assms(2) in_blocks by fastforce
  note s = FinalizingSort_spec[OF assms(1) this]
  have "map (\<lambda>(k, h). (hd_Height (the h), hhash keccak h)) ?hm = map (\<lambda>(k, bo). (hd_Height (the (b_header (the bo))), k)) bm"
    using ok(1) by (auto simp: block_map_ok_def)
  then have "BlockMap_FinalizingSort keccak bm =
      Ok (map snd (sort_key (\<lambda>(ht, h). (uint ht, h)) (map (\<lambda>(k, bo). (hd_Height (the (b_header (the bo))), k)) bm)))"
    unfolding BlockMap_FinalizingSort_def BlockMap_reads(2)[OF ok(1)] rbind_simps s by (simp only:)
  then show ?thesis using ok BlockMap_reads[OF ok(1)] by (simp add: block_map_ok_def)
qed

definition mapped_block :: "unit Block" where
  "mapped_block = \<lparr>b_header = Some sample_header, b_transactions = []\<rparr>"

theorem block_map_laws_witness:
  "BlockMap_FinalizingSort BytesToHash (foldl (BlockMap_Add BytesToHash) [] [Some mapped_block, None, Some mapped_block]) =
     Ok [hhash BytesToHash (Some sample_header)] \<and>
   map_of (foldl (BlockMap_Add BytesToHash) [] [Some mapped_block, None, Some mapped_block])
     (hhash BytesToHash (Some sample_header)) = Some (Some mapped_block)"
proof -
  let ?blocks = "[Some mapped_block, None, Some mapped_block]"
  have "foldl (BlockMap_Add BytesToHash) [] ?blocks = [(hhash BytesToHash (Some sample_header), Some mapped_block)]"
    by (simp add: BlockMap_Add_def mapped_block_def)
  then show ?thesis
    using block_map_laws[of BytesToHash ?blocks "foldl (BlockMap_Add BytesToHash) [] ?blocks"]
    by (simp add: mapped_block_def hashed_blocks_def)
qed

end
