(* ===== verification/Dag_Chain.thy ===== *)
theory Dag_Chain
  imports Spine
begin

text \<open>
  The chain that a spine finalises (\<^verbatim>\<open>SpineGetDagChain\<close> of \<^verbatim>\<open>src/core/types/spine.go\<close>): a depth-first
  search over unfinalised ancestors with a set of visited hashes, then a sort by slot. The
  blocks come from the chain through \<^verbatim>\<open>GetBlock\<close> of \<^verbatim>\<open>src/core/blockchain_reader.go\<close>; its caches
  only repeat what the database holds, so a chain is the function that reads a stored block and
  the one that reads a finalised number. The search is bounded by fuel, and is shown to need no
  more than the number of unfinalised ancestors plus one.
\<close>

section \<open>The code\<close>

record 'tx chain =
  ch_ReadBlock :: "hash \<Rightarrow> 'tx Block option"
  ch_FinalizedNumber :: "hash \<Rightarrow> u64 option"

definition Block_SetNumber :: "'tx Block \<Rightarrow> u64 option \<Rightarrow> 'tx Block" where
  "Block_SetNumber b nr = b\<lparr>b_header := map_option (\<lambda>h. h\<lparr>hd_Number := nr\<rparr>) (b_header b)\<rparr>"

definition bc_GetBlock :: "'tx chain \<Rightarrow> hash \<Rightarrow> 'tx Block option" where
  "bc_GetBlock bc hash =
     (let finNr = ch_FinalizedNumber bc hash in
      case ch_ReadBlock bc hash of None \<Rightarrow> None | Some block \<Rightarrow> Some (Block_SetNumber block finNr))"

definition bc_GetBlocksByHashes :: "'tx chain \<Rightarrow> hash list \<Rightarrow> (hash \<times> 'tx Block option) list" where
  "bc_GetBlocksByHashes bc hashes = foldl (\<lambda>blocks h. AList.update h (bc_GetBlock bc h) blocks) [] hashes"

text \<open>Sequencing of calls that may run out of fuel.\<close>

definition obind :: "'a res option \<Rightarrow> ('a \<Rightarrow> 'b res option) \<Rightarrow> 'b res option" where
  "obind m f =
     (case m of None \<Rightarrow> None | Some (Ok a) \<Rightarrow> f a | Some (Err e) \<Rightarrow> Some (Err e) | Some Panic \<Rightarrow> Some Panic)"

type_synonym 'tx search = "(hash list \<times> 'tx Block option list) res option"

text \<open>The loop over the sorted parents; \<open>calc\<close> is \<^verbatim>\<open>spineCalculateChain\<close>, which returns the new
  part of the chain. \<open>cands\<close> holds the keys of \<^verbatim>\<open>candidatesInChain\<close>.\<close>

primrec parents_loop :: "(bytes \<Rightarrow> hash) \<Rightarrow> 'tx chain \<Rightarrow> ('tx Block option \<Rightarrow> hash list \<Rightarrow> 'tx search) \<Rightarrow>
    'tx Block option list \<Rightarrow> hash list \<Rightarrow> 'tx Block option list \<Rightarrow> 'tx search" where
  "parents_loop keccak bc calc [] cands chain = Some (Ok (cands, chain))"
| "parents_loop keccak bc calc (parent # ps) cands chain =
     obind (Some (blk_Hash keccak parent)) (\<lambda>h.
     if h \<notin> set cands \<and> ch_FinalizedNumber bc h = None then
       obind (calc parent cands) (\<lambda>(cands, chainPart).
       parents_loop keccak bc calc ps (h # cands) (chain @ chainPart))
     else parents_loop keccak bc calc ps cands chain)"

primrec spineProcessBlock :: "(bytes \<Rightarrow> hash) \<Rightarrow> 'tx chain \<Rightarrow> nat \<Rightarrow> 'tx Block option \<Rightarrow> hash list \<Rightarrow>
    'tx Block option list \<Rightarrow> 'tx search" where
  "spineProcessBlock keccak bc 0 block cands chain = None"
| "spineProcessBlock keccak bc (Suc fuel) block cands chain =
     obind (Some (blk_Hash keccak block)) (\<lambda>h.
     obind (Some (if h \<in> set cands then Ok True else rbind (blk_header block) (\<lambda>hd. Ok (hd_Number hd \<noteq> None)))) (\<lambda>done.
     if done then Some (Ok (cands, chain))
     else
       obind (Some (blk_header block)) (\<lambda>hd.
       let parentsMap = bc_GetBlocksByHashes bc (hd_ParentHashes hd) in
       if list_ex (\<lambda>(k, b). b = None) parentsMap then Some (Err (DagErr ErrBlockNotFound))
       else
         obind (Some (SpineSortBlocks keccak (map snd parentsMap))) (\<lambda>sortedParents.
         obind (parents_loop keccak bc
                  (\<lambda>parent cands. obind (Some (blk_header parent)) (\<lambda>_.
                     spineProcessBlock keccak bc fuel parent cands []))
                  sortedParents (h # cands) chain) (\<lambda>(cands, chain).
         Some (Ok (cands, chain @ [block])))))))"

definition order_by_slot :: "(bytes \<Rightarrow> hash) \<Rightarrow> 'tx Block option list \<Rightarrow> 'tx Block option list res" where
  "order_by_slot keccak dagBlocks =
     rbind (Blocks_GroupBySlot dagBlocks) (\<lambda>blocksBySlot.
     rbind (rmap (\<lambda>slot. SpineSortBlocks keccak (lookup_or_empty blocksBySlot slot))
              (SorterAscU64 (map fst blocksBySlot))) (\<lambda>parts.
     Ok (foldl (@) [] parts)))"

definition SpineGetDagChain :: "(bytes \<Rightarrow> hash) \<Rightarrow> 'tx chain \<Rightarrow> nat \<Rightarrow> 'tx Block option \<Rightarrow>
    'tx Block option list res option" where
  "SpineGetDagChain keccak bc fuel spine =
     obind (spineProcessBlock keccak bc fuel spine [] []) (\<lambda>(cands, dagBlocks).
     Some (rbind (order_by_slot keccak dagBlocks) (\<lambda>orderedBlocks.
       if orderedBlocks \<noteq> [] then
         rbind (blk_Hash keccak (last orderedBlocks)) (\<lambda>lh.
         rbind (blk_Hash keccak spine) (\<lambda>sh.
         if lh \<noteq> sh then Err (DagErr ErrBadSequence) else Ok orderedBlocks))
       else Ok orderedBlocks)))"

section \<open>Ancestors\<close>

definition parents_of :: "'tx chain \<Rightarrow> hash \<Rightarrow> hash list" where
  "parents_of bc h =
     (case ch_ReadBlock bc h of None \<Rightarrow> []
      | Some b \<Rightarrow> (case b_header b of None \<Rightarrow> [] | Some hh \<Rightarrow> hd_ParentHashes hh))"

definition slot_of :: "'tx chain \<Rightarrow> hash \<Rightarrow> u64" where
  "slot_of bc h =
     (case ch_ReadBlock bc h of None \<Rightarrow> 0
      | Some b \<Rightarrow> (case b_header b of None \<Rightarrow> 0 | Some hh \<Rightarrow> hd_Slot hh))"

inductive_set ancestors :: "'tx chain \<Rightarrow> hash \<Rightarrow> hash set" for bc s where
  self: "ch_FinalizedNumber bc s = None \<Longrightarrow> s \<in> ancestors bc s"
| parent: "h \<in> ancestors bc s \<Longrightarrow> p \<in> set (parents_of bc h) \<Longrightarrow> ch_FinalizedNumber bc p = None \<Longrightarrow>
    p \<in> ancestors bc s"

definition chain_ok :: "(bytes \<Rightarrow> hash) \<Rightarrow> 'tx chain \<Rightarrow> hash \<Rightarrow> bool" where
  "chain_ok keccak bc s \<longleftrightarrow>
     (\<forall>h b. ch_ReadBlock bc h = Some b \<longrightarrow> (\<exists>hh. b_header b = Some hh \<and> hhash keccak (Some hh) = h)) \<and>
     (\<forall>h \<in> ancestors bc s. ch_ReadBlock bc h \<noteq> None \<and> (\<forall>p \<in> set (parents_of bc h). ch_ReadBlock bc p \<noteq> None))"

lemma hhash_number: "hhash keccak (Some (h\<lparr>hd_Number := n\<rparr>)) = hhash keccak (Some h)"
proof -
  have "Header_Hash keccak (Some (h\<lparr>hd_Number := n\<rparr>)) = Header_Hash keccak (Some h)"
    by (simp add: Header_Hash_def Header_Copy_def rbind_assoc clearState_def rbind_def split: res.splits)
  then show ?thesis by (simp add: hhash_def)
qed

lemma obind_simps [simp]:
  "obind (Some (Ok a)) f = f a" "obind (Some (Err e)) f = Some (Err e)" "obind (Some Panic) f = Some Panic"
  by (simp_all add: obind_def)

lemma GetBlock_known:
  assumes "chain_ok keccak bc s" "ch_ReadBlock bc h \<noteq> None"
  obtains hh where "blk_header (bc_GetBlock bc h) = Ok hh" "blk_Hash keccak (bc_GetBlock bc h) = Ok h"
    "hd_Number hh = ch_FinalizedNumber bc h" "hd_ParentHashes hh = parents_of bc h" "hd_Slot hh = slot_of bc h"
    "block_present (bc_GetBlock bc h)" "snd (snd (block_key keccak (bc_GetBlock bc h))) = h"
    "block_slot (bc_GetBlock bc h) = slot_of bc h"
proof -
  obtain b where b: "ch_ReadBlock bc h = Some b" using assms(2) by auto
  obtain h0 where h0: "b_header b = Some h0" "hhash keccak (Some h0) = h"
    using assms(1) b unfolding chain_ok_def by blast
  have g: "bc_GetBlock bc h = Some (b\<lparr>b_header := Some (h0\<lparr>hd_Number := ch_FinalizedNumber bc h\<rparr>)\<rparr>)"
    using b h0(1) by (simp add: bc_GetBlock_def Block_SetNumber_def)
  show thesis
    by (rule that[of "h0\<lparr>hd_Number := ch_FinalizedNumber bc h\<rparr>"])
      (simp_all add: g blk_header_def blk_Hash_def hhash_number h0 parents_of_def slot_of_def b block_present_def
        block_key_def block_slot_def Let_def)
qed

lemma update_mapped:
  "\<exists>ks'. AList.update h (f h) (map (\<lambda>k. (k, f k)) ks) = map (\<lambda>k. (k, f k)) ks' \<and> set ks' = insert h (set ks)"
proof (induction ks)
  case Nil
  then show ?case by (intro exI[of _ "[h]"]) simp
next
  case (Cons k ks)
  then obtain ks' where "AList.update h (f h) (map (\<lambda>k. (k, f k)) ks) = map (\<lambda>k. (k, f k)) ks'" "set ks' = insert h (set ks)"
    by blast
  then show ?case by (cases "k = h") (auto intro: exI[of _ "k # ks"] exI[of _ "k # ks'"])
qed

lemma GetBlocks_mapped:
  "\<exists>ks. bc_GetBlocksByHashes bc hashes = map (\<lambda>h. (h, bc_GetBlock bc h)) ks \<and> set ks = set hashes"
proof (induction hashes rule: rev_induct)
  case (snoc h hashes)
  then obtain ks where "bc_GetBlocksByHashes bc hashes = map (\<lambda>h. (h, bc_GetBlock bc h)) ks" "set ks = set hashes" by blast
  then show ?case using update_mapped[of h "bc_GetBlock bc" ks] by (auto simp: bc_GetBlocksByHashes_def)
qed (simp add: bc_GetBlocksByHashes_def)

lemma sorted_parents:
  assumes "\<forall>x. length (keccak x) = 32" "chain_ok keccak bc s" "\<forall>h \<in> set ks. ch_ReadBlock bc h \<noteq> None"
  obtains ks' where "SpineSortBlocks keccak (map (bc_GetBlock bc) ks) = Ok (map (bc_GetBlock bc) ks')"
    "set ks' = set ks" "distinct ks'"
proof -
  let ?G = "bc_GetBlock bc" and ?h = "\<lambda>bo. snd (snd (block_key keccak bo))"
  have h: "?h (?G k) = k" "block_present (?G k)" if "k \<in> set ks" for k
    using GetBlock_known[OF assms(2)] assms(3) that by metis+
  obtain out where o: "SpineSortBlocks keccak (map ?G ks) = Ok out" "set out \<subseteq> set (map ?G ks)"
    "map (block_key keccak) out = sort_key order_key (remdups (map (block_key keccak) (map ?G ks)))"
  proof -
    have "\<forall>bo \<in> set (map ?G ks). block_present bo" using h(2) by simp
    then show ?thesis using SpineSortBlocks_spec[OF assms(1)] that by blast
  qed
  have out: "out = map ?G (map ?h out)" unfolding map_map by (rule map_idI[symmetric]) (use o(2) h(1) in auto)
  have "set (map (block_key keccak) out) = set (map (block_key keccak) (map ?G ks))" unfolding o(3) by simp
  then have "(snd \<circ> snd) ` set (map (block_key keccak) out) = (snd \<circ> snd) ` set (map (block_key keccak) (map ?G ks))" by simp
  then have "set (map ?h out) = ?h ` set (map ?G ks)" by (simp add: image_image comp_def)
  also have "\<dots> = set ks" using h(1) by (force simp: image_image)
  finally have "set (map ?h out) = set ks" .
  moreover have "distinct (map ?h out)"
  proof -
    have "distinct (map (block_key keccak) out)" unfolding o(3) by simp
    then have "distinct (map (block_key keccak) (map ?G (map ?h out)))" using out by simp
    then show ?thesis by (metis distinct_map)
  qed
  ultimately show thesis using that[of "map ?h out"] o(1) out by simp
qed

section \<open>The search\<close>

definition visits :: "'tx chain \<Rightarrow> hash \<Rightarrow> hash list \<Rightarrow> hash list \<Rightarrow> hash list \<Rightarrow> bool" where
  "visits bc s V V' hs \<longleftrightarrow> set V' = set V \<union> set hs \<and> distinct hs \<and> set hs \<inter> set V = {} \<and>
     set hs \<subseteq> ancestors bc s \<and>
     (\<forall>x \<in> set hs. \<forall>p \<in> set (parents_of bc x). ch_FinalizedNumber bc p = None \<longrightarrow> p \<in> set V')"

lemma visits_trans: "visits bc s V V1 a \<Longrightarrow> visits bc s V1 V2 b \<Longrightarrow> visits bc s V V2 (a @ b)"
  unfolding visits_def by auto

lemma visits_refl: "visits bc s V V []"
  by (simp add: visits_def)

lemma parents_loop_spec:
  assumes "chain_ok keccak bc s" "finite (ancestors bc s)"
    and "\<forall>k \<in> set ks. ch_ReadBlock bc k \<noteq> None \<and> (ch_FinalizedNumber bc k = None \<longrightarrow> k \<in> ancestors bc s)"
    and calc: "\<And>k V. k \<in> ancestors bc s \<Longrightarrow> k \<notin> set V \<Longrightarrow> card (ancestors bc s - set V) < n \<Longrightarrow>
      \<exists>V' hs. calc (bc_GetBlock bc k) V = Some (Ok (V', map (bc_GetBlock bc) hs)) \<and> visits bc s V V' hs \<and> k \<in> set hs"
    and "card (ancestors bc s - set V) < n"
  shows "\<exists>V' hs. parents_loop keccak bc calc (map (bc_GetBlock bc) ks) V chain =
      Some (Ok (V', chain @ map (bc_GetBlock bc) hs)) \<and> visits bc s V V' hs \<and>
      (\<forall>k \<in> set ks. ch_FinalizedNumber bc k = None \<longrightarrow> k \<in> set V')"
  using assms(3,5)
proof (induction ks arbitrary: V chain)
  case Nil
  then show ?case using visits_refl[of bc s V] by (intro exI[of _ V] exI[of _ "[]"]) simp
next
  case (Cons k ks)
  have bh: "blk_Hash keccak (bc_GetBlock bc k) = Ok k"
    using GetBlock_known[OF assms(1)] Cons.prems(1) by (metis list.set_intros(1))
  show ?case
  proof (cases "k \<notin> set V \<and> ch_FinalizedNumber bc k = None")
    case True
    obtain V1 a where a: "calc (bc_GetBlock bc k) V = Some (Ok (V1, map (bc_GetBlock bc) a))" "visits bc s V V1 a" "k \<in> set a"
      using calc[of k V] True Cons.prems by auto
    have v1: "visits bc s V (k # V1) a" using a(2,3) by (auto simp: visits_def)
    have "ancestors bc s - set (k # V1) \<subseteq> ancestors bc s - set V" using v1 by (auto simp: visits_def)
    then have "card (ancestors bc s - set (k # V1)) < n"
      using card_mono[of "ancestors bc s - set V"] assms(2) Cons.prems(2) by (meson finite_Diff le_less_trans)
    then obtain V2 b where "parents_loop keccak bc calc (map (bc_GetBlock bc) ks) (k # V1) (chain @ map (bc_GetBlock bc) a) =
        Some (Ok (V2, (chain @ map (bc_GetBlock bc) a) @ map (bc_GetBlock bc) b))" "visits bc s (k # V1) V2 b"
        "\<forall>k \<in> set ks. ch_FinalizedNumber bc k = None \<longrightarrow> k \<in> set V2"
      using Cons.IH[of "k # V1" "chain @ map (bc_GetBlock bc) a"] Cons.prems(1) by auto
    note b = this
    have "parents_loop keccak bc calc (map (bc_GetBlock bc) (k # ks)) V chain =
        Some (Ok (V2, chain @ map (bc_GetBlock bc) (a @ b)))"
      using b(1) a(1) bh True by simp
    moreover have "k \<in> set V2" using b(2) by (simp add: visits_def)
    ultimately show ?thesis using visits_trans[OF v1 b(2)] b(3)
      by (intro exI[of _ V2] exI[of _ "a @ b"]) (simp del: map_append)
  next
    case False
    obtain V2 b where b: "parents_loop keccak bc calc (map (bc_GetBlock bc) ks) V chain =
        Some (Ok (V2, chain @ map (bc_GetBlock bc) b))" "visits bc s V V2 b"
        "\<forall>k \<in> set ks. ch_FinalizedNumber bc k = None \<longrightarrow> k \<in> set V2"
      using Cons.IH[of V chain] Cons.prems by auto
    have "parents_loop keccak bc calc (map (bc_GetBlock bc) (k # ks)) V chain =
        Some (Ok (V2, chain @ map (bc_GetBlock bc) b))"
      using b(1) bh False by auto
    moreover have "ch_FinalizedNumber bc k = None \<longrightarrow> k \<in> set V2" using False b(2) by (auto simp: visits_def)
    ultimately show ?thesis using b(2,3) by (intro exI[of _ V2] exI[of _ b]) simp
  qed
qed

lemma spineProcessBlock_spec:
  assumes k: "\<forall>x. length (keccak x) = 32" and ok: "chain_ok keccak bc s" and fin: "finite (ancestors bc s)"
  shows "h \<in> ancestors bc s \<Longrightarrow> h \<notin> set V \<Longrightarrow> card (ancestors bc s - set V) < fuel \<Longrightarrow>
    \<exists>V' hs. spineProcessBlock keccak bc fuel (bc_GetBlock bc h) V chain =
      Some (Ok (V', chain @ map (bc_GetBlock bc) hs)) \<and> visits bc s V V' hs \<and> h \<in> set hs"
proof (induction fuel arbitrary: h V chain)
  case (Suc fuel)
  have rd: "ch_ReadBlock bc h \<noteq> None" "\<forall>p \<in> set (parents_of bc h). ch_ReadBlock bc p \<noteq> None"
    using Suc.prems(1) ok by (auto simp: chain_ok_def)
  have fh: "ch_FinalizedNumber bc h = None" using Suc.prems(1) by cases auto
  obtain hh where hh: "blk_header (bc_GetBlock bc h) = Ok hh" "blk_Hash keccak (bc_GetBlock bc h) = Ok h"
    "hd_Number hh = None" "hd_ParentHashes hh = parents_of bc h"
    using GetBlock_known[OF ok rd(1)] fh by metis
  obtain ks where ks: "bc_GetBlocksByHashes bc (parents_of bc h) = map (\<lambda>h. (h, bc_GetBlock bc h)) ks"
    "set ks = set (parents_of bc h)" using GetBlocks_mapped by blast
  have present: "bc_GetBlock bc p \<noteq> None" if "p \<in> set ks" for p
    using GetBlock_known[OF ok, of p] rd(2) ks(2) that by (metis block_present_def option.distinct(1))
  obtain ps where ps: "SpineSortBlocks keccak (map (bc_GetBlock bc) ks) = Ok (map (bc_GetBlock bc) ps)" "set ps = set ks"
    using sorted_parents[OF k ok, of ks] rd(2) ks(2) by metis
  let ?calc = "\<lambda>parent cands. obind (Some (blk_header parent)) (\<lambda>_. spineProcessBlock keccak bc fuel parent cands [])"
  have "card (ancestors bc s - set (h # V)) < card (ancestors bc s - set V)"
    using Suc.prems(1,2) fin by (intro psubset_card_mono) auto
  then have n: "card (ancestors bc s - set (h # V)) < fuel" using Suc.prems(3) by linarith
  have calc: "\<exists>V' hs. ?calc (bc_GetBlock bc p) W = Some (Ok (V', map (bc_GetBlock bc) hs)) \<and> visits bc s W V' hs \<and> p \<in> set hs"
    if "p \<in> ancestors bc s" "p \<notin> set W" "card (ancestors bc s - set W) < fuel" for p W
  proof -
    have "ch_ReadBlock bc p \<noteq> None" using that(1) ok by (auto simp: chain_ok_def)
    then obtain hp where "blk_header (bc_GetBlock bc p) = Ok hp" using GetBlock_known[OF ok] by metis
    then show ?thesis using Suc.IH[OF that, of "[]"] by simp
  qed
  have "\<forall>p \<in> set ps. ch_ReadBlock bc p \<noteq> None \<and> (ch_FinalizedNumber bc p = None \<longrightarrow> p \<in> ancestors bc s)"
    using rd(2) ks(2) ps(2) ancestors.parent[OF Suc.prems(1)] by auto
  from parents_loop_spec[OF ok fin this calc n]
  obtain V2 hs where l: "parents_loop keccak bc ?calc (map (bc_GetBlock bc) ps) (h # V) chain =
      Some (Ok (V2, chain @ map (bc_GetBlock bc) hs))" "visits bc s (h # V) V2 hs"
      "\<forall>p \<in> set ps. ch_FinalizedNumber bc p = None \<longrightarrow> p \<in> set V2" by blast
  have nn: "\<not> list_ex (\<lambda>(k, b). b = None) (map (\<lambda>h. (h, bc_GetBlock bc h)) ks)"
    using present by (auto simp: list_ex_iff)
  have "spineProcessBlock keccak bc (Suc fuel) (bc_GetBlock bc h) V chain =
      Some (Ok (V2, (chain @ map (bc_GetBlock bc) hs) @ [bc_GetBlock bc h]))"
    using hh Suc.prems(2) ks(1) nn ps(1) l(1) by (simp add: comp_def)
  moreover have "visits bc s V V2 (hs @ [h])"
    using l(2,3) ps(2) ks(2) Suc.prems(1,2) by (auto simp: visits_def)
  ultimately show ?case by (intro exI[of _ V2] exI[of _ "hs @ [h]"]) simp
qed simp

lemma search_all:
  assumes "visits bc s [] V hs" "s \<in> set hs"
  shows "set hs = ancestors bc s"
proof
  show "set hs \<subseteq> ancestors bc s" using assms(1) by (simp add: visits_def)
  show "ancestors bc s \<subseteq> set hs"
  proof
    fix h
    assume "h \<in> ancestors bc s"
    then show "h \<in> set hs"
    proof induction
      case (parent h p)
      then show ?case using assms(1) by (auto simp: visits_def)
    qed (rule assms(2))
  qed
qed

section \<open>The order of the chain\<close>

lemma sorted_wrt_distinct: "sorted_wrt (\<lambda>a b. P a b \<and> a \<noteq> b) xs \<Longrightarrow> distinct xs \<and> sorted_wrt P xs"
  by (induction xs) auto

lemma slot_sorted:
  assumes k: "\<forall>x. length (keccak x) = 32" and ok: "chain_ok keccak bc s"
    and known: "\<forall>h \<in> set hs. ch_ReadBlock bc h \<noteq> None"
  shows "\<exists>part. SpineSortBlocks keccak (slot_blocks (map (bc_GetBlock bc) hs) slot) = Ok (map (bc_GetBlock bc) part) \<and>
    set part = {h \<in> set hs. slot_of bc h = slot} \<and> distinct part"
proof -
  have "block_slot (bc_GetBlock bc h) = slot_of bc h" if "h \<in> set hs" for h
    by (rule GetBlock_known[OF ok, of h]) (use known that in auto)
  then have sb: "slot_blocks (map (bc_GetBlock bc) hs) slot = map (bc_GetBlock bc) (filter (\<lambda>h. slot_of bc h = slot) hs)"
    by (induction hs) (auto simp: slot_blocks_def)
  have "\<forall>h \<in> set (filter (\<lambda>h. slot_of bc h = slot) hs). ch_ReadBlock bc h \<noteq> None" using known by simp
  from sorted_parents[OF k ok this] obtain part where
    "SpineSortBlocks keccak (map (bc_GetBlock bc) (filter (\<lambda>h. slot_of bc h = slot) hs)) = Ok (map (bc_GetBlock bc) part)"
    "set part = set (filter (\<lambda>h. slot_of bc h = slot) hs)" "distinct part" .
  then show ?thesis unfolding sb by auto
qed

lemma order_by_slot_spec:
  assumes k: "\<forall>x. length (keccak x) = 32" and ok: "chain_ok keccak bc s"
    and known: "\<forall>h \<in> set hs. ch_ReadBlock bc h \<noteq> None"
  obtains out where "order_by_slot keccak (map (bc_GetBlock bc) hs) = Ok (map (bc_GetBlock bc) out)"
    "set out = set hs" "distinct out" "sorted_wrt (\<lambda>a b. slot_of bc a \<le> slot_of bc b) out"
proof -
  let ?G = "bc_GetBlock bc"
  let ?items = "map (\<lambda>bo. (block_slot bo, bo)) (map ?G hs)"
  let ?slots = "SorterAscU64 (map fst (group_by_key ?items))"
  have G: "block_slot (?G h) = slot_of bc h \<and> block_present (?G h)" if "h \<in> set hs" for h
    by (rule GetBlock_known[OF ok, of h]) (use known that in auto)
  from slot_sorted[OF assms] obtain part where
    part: "\<And>slot. SpineSortBlocks keccak (slot_blocks (map ?G hs) slot) = Ok (map ?G (part slot))"
    and parts: "\<And>slot. set (part slot) = {h \<in> set hs. slot_of bc h = slot}" "\<And>slot. distinct (part slot)"
    by metis
  have slots: "set ?slots = slot_of bc ` set hs"
    unfolding group_keys_sorted(2) using G by (auto simp: image_image)
  let ?out = "concat (map part ?slots)"
  have r: "rmap (\<lambda>slot. SpineSortBlocks keccak (lookup_or_empty (group_by_key ?items) slot)) ?slots =
      Ok (map (\<lambda>slot. map ?G (part slot)) ?slots)"
    by (rule rmap_Ok) (simp only: group_slot part)
  have g: "Blocks_GroupBySlot (map ?G hs) = Ok (group_by_key ?items)" using G by (intro GroupBySlot_spec) simp
  have f: "foldl (@) [] (map (\<lambda>slot. map ?G (part slot)) ks) = map ?G (concat (map part ks))" for ks
    by (induction ks rule: rev_induct) auto
  have o: "order_by_slot keccak (map ?G hs) = Ok (map ?G ?out)" unfolding order_by_slot_def g rbind_simps r f ..
  have "sorted_wrt (\<lambda>a b. slot_of bc a \<le> slot_of bc b \<and> a \<noteq> b) ?out"
  proof (rule sorted_wrt_concat)
    show "sorted_wrt (\<lambda>a b. uint a < uint b) ?slots" by (rule group_keys_sorted(3))
    show "sorted_wrt (\<lambda>a b. slot_of bc a \<le> slot_of bc b \<and> a \<noteq> b) (part slot)" for slot
    proof -
      have "\<forall>h \<in> set (part slot). slot_of bc h = slot" using parts(1) by simp
      then show ?thesis using parts(2)[of slot]
        by (auto simp: sorted_wrt_iff_nth_less nth_eq_iff_index_eq)
    qed
    show "slot_of bc a \<le> slot_of bc b \<and> a \<noteq> b"
      if "uint x < uint y" "a \<in> set (part x)" "b \<in> set (part y)" for x y a b
      using that unfolding parts(1) by (auto simp: word_le_def)
  qed
  note s = sorted_wrt_distinct[OF this]
  have "set ?out = set hs" using slots by (auto simp: parts(1))
  then show thesis using that[OF o] s by blast
qed

lemma ancestors_slot:
  assumes "\<forall>h \<in> ancestors bc s. \<forall>p \<in> set (parents_of bc h). slot_of bc p < slot_of bc h" "h \<in> ancestors bc s"
  shows "h = s \<or> slot_of bc h < slot_of bc s"
  using assms(2)
proof induction
  case (parent h p)
  then show ?case using assms(1) by (metis less_trans)
qed simp

lemma last_of_sorted:
  assumes "sorted_wrt (\<lambda>a b. (f a :: 'b :: linorder) \<le> f b) xs" "s \<in> set xs" "\<forall>x \<in> set xs. x = s \<or> f x < f s"
  shows "last xs = s"
proof (rule ccontr)
  assume n: "last xs \<noteq> s"
  have ne: "xs \<noteq> []" using assms(2) by auto
  then have "s \<in> set (butlast xs)" using n assms(2) by (metis append_butlast_last_id in_set_conv_decomp in_set_butlastD not_Cons_self2 rotate1.simps(2) set_ConsD set_rotate1)
  moreover have "sorted_wrt (\<lambda>a b. f a \<le> f b) (butlast xs @ [last xs])" using ne assms(1) by simp
  ultimately have "f s \<le> f (last xs)" by (auto simp: sorted_wrt_append)
  then show False using assms(3) n ne by (metis last_in_set leD)
qed

lemma sorted_precede:
  assumes "sorted_wrt (\<lambda>a b. (f a :: 'b :: linorder) \<le> f b) xs" "i < length xs" "j < length xs" "f (xs ! i) < f (xs ! j)"
  shows "i < j"
proof (rule ccontr)
  assume "\<not> i < j"
  then have "f (xs ! j) \<le> f (xs ! i)"
    using assms(1,2) sorted_wrt_nth_less[OF assms(1), of j i] by (cases "i = j") auto
  then show False using assms(4) by simp
qed

text \<open>C6. On a chain whose unfinalised ancestors of a spine are finitely many, are all stored under
  their hashes together with their parents, and have slots that grow from parent to child,
  \<^verbatim>\<open>SpineGetDagChain\<close> returns a sequence of blocks without error: with fuel above the number of these
  ancestors the search ends, the sequence holds every unfinalised ancestor exactly once and
  nothing else, is sorted by slot, has every parent before its children, and ends with the spine.\<close>

theorem SpineGetDagChain_complete:
  assumes "\<forall>x. length (keccak x) = 32" "chain_ok keccak bc s" "finite (ancestors bc s)"
    and "ch_FinalizedNumber bc s = None"
    and "\<forall>h \<in> ancestors bc s. \<forall>p \<in> set (parents_of bc h). slot_of bc p < slot_of bc h"
    and "card (ancestors bc s) < fuel"
  shows "\<exists>hs. SpineGetDagChain keccak bc fuel (bc_GetBlock bc s) = Some (Ok (map (bc_GetBlock bc) hs)) \<and>
    set hs = ancestors bc s \<and> distinct hs \<and> last hs = s \<and>
    sorted_wrt (\<lambda>a b. slot_of bc a \<le> slot_of bc b) hs \<and>
    (\<forall>i < length hs. \<forall>j < length hs. hs ! i \<in> set (parents_of bc (hs ! j)) \<longrightarrow> i < j)"
proof -
  have s: "s \<in> ancestors bc s" by (rule ancestors.self[OF assms(4)])
  obtain V hs where p: "spineProcessBlock keccak bc fuel (bc_GetBlock bc s) [] [] = Some (Ok (V, map (bc_GetBlock bc) hs))"
    and v: "visits bc s [] V hs" "s \<in> set hs"
    using spineProcessBlock_spec[OF assms(1-3) s, of "[]" fuel "[]"] assms(6) by auto
  have hs: "set hs = ancestors bc s" by (rule search_all[OF v])
  then have known: "\<forall>h \<in> set hs. ch_ReadBlock bc h \<noteq> None" using assms(2) by (auto simp: chain_ok_def)
  obtain out where o: "order_by_slot keccak (map (bc_GetBlock bc) hs) = Ok (map (bc_GetBlock bc) out)"
    "set out = set hs" "distinct out" "sorted_wrt (\<lambda>a b. slot_of bc a \<le> slot_of bc b) out"
    using order_by_slot_spec[OF assms(1,2) known] .
  have l: "last out = s"
    by (rule last_of_sorted[OF o(4)]) (use s hs o(2) ancestors_slot[OF assms(5)] in auto)
  have ne: "out \<noteq> []" using o(2) v(2) by auto
  have "ch_ReadBlock bc s \<noteq> None" using s assms(2) by (auto simp: chain_ok_def)
  then have sh: "blk_Hash keccak (bc_GetBlock bc s) = Ok s" by (rule GetBlock_known[OF assms(2)])
  have lm: "last (map (bc_GetBlock bc) out) = bc_GetBlock bc s" using l ne by (simp add: last_map)
  have "SpineGetDagChain keccak bc fuel (bc_GetBlock bc s) = Some (Ok (map (bc_GetBlock bc) out))"
    using p o(1) ne sh lm by (simp add: SpineGetDagChain_def)
  moreover have "i < j" if "i < length out" "j < length out" "out ! i \<in> set (parents_of bc (out ! j))" for i j
  proof (rule sorted_precede[OF o(4) that(1,2)])
    have "out ! j \<in> ancestors bc s" using that(2) o(2) hs by auto
    then show "slot_of bc (out ! i) < slot_of bc (out ! j)" using assms(5) that(3) by auto
  qed
  ultimately show ?thesis using o hs l by blast
qed

text \<open>Two blocks, one the parent of the other, under a hash function that tells them apart.\<close>

definition sample_parent :: Header where
  "sample_parent = sample_header\<lparr>hd_Slot := 2, hd_ParentHashes := []\<rparr>"

definition sample_hash :: "bytes \<Rightarrow> hash" where
  "sample_hash x = (if x = enc (header_item sample_parent) then replicate 32 1 else replicate 32 2)"

definition sample_chain :: "unit chain" where
  "sample_chain =
     \<lparr>ch_ReadBlock = (\<lambda>h.
        if h = replicate 32 1 then Some \<lparr>b_header = Some sample_parent, b_transactions = []\<rparr>
        else if h = replicate 32 2 then Some \<lparr>b_header = Some sample_header, b_transactions = []\<rparr>
        else None),
      ch_FinalizedNumber = (\<lambda>_. None)\<rparr>"

lemma sample_hashes:
  "hhash sample_hash (Some sample_parent) = replicate 32 1" "hhash sample_hash (Some sample_header) = replicate 32 2"
proof -
  have ok: "header_ok sample_parent" by (simp add: sample_parent_def header_ok_def sample_header_def nonneg_def)
  have l: "length (enc (header_item sample_parent)) < 2 ^ 64" "length (enc (header_item sample_header)) < 2 ^ 64"
    by (simp_all add: sample_parent_def header_item_def base_items_def sample_header_def signature_values_def bigval_def
        min_be_def nbytes.simps puthead_def putint_def Let_def)
  have "committed sample_parent \<noteq> committed sample_header"
    by (simp add: sample_parent_def committed_def sample_header_def clearSignature_def clearState_def signature_values_def)
  then have "enc (header_item sample_header) \<noteq> enc (header_item sample_parent)"
    using enc_inject[OF _ sample_header_fits(1)] header_item_inject[OF ok sample_header_ok(1)] by metis
  then show "hhash sample_hash (Some sample_parent) = replicate 32 1" "hhash sample_hash (Some sample_header) = replicate 32 2"
    using Header_encode_item[OF ok l(1)] Header_encode_item[OF sample_header_ok(1) l(2)]
    by (simp_all only: hhash_def Header_Hash_encode(1)[OF ok] Header_Hash_encode(1)[OF sample_header_ok(1)]
        rlpHash_def sample_hash_def res.case if_True if_False simp_thms)
qed

lemma sample_chain_parents [simp]:
  "parents_of sample_chain (replicate 32 1) = []"
  "parents_of sample_chain (replicate 32 2) = [replicate 32 1]"
  "slot_of sample_chain (replicate 32 1) = 2" "slot_of sample_chain (replicate 32 2) = 5"
  "ch_FinalizedNumber sample_chain h = None"
  by (simp_all add: parents_of_def slot_of_def sample_chain_def sample_parent_def sample_header_def)

lemma sample_ancestors: "ancestors sample_chain (replicate 32 2) = {replicate 32 1, replicate 32 2}"
proof
  show "ancestors sample_chain (replicate 32 2) \<subseteq> {replicate 32 1, replicate 32 2}"
  proof
    fix h
    assume "h \<in> ancestors sample_chain (replicate 32 2)"
    then show "h \<in> {replicate 32 1, replicate 32 2}" by induction auto
  qed
  have s: "replicate 32 2 \<in> ancestors sample_chain (replicate 32 2)" by (rule ancestors.self) simp
  then show "{replicate 32 1, replicate 32 2} \<subseteq> ancestors sample_chain (replicate 32 2)"
    using ancestors.parent[OF s, of "replicate 32 1"] by simp
qed

lemma sample_chain_ok: "chain_ok sample_hash sample_chain (replicate 32 2)"
proof -
  have r: "ch_ReadBlock sample_chain h = Some b \<longleftrightarrow>
      h = replicate 32 1 \<and> b = \<lparr>b_header = Some sample_parent, b_transactions = []\<rparr> \<or>
      h = replicate 32 2 \<and> b = \<lparr>b_header = Some sample_header, b_transactions = []\<rparr>" for h b
    by (auto simp: sample_chain_def)
  have n: "ch_ReadBlock sample_chain (replicate 32 1) \<noteq> None" "ch_ReadBlock sample_chain (replicate 32 2) \<noteq> None"
    by (simp_all add: sample_chain_def)
  show ?thesis unfolding chain_ok_def sample_ancestors r using n sample_hashes by auto
qed

theorem SpineGetDagChain_complete_witness:
  "SpineGetDagChain sample_hash sample_chain 3 (bc_GetBlock sample_chain (replicate 32 2)) =
     Some (Ok [bc_GetBlock sample_chain (replicate 32 1), bc_GetBlock sample_chain (replicate 32 2)])"
proof -
  let ?a = "replicate 32 1 :: hash" and ?b = "replicate 32 2 :: hash"
  have k: "\<forall>x. length (sample_hash x) = 32" by (simp add: sample_hash_def)
  have f: "finite (ancestors sample_chain ?b)" "card (ancestors sample_chain ?b) < 3"
    "\<forall>h \<in> ancestors sample_chain ?b. \<forall>p \<in> set (parents_of sample_chain h). slot_of sample_chain p < slot_of sample_chain h"
    unfolding sample_ancestors by simp_all
  obtain hs where
    hs: "SpineGetDagChain sample_hash sample_chain 3 (bc_GetBlock sample_chain ?b) = Some (Ok (map (bc_GetBlock sample_chain) hs))"
      "set hs = {?a, ?b}" "distinct hs" "last hs = ?b"
    using SpineGetDagChain_complete[OF k sample_chain_ok f(1) sample_chain_parents(5) f(3,2)]
    unfolding sample_ancestors by blast
  have ab: "?a \<noteq> ?b" by simp
  have "length hs = 2" using distinct_card[OF hs(3)] ab unfolding hs(2) by simp
  then obtain x y where xy: "hs = [x, y]" by (auto simp: numeral_2_eq_2 length_Suc_conv)
  have "y = ?b" using hs(4) unfolding xy by simp
  moreover have "x = ?a" using hs(2) ab calculation hs(3) unfolding xy by (metis distinct_length_2_or_more insertE list.set_intros(1) singletonD)
  ultimately show ?thesis using hs(1) xy by simp
qed

end
