(* ===== verification/Memorydb.thy ===== *)
theory Memorydb
  imports Hash_Order
begin

text \<open>
  The key-value store of package \<^verbatim>\<open>src/ethdb/memorydb\<close>: a map from keys to values behind the
  interfaces of \<^verbatim>\<open>src/ethdb\<close>, with write batches and iterators. A closed database has no map;
  reads and writes then fail, and writing a batch panics on the nil map. Keys are strings of
  bytes and their order is the lexicographic one. Locks are left out: every operation holds
  the lock for its whole body.
\<close>

section \<open>The code\<close>

type_synonym Database = "(bytes \<times> bytes) list option"

definition errMemorydbClosed :: goerr where
  "errMemorydbClosed = Msg ''database closed''"

definition errMemorydbNotFound :: goerr where
  "errMemorydbNotFound = Msg ''not found''"

definition mdb_New :: Database where
  "mdb_New = Some []"

definition mdb_Close :: "(Database, unit) call" where
  "mdb_Close db = (Ok (), None)"

definition mdb_Has :: "Database \<Rightarrow> bytes \<Rightarrow> bool res" where
  "mdb_Has db key = (case db of None \<Rightarrow> Err errMemorydbClosed | Some m \<Rightarrow> Ok (map_of m key \<noteq> None))"

definition mdb_Get :: "Database \<Rightarrow> bytes \<Rightarrow> bytes res" where
  "mdb_Get db key =
     (case db of None \<Rightarrow> Err errMemorydbClosed
      | Some m \<Rightarrow> (case map_of m key of Some entry \<Rightarrow> Ok entry | None \<Rightarrow> Err errMemorydbNotFound))"

definition mdb_Put :: "bytes \<Rightarrow> bytes \<Rightarrow> (Database, unit) call" where
  "mdb_Put key value db =
     (case db of None \<Rightarrow> (Err errMemorydbClosed, db) | Some m \<Rightarrow> (Ok (), Some (AList.update key value m)))"

definition mdb_Delete :: "bytes \<Rightarrow> (Database, unit) call" where
  "mdb_Delete key db =
     (case db of None \<Rightarrow> (Err errMemorydbClosed, db) | Some m \<Rightarrow> (Ok (), Some (AList.delete key m)))"

definition mdb_Len :: "Database \<Rightarrow> nat" where
  "mdb_Len db = (case db of None \<Rightarrow> 0 | Some m \<Rightarrow> length m)"

text \<open>Write batches.\<close>

record keyvalue =
  kv_key :: bytes
  kv_value :: bytes
  kv_delete :: bool

record batch =
  ba_writes :: "keyvalue list"
  ba_size :: nat

definition mdb_NewBatch :: batch where
  "mdb_NewBatch = \<lparr>ba_writes = [], ba_size = 0\<rparr>"

definition batch_Put :: "bytes \<Rightarrow> bytes \<Rightarrow> (batch, unit) call" where
  "batch_Put key value b =
     (Ok (), b\<lparr>ba_writes := ba_writes b @ [\<lparr>kv_key = key, kv_value = value, kv_delete = False\<rparr>],
               ba_size := ba_size b + length value\<rparr>)"

definition batch_Delete :: "bytes \<Rightarrow> (batch, unit) call" where
  "batch_Delete key b =
     (Ok (), b\<lparr>ba_writes := ba_writes b @ [\<lparr>kv_key = key, kv_value = [], kv_delete = True\<rparr>],
               ba_size := ba_size b + length key\<rparr>)"

definition batch_ValueSize :: "batch \<Rightarrow> nat" where
  "batch_ValueSize b = ba_size b"

text \<open>Deleting from a nil map does nothing, assigning to one panics.\<close>

primrec batch_writes :: "keyvalue list \<Rightarrow> (Database, unit) call" where
  "batch_writes [] = sret ()"
| "batch_writes (kv # kvs) = (\<lambda>db.
     if kv_delete kv then batch_writes kvs (map_option (AList.delete (kv_key kv)) db)
     else (case db of None \<Rightarrow> (Panic, db)
           | Some m \<Rightarrow> batch_writes kvs (Some (AList.update (kv_key kv) (kv_value kv) m))))"

definition batch_Write :: "batch \<Rightarrow> (Database, unit) call" where
  "batch_Write b = batch_writes (ba_writes b)"

definition batch_Reset :: "batch \<Rightarrow> batch" where
  "batch_Reset b = b\<lparr>ba_writes := [], ba_size := 0\<rparr>"

primrec replay_loop :: "keyvalue list \<Rightarrow> (Database, unit) call" where
  "replay_loop [] = sret ()"
| "replay_loop (kv # kvs) =
     (if kv_delete kv then sbind (mdb_Delete (kv_key kv)) (\<lambda>_. replay_loop kvs)
      else sbind (mdb_Put (kv_key kv) (kv_value kv)) (\<lambda>_. replay_loop kvs))"

definition batch_Replay :: "batch \<Rightarrow> (Database, unit) call" where
  "batch_Replay b = replay_loop (ba_writes b)"

text \<open>Iterators: a sorted copy of the matching part of the map.\<close>

record iterator =
  it_inited :: bool
  it_keys :: "bytes list"
  it_values :: "bytes list"

definition HasPrefix :: "bytes \<Rightarrow> bytes \<Rightarrow> bool" where
  "HasPrefix s pr \<longleftrightarrow> length s \<ge> length pr \<and> take (length pr) s = pr"

definition mdb_NewIterator :: "Database \<Rightarrow> bytes \<Rightarrow> bytes \<Rightarrow> iterator" where
  "mdb_NewIterator db pr start =
     (let st = pr @ start; m = (case db of None \<Rightarrow> [] | Some m \<Rightarrow> m);
          keys = sort (filter (\<lambda>key. HasPrefix key pr \<and> key \<ge> st) (map fst m))
      in \<lparr>it_inited = False, it_keys = keys, it_values = map (\<lambda>key. the (map_of m key)) keys\<rparr>)"

definition it_Next :: "iterator \<Rightarrow> bool \<times> iterator" where
  "it_Next it =
     (if \<not> it_inited it then (it_keys it \<noteq> [], it\<lparr>it_inited := True\<rparr>)
      else if it_keys it \<noteq> [] then
        (let it' = it\<lparr>it_keys := tl (it_keys it), it_values := tl (it_values it)\<rparr> in (it_keys it' \<noteq> [], it'))
      else (False, it))"

definition it_Key :: "iterator \<Rightarrow> bytes" where
  "it_Key it = (if it_keys it \<noteq> [] then it_keys it ! 0 else [])"

definition it_Value :: "iterator \<Rightarrow> bytes" where
  "it_Value it = (if it_values it \<noteq> [] then it_values it ! 0 else [])"

text \<open>The loop \<^verbatim>\<open>for it.Next() { ... }\<close>, collecting what the body computes from key and value.\<close>

function it_collect :: "(bytes \<Rightarrow> bytes \<Rightarrow> 'a list) \<Rightarrow> iterator \<Rightarrow> 'a list" where
  "it_collect body it =
     (let (more, it') = it_Next it in
      if more then body (it_Key it') (it_Value it') @ it_collect body it' else [])"
  by pat_completeness auto
termination
  by (relation "measure (\<lambda>(_, it). length (it_keys it) + (if it_inited it then 0 else 1))")
    (auto simp: it_Next_def Let_def split: if_splits)

declare it_collect.simps [simp del]

section \<open>The store as a map\<close>

text \<open>What the chain database relies on: reads return the last write, writes on an open store
  succeed and touch one key.\<close>

locale kv_store =
  fixes Get :: "'s \<Rightarrow> bytes \<Rightarrow> bytes res"
    and Has :: "'s \<Rightarrow> bytes \<Rightarrow> bool res"
    and Put :: "bytes \<Rightarrow> bytes \<Rightarrow> ('s, unit) call"
    and Delete :: "bytes \<Rightarrow> ('s, unit) call"
    and opened :: "'s \<Rightarrow> bool"
    and content :: "'s \<Rightarrow> bytes \<Rightarrow> bytes option"
  assumes Get_content: "opened s \<Longrightarrow> Get s k = (case content s k of Some v \<Rightarrow> Ok v | None \<Rightarrow> Err errMemorydbNotFound)"
    and Has_content: "opened s \<Longrightarrow> Has s k = Ok (content s k \<noteq> None)"
    and Put_content: "opened s \<Longrightarrow> \<exists>s'. Put k v s = (Ok (), s') \<and> opened s' \<and> content s' = (content s)(k \<mapsto> v)"
    and Delete_content: "opened s \<Longrightarrow> \<exists>s'. Delete k s = (Ok (), s') \<and> opened s' \<and> content s' = (content s)(k := None)"
begin

lemma Put_state: "opened s \<Longrightarrow> Put k v s = (Ok (), snd (Put k v s)) \<and> opened (snd (Put k v s)) \<and>
    content (snd (Put k v s)) = (content s)(k \<mapsto> v)"
  using Put_content[of s k v] by auto

lemma Delete_state: "opened s \<Longrightarrow> Delete k s = (Ok (), snd (Delete k s)) \<and> opened (snd (Delete k s)) \<and>
    content (snd (Delete k s)) = (content s)(k := None)"
  using Delete_content[of s k] by auto

lemma Get_Put: "opened s \<Longrightarrow> Get (snd (Put k v s)) k' = (if k' = k then Ok v else Get s k')"
  using Put_state[of s k v] by (simp add: Get_content)

lemma Get_Delete: "opened s \<Longrightarrow> Get (snd (Delete k s)) k' = (if k' = k then Err errMemorydbNotFound else Get s k')"
  using Delete_state[of s k] by (simp add: Get_content)

end

definition mdb_opened :: "Database \<Rightarrow> bool" where
  "mdb_opened db \<longleftrightarrow> db \<noteq> None"

definition mdb_content :: "Database \<Rightarrow> bytes \<Rightarrow> bytes option" where
  "mdb_content db = (case db of None \<Rightarrow> (\<lambda>_. None) | Some m \<Rightarrow> map_of m)"

interpretation mdb: kv_store mdb_Get mdb_Has mdb_Put mdb_Delete mdb_opened mdb_content
  by unfold_locales
    (auto simp: mdb_opened_def mdb_content_def mdb_Get_def mdb_Has_def mdb_Put_def mdb_Delete_def
      update_conv' delete_conv' split: option.splits)

section \<open>Batches and iterators\<close>

lemma batch_writes_replay: "batch_writes kvs (Some m) = replay_loop kvs (Some m)"
  by (induction kvs arbitrary: m) (simp_all add: mdb_Put_def mdb_Delete_def sbind_def)

primrec apply_writes :: "keyvalue list \<Rightarrow> (bytes \<Rightarrow> bytes option) \<Rightarrow> bytes \<Rightarrow> bytes option" where
  "apply_writes [] c = c"
| "apply_writes (kv # kvs) c =
     apply_writes kvs (c(kv_key kv := if kv_delete kv then None else Some (kv_value kv)))"

lemma replay_content:
  "mdb_opened db \<Longrightarrow> \<exists>db'. replay_loop kvs db = (Ok (), db') \<and> mdb_opened db' \<and>
     mdb_content db' = apply_writes kvs (mdb_content db)"
proof (induction kvs arbitrary: db)
  case (Cons kv kvs)
  show ?case
  proof (cases "kv_delete kv")
    case True
    obtain s where s: "mdb_Delete (kv_key kv) db = (Ok (), s)" "mdb_opened s"
      "mdb_content s = (mdb_content db)(kv_key kv := None)"
      using mdb.Delete_content[OF Cons.prems, of "kv_key kv"] by blast
    show ?thesis using Cons.IH[OF s(2), unfolded s(3)] s(1) True by (simp add: sbind_def del: fun_upd_apply)
  next
    case False
    obtain s where s: "mdb_Put (kv_key kv) (kv_value kv) db = (Ok (), s)" "mdb_opened s"
      "mdb_content s = (mdb_content db)(kv_key kv \<mapsto> kv_value kv)"
      using mdb.Put_content[OF Cons.prems, of "kv_key kv" "kv_value kv"] by blast
    show ?thesis using Cons.IH[OF s(2), unfolded s(3)] s(1) False by (simp add: sbind_def del: fun_upd_apply)
  qed
qed simp

definition kv_distinct :: "Database \<Rightarrow> bool" where
  "kv_distinct db \<longleftrightarrow> (case db of None \<Rightarrow> True | Some m \<Rightarrow> distinct (map fst m))"

lemma it_collect_inited:
  "length vs = length ks \<Longrightarrow>
   it_collect body \<lparr>it_inited = True, it_keys = k # ks, it_values = v # vs\<rparr> = concat (map2 body ks vs)"
proof (induction ks arbitrary: k v vs)
  case (Cons k' ks)
  then obtain v' vs' where "vs = v' # vs'" by (cases vs) auto
  then show ?case using Cons by (subst it_collect.simps) (simp add: it_Next_def it_Key_def it_Value_def)
qed (subst it_collect.simps, simp add: it_Next_def)

lemma it_collect_all:
  assumes "length vs = length ks"
  shows "it_collect body \<lparr>it_inited = False, it_keys = ks, it_values = vs\<rparr> = concat (map2 body ks vs)"
proof (cases ks)
  case (Cons k ks')
  then obtain v vs' where "vs = v # vs'" using assms by (cases vs) auto
  then show ?thesis using Cons assms it_collect_inited[of vs' ks' body k v]
    by (subst it_collect.simps) (simp add: it_Next_def it_Key_def it_Value_def)
qed (use assms in \<open>subst it_collect.simps, simp add: it_Next_def\<close>)

text \<open>Iterating visits every entry under the prefix from the start key on, once, in key order.\<close>

lemma iterate_sorted:
  "it_collect (\<lambda>k v. [(k, v)]) (mdb_NewIterator db pr start) =
     map (\<lambda>k. (k, the (mdb_content db k)))
       (sort (filter (\<lambda>k. HasPrefix k pr \<and> k \<ge> pr @ start) (map fst (case db of None \<Rightarrow> [] | Some m \<Rightarrow> m))))"
proof -
  have z: "concat (map2 (\<lambda>k v. [(k, v)]) ks (map f ks)) = map (\<lambda>k. (k, f k)) ks"
    for ks :: "bytes list" and f :: "bytes \<Rightarrow> bytes"
    by (induction ks) (simp_all add: comp_def)
  show ?thesis
    by (cases db) (simp_all add: mdb_NewIterator_def Let_def it_collect_all mdb_content_def z)
qed

end
