(* ===== verification/Schema.thy ===== *)
theory Schema
  imports Memorydb
begin

text \<open>
  The keys of the chain database (\<^verbatim>\<open>src/core/rawdb/schema.go\<close>): single keys, and families of keys
  with a prefix and hashes or big-endian numbers behind it, and the two keys that the chain
  indexer (\<^verbatim>\<open>src/core/chain_indexer.go\<close>) uses behind its table prefix. The keys of all families share
  one key space with the raw 32-byte hashes of trie nodes. A datatype with one constructor for
  every kind of key states that no two of them collide.
\<close>

section \<open>The code\<close>

definition go_string :: "string \<Rightarrow> bytes" where
  "go_string s = map of_char s"

definition databaseVersionKey :: bytes where
  "databaseVersionKey = go_string ''DatabaseVersion''"

definition lastFinalizedHashKey :: bytes where
  "lastFinalizedHashKey = go_string ''LFHash''"

definition lastCanonicalHashKey :: bytes where
  "lastCanonicalHashKey = go_string ''LCHash''"

definition lastCoordCpKey :: bytes where
  "lastCoordCpKey = go_string ''LCoordCp''"

definition tipsHashesKey :: bytes where
  "tipsHashesKey = go_string ''TipsHashes''"

definition headFastBlockKey :: bytes where
  "headFastBlockKey = go_string ''LastFast''"

definition lastPivotKey :: bytes where
  "lastPivotKey = go_string ''LastPivot''"

definition fastTrieProgressKey :: bytes where
  "fastTrieProgressKey = go_string ''TrieSync''"

definition snapshotDisabledKey :: bytes where
  "snapshotDisabledKey = go_string ''SnapshotDisabled''"

definition snapshotRootKey :: bytes where
  "snapshotRootKey = go_string ''SnapshotRoot''"

definition snapshotJournalKey :: bytes where
  "snapshotJournalKey = go_string ''SnapshotJournal''"

definition snapshotGeneratorKey :: bytes where
  "snapshotGeneratorKey = go_string ''SnapshotGenerator''"

definition snapshotRecoveryKey :: bytes where
  "snapshotRecoveryKey = go_string ''SnapshotRecovery''"

definition snapshotSyncStatusKey :: bytes where
  "snapshotSyncStatusKey = go_string ''SnapshotSyncStatus''"

definition txIndexTailKey :: bytes where
  "txIndexTailKey = go_string ''TransactionIndexTail''"

definition fastTxLookupLimitKey :: bytes where
  "fastTxLookupLimitKey = go_string ''FastTransactionLookupLimit''"

definition badBlockKey :: bytes where
  "badBlockKey = go_string ''InvalidBlock''"

definition uncleanShutdownKey :: bytes where
  "uncleanShutdownKey = go_string ''unclean-shutdown''"

definition currentEraPrefix :: bytes where
  "currentEraPrefix = go_string ''currentera''"

definition valSyncNotProcKey :: bytes where
  "valSyncNotProcKey = go_string ''vsnprockeys''"

definition coordCpPrefix :: bytes where
  "coordCpPrefix = go_string ''CoordCp''"

definition epochCpPrefix :: bytes where
  "epochCpPrefix = go_string ''EpochCp''"

definition headerPrefix :: bytes where
  "headerPrefix = go_string ''h''"

definition childrenPrefix :: bytes where
  "childrenPrefix = go_string ''Cld''"

definition blockDagPrefix :: bytes where
  "blockDagPrefix = go_string ''DAG''"

definition finalizedNumberByHashPrefix :: bytes where
  "finalizedNumberByHashPrefix = go_string ''fhn''"

definition finalizedHashByNumberPrefix :: bytes where
  "finalizedHashByNumberPrefix = go_string ''fnh''"

definition eraPrefix :: bytes where
  "eraPrefix = go_string ''era''"

definition slotBlockKey :: bytes where
  "slotBlockKey = go_string ''slotBlocks''"

definition valSyncOpPrefix :: bytes where
  "valSyncOpPrefix = go_string ''vsop''"

definition blockBodyPrefix :: bytes where
  "blockBodyPrefix = go_string ''b''"

definition blockReceiptsPrefix :: bytes where
  "blockReceiptsPrefix = go_string ''r''"

definition txLookupPrefix :: bytes where
  "txLookupPrefix = go_string ''l''"

definition bloomBitsPrefix :: bytes where
  "bloomBitsPrefix = go_string ''B''"

definition SnapshotAccountPrefix :: bytes where
  "SnapshotAccountPrefix = go_string ''a''"

definition SnapshotStoragePrefix :: bytes where
  "SnapshotStoragePrefix = go_string ''o''"

definition CodePrefix :: bytes where
  "CodePrefix = go_string ''c''"

definition preimagePrefix :: bytes where
  "preimagePrefix = go_string ''secure-key-''"

definition configPrefix :: bytes where
  "configPrefix = go_string ''ethereum-config-''"

definition BloomBitsIndexPrefix :: bytes where
  "BloomBitsIndexPrefix = go_string ''iB''"

definition Uint64ToByteSlice :: "u64 \<Rightarrow> bytes" where
  "Uint64ToByteSlice u = bePut64 u"

definition encodeBlockNumber :: "u64 \<Rightarrow> bytes" where
  "encodeBlockNumber number = bePut64 number"

definition headerKey :: "hash \<Rightarrow> bytes" where
  "headerKey hash = headerPrefix @ hash"

definition blockBodyKey :: "hash \<Rightarrow> bytes" where
  "blockBodyKey hash = blockBodyPrefix @ hash"

definition blockReceiptsKey :: "hash \<Rightarrow> bytes" where
  "blockReceiptsKey hash = blockReceiptsPrefix @ hash"

definition txLookupKey :: "hash \<Rightarrow> bytes" where
  "txLookupKey hash = txLookupPrefix @ hash"

definition accountSnapshotKey :: "hash \<Rightarrow> bytes" where
  "accountSnapshotKey hash = SnapshotAccountPrefix @ hash"

definition storageSnapshotKey :: "hash \<Rightarrow> hash \<Rightarrow> bytes" where
  "storageSnapshotKey accountHash storageHash = (SnapshotStoragePrefix @ accountHash) @ storageHash"

definition storageSnapshotsKey :: "hash \<Rightarrow> bytes" where
  "storageSnapshotsKey accountHash = SnapshotStoragePrefix @ accountHash"

text \<open>Writing into a buffer from an offset on.\<close>

definition put_at :: "nat \<Rightarrow> bytes \<Rightarrow> bytes \<Rightarrow> bytes" where
  "put_at i b buf = take i buf @ b @ drop (i + length b) buf"

definition bloomBitsKey :: "u64 \<Rightarrow> u64 \<Rightarrow> hash \<Rightarrow> bytes" where
  "bloomBitsKey bitNr section hash =
     (let key = (bloomBitsPrefix @ replicate 10 0) @ hash;
          key = put_at 1 (to_be 2 (unat (ucast bitNr :: u16))) key
      in put_at 3 (bePut64 section) key)"

definition preimageKey :: "hash \<Rightarrow> bytes" where
  "preimageKey hash = preimagePrefix @ hash"

definition codeKey :: "hash \<Rightarrow> bytes" where
  "codeKey hash = CodePrefix @ hash"

definition configKey :: "hash \<Rightarrow> bytes" where
  "configKey hash = configPrefix @ hash"

definition finNumberByHashKey :: "hash \<Rightarrow> bytes" where
  "finNumberByHashKey hash = finalizedNumberByHashPrefix @ hash"

definition finHashByNumberKey :: "u64 \<Rightarrow> bytes" where
  "finHashByNumberKey n = finalizedHashByNumberPrefix @ encodeBlockNumber n"

definition blockDagKey :: "hash \<Rightarrow> bytes" where
  "blockDagKey hash = blockDagPrefix @ hash"

definition childrenKey :: "hash \<Rightarrow> bytes" where
  "childrenKey hash = childrenPrefix @ hash"

definition eraKey :: "u64 \<Rightarrow> bytes" where
  "eraKey n = eraPrefix @ Uint64ToByteSlice n"

definition validatorSyncKey :: "hash \<Rightarrow> bytes" where
  "validatorSyncKey hash = valSyncOpPrefix @ hash"

definition coordCpKey :: "hash \<Rightarrow> bytes" where
  "coordCpKey hash = coordCpPrefix @ hash"

definition epochCpKey :: "u64 \<Rightarrow> bytes" where
  "epochCpKey n = epochCpPrefix @ Uint64ToByteSlice n"

definition slotBlocksKey :: "u64 \<Rightarrow> bytes" where
  "slotBlocksKey n = slotBlockKey @ Uint64ToByteSlice n"

text \<open>The table of the chain indexer puts its prefix before the keys for the number of sections and
  for the last block of a section.\<close>

definition sectionCountKey :: bytes where
  "sectionCountKey = BloomBitsIndexPrefix @ go_string ''count''"

definition sectionHeadKey :: "u64 \<Rightarrow> bytes" where
  "sectionHeadKey n = BloomBitsIndexPrefix @ (go_string ''shead'' @ bePut64 n)"

definition IsCodeKey :: "bytes \<Rightarrow> bool \<times> bytes" where
  "IsCodeKey key =
     (if HasPrefix key CodePrefix \<and> length key = 32 + length CodePrefix
      then (True, drop (length CodePrefix) key) else (False, []))"

section \<open>Keys do not collide\<close>

datatype dbkey =
    DatabaseVersionKey
  | LastFinalizedHashKey
  | LastCanonicalHashKey
  | LastCoordCpKey
  | TipsHashesKey
  | HeadFastBlockKey
  | LastPivotKey
  | FastTrieProgressKey
  | SnapshotDisabledKey
  | SnapshotRootKey
  | SnapshotJournalKey
  | SnapshotGeneratorKey
  | SnapshotRecoveryKey
  | SnapshotSyncStatusKey
  | TxIndexTailKey
  | FastTxLookupLimitKey
  | BadBlockKey
  | UncleanShutdownKey
  | CurrentEraPrefix
  | ValSyncNotProcKey
  | HeaderKey hash
  | BlockBodyKey hash
  | BlockReceiptsKey hash
  | TxLookupKey hash
  | AccountSnapshotKey hash
  | StorageSnapshotKey hash hash
  | BloomBitsKey u16 u64 hash
  | PreimageKey hash
  | CodeKey hash
  | ConfigKey hash
  | FinNumberByHashKey hash
  | FinHashByNumberKey u64
  | BlockDagKey hash
  | ChildrenKey hash
  | EraKey u64
  | ValidatorSyncKey hash
  | CoordCpKey hash
  | EpochCpKey u64
  | SlotBlocksKey u64
  | SectionCountKey
  | SectionHeadKey u64

text \<open>The prefix and the rest of a key.\<close>

primrec key_parts :: "dbkey \<Rightarrow> bytes \<times> bytes" where
  "key_parts DatabaseVersionKey = (databaseVersionKey, [])"
| "key_parts LastFinalizedHashKey = (lastFinalizedHashKey, [])"
| "key_parts LastCanonicalHashKey = (lastCanonicalHashKey, [])"
| "key_parts LastCoordCpKey = (lastCoordCpKey, [])"
| "key_parts TipsHashesKey = (tipsHashesKey, [])"
| "key_parts HeadFastBlockKey = (headFastBlockKey, [])"
| "key_parts LastPivotKey = (lastPivotKey, [])"
| "key_parts FastTrieProgressKey = (fastTrieProgressKey, [])"
| "key_parts SnapshotDisabledKey = (snapshotDisabledKey, [])"
| "key_parts SnapshotRootKey = (snapshotRootKey, [])"
| "key_parts SnapshotJournalKey = (snapshotJournalKey, [])"
| "key_parts SnapshotGeneratorKey = (snapshotGeneratorKey, [])"
| "key_parts SnapshotRecoveryKey = (snapshotRecoveryKey, [])"
| "key_parts SnapshotSyncStatusKey = (snapshotSyncStatusKey, [])"
| "key_parts TxIndexTailKey = (txIndexTailKey, [])"
| "key_parts FastTxLookupLimitKey = (fastTxLookupLimitKey, [])"
| "key_parts BadBlockKey = (badBlockKey, [])"
| "key_parts UncleanShutdownKey = (uncleanShutdownKey, [])"
| "key_parts CurrentEraPrefix = (currentEraPrefix, [])"
| "key_parts ValSyncNotProcKey = (valSyncNotProcKey, [])"
| "key_parts (HeaderKey h) = (headerPrefix, h)"
| "key_parts (BlockBodyKey h) = (blockBodyPrefix, h)"
| "key_parts (BlockReceiptsKey h) = (blockReceiptsPrefix, h)"
| "key_parts (TxLookupKey h) = (txLookupPrefix, h)"
| "key_parts (AccountSnapshotKey h) = (SnapshotAccountPrefix, h)"
| "key_parts (StorageSnapshotKey a h) = (SnapshotStoragePrefix, a @ h)"
| "key_parts (BloomBitsKey b s h) = (bloomBitsPrefix, to_be 2 (unat b) @ bePut64 s @ h)"
| "key_parts (PreimageKey h) = (preimagePrefix, h)"
| "key_parts (CodeKey h) = (CodePrefix, h)"
| "key_parts (ConfigKey h) = (configPrefix, h)"
| "key_parts (FinNumberByHashKey h) = (finalizedNumberByHashPrefix, h)"
| "key_parts (FinHashByNumberKey n) = (finalizedHashByNumberPrefix, bePut64 n)"
| "key_parts (BlockDagKey h) = (blockDagPrefix, h)"
| "key_parts (ChildrenKey h) = (childrenPrefix, h)"
| "key_parts (EraKey n) = (eraPrefix, bePut64 n)"
| "key_parts (ValidatorSyncKey h) = (valSyncOpPrefix, h)"
| "key_parts (CoordCpKey h) = (coordCpPrefix, h)"
| "key_parts (EpochCpKey n) = (epochCpPrefix, bePut64 n)"
| "key_parts (SlotBlocksKey n) = (slotBlockKey, bePut64 n)"
| "key_parts SectionCountKey = (BloomBitsIndexPrefix @ go_string ''count'', [])"
| "key_parts (SectionHeadKey n) = (BloomBitsIndexPrefix @ go_string ''shead'', bePut64 n)"

text \<open>The key as the code builds it.\<close>

primrec key_bytes :: "dbkey \<Rightarrow> bytes" where
  "key_bytes DatabaseVersionKey = databaseVersionKey"
| "key_bytes LastFinalizedHashKey = lastFinalizedHashKey"
| "key_bytes LastCanonicalHashKey = lastCanonicalHashKey"
| "key_bytes LastCoordCpKey = lastCoordCpKey"
| "key_bytes TipsHashesKey = tipsHashesKey"
| "key_bytes HeadFastBlockKey = headFastBlockKey"
| "key_bytes LastPivotKey = lastPivotKey"
| "key_bytes FastTrieProgressKey = fastTrieProgressKey"
| "key_bytes SnapshotDisabledKey = snapshotDisabledKey"
| "key_bytes SnapshotRootKey = snapshotRootKey"
| "key_bytes SnapshotJournalKey = snapshotJournalKey"
| "key_bytes SnapshotGeneratorKey = snapshotGeneratorKey"
| "key_bytes SnapshotRecoveryKey = snapshotRecoveryKey"
| "key_bytes SnapshotSyncStatusKey = snapshotSyncStatusKey"
| "key_bytes TxIndexTailKey = txIndexTailKey"
| "key_bytes FastTxLookupLimitKey = fastTxLookupLimitKey"
| "key_bytes BadBlockKey = badBlockKey"
| "key_bytes UncleanShutdownKey = uncleanShutdownKey"
| "key_bytes CurrentEraPrefix = currentEraPrefix"
| "key_bytes ValSyncNotProcKey = valSyncNotProcKey"
| "key_bytes (HeaderKey x) = headerKey x"
| "key_bytes (BlockBodyKey x) = blockBodyKey x"
| "key_bytes (BlockReceiptsKey x) = blockReceiptsKey x"
| "key_bytes (TxLookupKey x) = txLookupKey x"
| "key_bytes (AccountSnapshotKey x) = accountSnapshotKey x"
| "key_bytes (StorageSnapshotKey a h) = storageSnapshotKey a h"
| "key_bytes (BloomBitsKey b s h) = bloomBitsKey (ucast b) s h"
| "key_bytes (PreimageKey x) = preimageKey x"
| "key_bytes (CodeKey x) = codeKey x"
| "key_bytes (ConfigKey x) = configKey x"
| "key_bytes (FinNumberByHashKey x) = finNumberByHashKey x"
| "key_bytes (FinHashByNumberKey x) = finHashByNumberKey x"
| "key_bytes (BlockDagKey x) = blockDagKey x"
| "key_bytes (ChildrenKey x) = childrenKey x"
| "key_bytes (EraKey x) = eraKey x"
| "key_bytes (ValidatorSyncKey x) = validatorSyncKey x"
| "key_bytes (CoordCpKey x) = coordCpKey x"
| "key_bytes (EpochCpKey x) = epochCpKey x"
| "key_bytes (SlotBlocksKey x) = slotBlocksKey x"
| "key_bytes SectionCountKey = sectionCountKey"
| "key_bytes (SectionHeadKey x) = sectionHeadKey x"

primrec wf_key :: "dbkey \<Rightarrow> bool" where
  "wf_key DatabaseVersionKey \<longleftrightarrow> True"
| "wf_key LastFinalizedHashKey \<longleftrightarrow> True"
| "wf_key LastCanonicalHashKey \<longleftrightarrow> True"
| "wf_key LastCoordCpKey \<longleftrightarrow> True"
| "wf_key TipsHashesKey \<longleftrightarrow> True"
| "wf_key HeadFastBlockKey \<longleftrightarrow> True"
| "wf_key LastPivotKey \<longleftrightarrow> True"
| "wf_key FastTrieProgressKey \<longleftrightarrow> True"
| "wf_key SnapshotDisabledKey \<longleftrightarrow> True"
| "wf_key SnapshotRootKey \<longleftrightarrow> True"
| "wf_key SnapshotJournalKey \<longleftrightarrow> True"
| "wf_key SnapshotGeneratorKey \<longleftrightarrow> True"
| "wf_key SnapshotRecoveryKey \<longleftrightarrow> True"
| "wf_key SnapshotSyncStatusKey \<longleftrightarrow> True"
| "wf_key TxIndexTailKey \<longleftrightarrow> True"
| "wf_key FastTxLookupLimitKey \<longleftrightarrow> True"
| "wf_key BadBlockKey \<longleftrightarrow> True"
| "wf_key UncleanShutdownKey \<longleftrightarrow> True"
| "wf_key CurrentEraPrefix \<longleftrightarrow> True"
| "wf_key ValSyncNotProcKey \<longleftrightarrow> True"
| "wf_key (HeaderKey h) \<longleftrightarrow> length h = 32"
| "wf_key (BlockBodyKey h) \<longleftrightarrow> length h = 32"
| "wf_key (BlockReceiptsKey h) \<longleftrightarrow> length h = 32"
| "wf_key (TxLookupKey h) \<longleftrightarrow> length h = 32"
| "wf_key (AccountSnapshotKey h) \<longleftrightarrow> length h = 32"
| "wf_key (StorageSnapshotKey a h) \<longleftrightarrow> length a = 32 \<and> length h = 32"
| "wf_key (BloomBitsKey b s h) \<longleftrightarrow> length h = 32"
| "wf_key (PreimageKey h) \<longleftrightarrow> length h = 32"
| "wf_key (CodeKey h) \<longleftrightarrow> length h = 32"
| "wf_key (ConfigKey h) \<longleftrightarrow> length h = 32"
| "wf_key (FinNumberByHashKey h) \<longleftrightarrow> length h = 32"
| "wf_key (FinHashByNumberKey n) \<longleftrightarrow> True"
| "wf_key (BlockDagKey h) \<longleftrightarrow> length h = 32"
| "wf_key (ChildrenKey h) \<longleftrightarrow> length h = 32"
| "wf_key (EraKey n) \<longleftrightarrow> True"
| "wf_key (ValidatorSyncKey h) \<longleftrightarrow> length h = 32"
| "wf_key (CoordCpKey h) \<longleftrightarrow> length h = 32"
| "wf_key (EpochCpKey n) \<longleftrightarrow> True"
| "wf_key (SlotBlocksKey n) \<longleftrightarrow> True"
| "wf_key SectionCountKey \<longleftrightarrow> True"
| "wf_key (SectionHeadKey n) \<longleftrightarrow> True"

text \<open>Reading a key back: the first row of matching length and prefix.\<close>

definition num_at :: "nat \<Rightarrow> bytes \<Rightarrow> u64" where
  "num_at i b = word_of_nat (of_be (take 8 (drop i b)))"

definition key_rows :: "(bytes \<times> nat \<times> (bytes \<Rightarrow> dbkey)) list" where
  "key_rows =
     [(databaseVersionKey, 0, \<lambda>_. DatabaseVersionKey),
      (lastFinalizedHashKey, 0, \<lambda>_. LastFinalizedHashKey),
      (lastCanonicalHashKey, 0, \<lambda>_. LastCanonicalHashKey),
      (lastCoordCpKey, 0, \<lambda>_. LastCoordCpKey),
      (tipsHashesKey, 0, \<lambda>_. TipsHashesKey),
      (headFastBlockKey, 0, \<lambda>_. HeadFastBlockKey),
      (lastPivotKey, 0, \<lambda>_. LastPivotKey),
      (fastTrieProgressKey, 0, \<lambda>_. FastTrieProgressKey),
      (snapshotDisabledKey, 0, \<lambda>_. SnapshotDisabledKey),
      (snapshotRootKey, 0, \<lambda>_. SnapshotRootKey),
      (snapshotJournalKey, 0, \<lambda>_. SnapshotJournalKey),
      (snapshotGeneratorKey, 0, \<lambda>_. SnapshotGeneratorKey),
      (snapshotRecoveryKey, 0, \<lambda>_. SnapshotRecoveryKey),
      (snapshotSyncStatusKey, 0, \<lambda>_. SnapshotSyncStatusKey),
      (txIndexTailKey, 0, \<lambda>_. TxIndexTailKey),
      (fastTxLookupLimitKey, 0, \<lambda>_. FastTxLookupLimitKey),
      (badBlockKey, 0, \<lambda>_. BadBlockKey),
      (uncleanShutdownKey, 0, \<lambda>_. UncleanShutdownKey),
      (currentEraPrefix, 0, \<lambda>_. CurrentEraPrefix),
      (valSyncNotProcKey, 0, \<lambda>_. ValSyncNotProcKey),
      (headerPrefix, 32, HeaderKey),
      (blockBodyPrefix, 32, BlockBodyKey),
      (blockReceiptsPrefix, 32, BlockReceiptsKey),
      (txLookupPrefix, 32, TxLookupKey),
      (SnapshotAccountPrefix, 32, AccountSnapshotKey),
      (SnapshotStoragePrefix, 64, \<lambda>b. StorageSnapshotKey (take 32 b) (drop 32 b)),
      (bloomBitsPrefix, 42, \<lambda>b. BloomBitsKey (word_of_nat (of_be (take 2 b))) (num_at 2 b) (drop 10 b)),
      (preimagePrefix, 32, PreimageKey),
      (CodePrefix, 32, CodeKey),
      (configPrefix, 32, ConfigKey),
      (finalizedNumberByHashPrefix, 32, FinNumberByHashKey),
      (finalizedHashByNumberPrefix, 8, \<lambda>b. FinHashByNumberKey (num_at 0 b)),
      (blockDagPrefix, 32, BlockDagKey),
      (childrenPrefix, 32, ChildrenKey),
      (eraPrefix, 8, \<lambda>b. EraKey (num_at 0 b)),
      (valSyncOpPrefix, 32, ValidatorSyncKey),
      (coordCpPrefix, 32, CoordCpKey),
      (epochCpPrefix, 8, \<lambda>b. EpochCpKey (num_at 0 b)),
      (slotBlockKey, 8, \<lambda>b. SlotBlocksKey (num_at 0 b)),
      (BloomBitsIndexPrefix @ go_string ''count'', 0, \<lambda>_. SectionCountKey),
      (BloomBitsIndexPrefix @ go_string ''shead'', 8, \<lambda>b. SectionHeadKey (num_at 0 b))]"

definition row_matches :: "bytes \<Rightarrow> bytes \<times> nat \<times> (bytes \<Rightarrow> dbkey) \<Rightarrow> bool" where
  "row_matches b row \<longleftrightarrow> length b = length (fst row) + fst (snd row) \<and> take (length (fst row)) b = fst row"

definition parse_key :: "bytes \<Rightarrow> dbkey option" where
  "parse_key b = map_option (\<lambda>row. snd (snd row) (drop (length (fst row)) b)) (List.find (row_matches b) key_rows)"

lemma prefix_bytes:
  "databaseVersionKey = [68, 97, 116, 97, 98, 97, 115, 101, 86, 101, 114, 115, 105, 111, 110]"
  "lastFinalizedHashKey = [76, 70, 72, 97, 115, 104]"
  "lastCanonicalHashKey = [76, 67, 72, 97, 115, 104]"
  "lastCoordCpKey = [76, 67, 111, 111, 114, 100, 67, 112]"
  "tipsHashesKey = [84, 105, 112, 115, 72, 97, 115, 104, 101, 115]"
  "headFastBlockKey = [76, 97, 115, 116, 70, 97, 115, 116]"
  "lastPivotKey = [76, 97, 115, 116, 80, 105, 118, 111, 116]"
  "fastTrieProgressKey = [84, 114, 105, 101, 83, 121, 110, 99]"
  "snapshotDisabledKey = [83, 110, 97, 112, 115, 104, 111, 116, 68, 105, 115, 97, 98, 108, 101, 100]"
  "snapshotRootKey = [83, 110, 97, 112, 115, 104, 111, 116, 82, 111, 111, 116]"
  "snapshotJournalKey = [83, 110, 97, 112, 115, 104, 111, 116, 74, 111, 117, 114, 110, 97, 108]"
  "snapshotGeneratorKey = [83, 110, 97, 112, 115, 104, 111, 116, 71, 101, 110, 101, 114, 97, 116, 111, 114]"
  "snapshotRecoveryKey = [83, 110, 97, 112, 115, 104, 111, 116, 82, 101, 99, 111, 118, 101, 114, 121]"
  "snapshotSyncStatusKey = [83, 110, 97, 112, 115, 104, 111, 116, 83, 121, 110, 99, 83, 116, 97, 116, 117, 115]"
  "txIndexTailKey = [84, 114, 97, 110, 115, 97, 99, 116, 105, 111, 110, 73, 110, 100, 101, 120, 84, 97, 105, 108]"
  "fastTxLookupLimitKey = [70, 97, 115, 116, 84, 114, 97, 110, 115, 97, 99, 116, 105, 111, 110, 76, 111, 111, 107, 117, 112, 76, 105, 109, 105, 116]"
  "badBlockKey = [73, 110, 118, 97, 108, 105, 100, 66, 108, 111, 99, 107]"
  "uncleanShutdownKey = [117, 110, 99, 108, 101, 97, 110, 45, 115, 104, 117, 116, 100, 111, 119, 110]"
  "currentEraPrefix = [99, 117, 114, 114, 101, 110, 116, 101, 114, 97]"
  "valSyncNotProcKey = [118, 115, 110, 112, 114, 111, 99, 107, 101, 121, 115]"
  "coordCpPrefix = [67, 111, 111, 114, 100, 67, 112]"
  "epochCpPrefix = [69, 112, 111, 99, 104, 67, 112]"
  "headerPrefix = [104]"
  "childrenPrefix = [67, 108, 100]"
  "blockDagPrefix = [68, 65, 71]"
  "finalizedNumberByHashPrefix = [102, 104, 110]"
  "finalizedHashByNumberPrefix = [102, 110, 104]"
  "eraPrefix = [101, 114, 97]"
  "slotBlockKey = [115, 108, 111, 116, 66, 108, 111, 99, 107, 115]"
  "valSyncOpPrefix = [118, 115, 111, 112]"
  "blockBodyPrefix = [98]"
  "blockReceiptsPrefix = [114]"
  "txLookupPrefix = [108]"
  "bloomBitsPrefix = [66]"
  "SnapshotAccountPrefix = [97]"
  "SnapshotStoragePrefix = [111]"
  "CodePrefix = [99]"
  "preimagePrefix = [115, 101, 99, 117, 114, 101, 45, 107, 101, 121, 45]"
  "configPrefix = [101, 116, 104, 101, 114, 101, 117, 109, 45, 99, 111, 110, 102, 105, 103, 45]"
  "BloomBitsIndexPrefix @ go_string ''count'' = [105, 66, 99, 111, 117, 110, 116]"
  "BloomBitsIndexPrefix @ go_string ''shead'' = [105, 66, 115, 104, 101, 97, 100]"
  by (simp_all add: go_string_def
      databaseVersionKey_def lastFinalizedHashKey_def lastCanonicalHashKey_def lastCoordCpKey_def tipsHashesKey_def headFastBlockKey_def lastPivotKey_def fastTrieProgressKey_def snapshotDisabledKey_def snapshotRootKey_def snapshotJournalKey_def snapshotGeneratorKey_def snapshotRecoveryKey_def snapshotSyncStatusKey_def txIndexTailKey_def fastTxLookupLimitKey_def badBlockKey_def uncleanShutdownKey_def currentEraPrefix_def valSyncNotProcKey_def coordCpPrefix_def epochCpPrefix_def headerPrefix_def childrenPrefix_def blockDagPrefix_def finalizedNumberByHashPrefix_def finalizedHashByNumberPrefix_def eraPrefix_def slotBlockKey_def valSyncOpPrefix_def blockBodyPrefix_def blockReceiptsPrefix_def txLookupPrefix_def bloomBitsPrefix_def SnapshotAccountPrefix_def SnapshotStoragePrefix_def CodePrefix_def preimagePrefix_def configPrefix_def BloomBitsIndexPrefix_def)

lemma bloomBitsKey_parts:
  "bloomBitsKey (ucast (b :: u16)) s h = bloomBitsPrefix @ to_be 2 (unat b) @ bePut64 s @ h"
proof -
  have u: "ucast (ucast b :: u64) = b" by (rule bit_word_eqI) (auto simp: bit_ucast_iff dest: bit_imp_le_length)
  have "put_at 1 c ((bloomBitsPrefix @ replicate 10 0) @ h) = bloomBitsPrefix @ c @ replicate 8 0 @ h" if "length c = 2" for c
    using that by (simp add: put_at_def prefix_bytes drop_Cons')
  then show ?thesis unfolding bloomBitsKey_def Let_def u by (simp add: put_at_def prefix_bytes)
qed

lemma key_bytes_parts: "key_bytes k = fst (key_parts k) @ snd (key_parts k)"
  by (cases k)
    (simp_all add: Uint64ToByteSlice_def encodeBlockNumber_def bloomBitsKey_parts
      headerKey_def blockBodyKey_def blockReceiptsKey_def txLookupKey_def accountSnapshotKey_def storageSnapshotKey_def preimageKey_def codeKey_def configKey_def finNumberByHashKey_def finHashByNumberKey_def blockDagKey_def childrenKey_def eraKey_def validatorSyncKey_def coordCpKey_def epochCpKey_def slotBlocksKey_def sectionCountKey_def sectionHeadKey_def)

lemma num_at_be [simp]: "num_at 0 (bePut64 n) = n" "length p = i \<Longrightarrow> num_at i (p @ bePut64 n @ h) = n"
  by (simp_all add: num_at_def bePut64_def)

lemma u16_mod [simp]: "unat (b :: u16) mod 65536 = unat b"
  using unsigned_less[of b, where ?'a = nat] by simp

lemma parse_key_bytes: "wf_key k \<Longrightarrow> parse_key (key_bytes k) = Some k"
  by (cases k) (simp_all add: parse_key_def key_rows_def row_matches_def key_bytes_parts prefix_bytes del: key_bytes.simps)

lemma key_bytes_eq [simp]: "wf_key k \<Longrightarrow> wf_key k' \<Longrightarrow> key_bytes k = key_bytes k' \<longleftrightarrow> k = k'"
  by (metis parse_key_bytes option.inject)


lemma length_key_bytes: "wf_key k \<Longrightarrow> length (key_bytes k) \<noteq> 32"
  by (cases k) (simp_all add: key_bytes_parts prefix_bytes del: key_bytes.simps)

lemma IsCodeKey_iff: "wf_key k \<Longrightarrow> IsCodeKey (key_bytes k) = (case k of CodeKey h \<Rightarrow> (True, h) | _ \<Rightarrow> (False, []))"
  by (cases k) (simp_all add: IsCodeKey_def HasPrefix_def key_bytes_parts prefix_bytes del: key_bytes.simps)

text \<open>C12. The keys of the chain database never collide: equal keys are keys of the same kind for the
  same hashes and numbers. No key has the 32 bytes of a trie node's hash, and the test for code
  keys accepts exactly the keys of contract code and returns their hash.\<close>

theorem schema_keys_distinct:
  assumes "wf_key k" "wf_key k'"
  shows "(key_bytes k = key_bytes k' \<longleftrightarrow> k = k') \<and> length (key_bytes k) \<noteq> 32 \<and>
    IsCodeKey (key_bytes k) = (case k of CodeKey h \<Rightarrow> (True, h) | _ \<Rightarrow> (False, []))"
  using key_bytes_eq[OF assms] length_key_bytes[OF assms(1)] IsCodeKey_iff[OF assms(1)] by blast

theorem schema_keys_distinct_witness:
  "codeKey (replicate 32 101) \<noteq> headerKey (replicate 32 101) \<and>
   IsCodeKey (codeKey (replicate 32 101)) = (True, replicate 32 101)"
  using schema_keys_distinct[of "CodeKey (replicate 32 101)" "HeaderKey (replicate 32 101)"]
  by simp

end
