(* ===== verification/Era.thy ===== *)
theory Era
  imports Common
begin

text \<open>
  Eras (\<^verbatim>\<open>src/validator/era/era.go\<close>): consecutive intervals of epochs with a fixed validator
  set. The wall clock and the blockchain interface are not needed here: the functions take the
  era, the slot clock and the chain configuration they read.
\<close>

section \<open>The code\<close>

record Era =
  er_Number :: u64
  er_From :: u64
  er_To :: u64
  er_Root :: hash
  er_BlockHash :: hash

definition NewEra :: "u64 \<Rightarrow> u64 \<Rightarrow> u64 \<Rightarrow> hash \<Rightarrow> hash \<Rightarrow> Era" where
  "NewEra number from to root blockHash =
     \<lparr>er_Number = number, er_From = from, er_To = to, er_Root = root, er_BlockHash = blockHash\<rparr>"

definition era_Length :: "Era \<Rightarrow> u64" where
  "era_Length e = er_To e - er_From e"

definition era_IsContainsEpoch :: "Era \<Rightarrow> u64 \<Rightarrow> bool" where
  "era_IsContainsEpoch e epoch \<longleftrightarrow> epoch \<ge> er_From e \<and> epoch \<le> er_To e"

record EraInfo =
  ei_currentEra :: Era
  ei_length :: u64

definition NewEraInfo :: "Era \<Rightarrow> EraInfo" where
  "NewEraInfo e = \<lparr>ei_currentEra = e, ei_length = era_Length e\<rparr>"

definition ei_Number :: "EraInfo \<Rightarrow> u64" where
  "ei_Number ei = er_Number (ei_currentEra ei)"

definition ei_ToEpoch :: "EraInfo \<Rightarrow> u64" where
  "ei_ToEpoch ei = er_To (ei_currentEra ei)"

definition ei_FromEpoch :: "EraInfo \<Rightarrow> u64" where
  "ei_FromEpoch ei = er_From (ei_currentEra ei)"

definition ei_EpochsPerEra :: "EraInfo \<Rightarrow> u64" where
  "ei_EpochsPerEra ei = er_To (ei_currentEra ei) - er_From (ei_currentEra ei) + 1"

text \<open>An overflowing slot calculation is answered with slot 0.\<close>

definition slot_or_zero :: "u64 res \<Rightarrow> u64" where
  "slot_or_zero r = (case r of Ok slot \<Rightarrow> slot | _ \<Rightarrow> 0)"

definition ei_FirstSlot :: "SlotInfo \<Rightarrow> EraInfo \<Rightarrow> u64" where
  "ei_FirstSlot si ei = slot_or_zero (SlotOfEpochStart si (ei_FromEpoch ei))"

definition ei_LastSlot :: "SlotInfo \<Rightarrow> EraInfo \<Rightarrow> u64" where
  "ei_LastSlot si ei = slot_or_zero (SlotOfEpochEnd si (ei_ToEpoch ei))"

definition ei_IsTransitionPeriodEpoch :: "ChainConfig \<Rightarrow> EraInfo \<Rightarrow> u64 \<Rightarrow> bool" where
  "ei_IsTransitionPeriodEpoch c ei epoch \<longleftrightarrow>
     epoch \<ge> ei_ToEpoch ei - TransitionPeriod c \<and> epoch \<le> ei_ToEpoch ei"

definition ei_IsTransitionPeriodStartEpoch :: "ChainConfig \<Rightarrow> EraInfo \<Rightarrow> u64 \<Rightarrow> bool" where
  "ei_IsTransitionPeriodStartEpoch c ei epoch \<longleftrightarrow> epoch = ei_ToEpoch ei - TransitionPeriod c"

definition ei_IsTransitionPeriodStartSlot :: "ChainConfig \<Rightarrow> SlotInfo \<Rightarrow> EraInfo \<Rightarrow> u64 \<Rightarrow> bool res" where
  "ei_IsTransitionPeriodStartSlot c si ei slot =
     (let transitionEpoch = ei_ToEpoch ei + 1 - TransitionPeriod c in
      rbind (SlotToEpoch si slot) (\<lambda>currentEpoch.
      if currentEpoch = transitionEpoch then IsEpochStart si slot else Ok False))"

definition ei_NextEraFirstEpoch :: "EraInfo \<Rightarrow> u64" where
  "ei_NextEraFirstEpoch ei = ei_ToEpoch ei + 1"

definition ei_NextEraFirstSlot :: "SlotInfo \<Rightarrow> EraInfo \<Rightarrow> u64" where
  "ei_NextEraFirstSlot si ei = slot_or_zero (SlotOfEpochStart si (ei_NextEraFirstEpoch ei))"

definition ei_LenSlots :: "EraInfo \<Rightarrow> u64" where
  "ei_LenSlots ei = ei_length ei * 32"

definition ei_IsContainsEpoch :: "EraInfo \<Rightarrow> u64 \<Rightarrow> bool" where
  "ei_IsContainsEpoch ei epoch \<longleftrightarrow> epoch \<ge> ei_FromEpoch ei \<and> epoch \<le> ei_ToEpoch ei"

text \<open>
  The quotient is computed in \<^verbatim>\<open>float64\<close> and rounded up. For a dividend and a divisor that are
  integers below \<open>2 ^ 53\<close>, where every step before the division is exact and the distance of a
  non-integral quotient to the next integer exceeds the rounding error, this is the integral
  ceiling; the theorems that use it carry that bound. A zero divisor gives a conversion of an
  infinity, which Go leaves open: the model has no value for it.
\<close>

definition roundUp_div :: "nat \<Rightarrow> nat \<Rightarrow> nat" where
  "roundUp_div a b = (a + b - 1) div b"

definition float_exact :: "ChainConfig \<Rightarrow> u64 \<Rightarrow> bool" where
  "float_exact c n \<longleftrightarrow> unat n < 2 ^ 53 \<and>
     unat (EpochsPerEra c) * unat (cfg_SlotsPerEpoch c) * unat (ValidatorsPerSlot c) < 2 ^ 53 \<and>
     EpochsPerEra c > 0 \<and> cfg_SlotsPerEpoch c > 0 \<and> ValidatorsPerSlot c > 0"

definition EstimateEraLength :: "ChainConfig \<Rightarrow> u64 \<Rightarrow> u64 \<Rightarrow> u64" where
  "EstimateEraLength c numberOfValidators eraNumber =
     (if eraNumber \<ge> StartEpochsPerEra c then EpochsPerEra c
      else EpochsPerEra c *
        word_of_nat (roundUp_div (unat numberOfValidators)
          (unat (EpochsPerEra c) * unat (cfg_SlotsPerEpoch c) * unat (ValidatorsPerSlot c))))"

definition NextEra :: "ChainConfig \<Rightarrow> EraInfo \<Rightarrow> hash \<Rightarrow> hash \<Rightarrow> u64 \<Rightarrow> Era" where
  "NextEra c ei root blockHash numValidators =
     (let nextEraNumber = ei_Number ei + 1;
          nextEraLength = EstimateEraLength c numValidators nextEraNumber;
          nextEraBegin = ei_ToEpoch ei + 1;
          nextEraEnd = ei_ToEpoch ei + nextEraLength
      in NewEra nextEraNumber nextEraBegin nextEraEnd root blockHash)"

section \<open>Era lengths\<close>

lemma roundUp_div_mult: "0 < b \<Longrightarrow> a \<le> roundUp_div a b * b" "0 < b \<Longrightarrow> roundUp_div a b * b < a + b"
proof -
  assume b: "0 < b"
  have "(a + b - 1) div b * b + (a + b - 1) mod b = a + b - 1" by simp
  moreover have "(a + b - 1) mod b < b" using b by simp
  ultimately show "a \<le> roundUp_div a b * b" "roundUp_div a b * b < a + b"
    using b unfolding roundUp_div_def by linarith+
qed

text \<open>C27. Eras are adjacent: the next era has the next number and starts at the epoch after the
  current one ends. Its length is a multiple of the configured length; in the growing regime it has
  room for every validator to be assigned once, and for no whole further configured length.\<close>

theorem NextEra_adjacent:
  assumes "float_exact c n" "er_To (ei_currentEra ei) < 2 ^ 62" "e = NextEra c ei root bh n"
  shows "er_Number e = er_Number (ei_currentEra ei) + 1 \<and>
    unat (er_From e) = unat (er_To (ei_currentEra ei)) + 1 \<and>
    (\<exists>k. unat (er_To e) + 1 = unat (er_From e) + k * unat (EpochsPerEra c) \<and>
       (if StartEpochsPerEra c \<le> er_Number e then k = 1
        else unat n \<le> k * (unat (EpochsPerEra c) * unat (cfg_SlotsPerEpoch c) * unat (ValidatorsPerSlot c)) \<and>
          k * (unat (EpochsPerEra c) * unat (cfg_SlotsPerEpoch c) * unat (ValidatorsPerSlot c)) <
            unat n + unat (EpochsPerEra c) * unat (cfg_SlotsPerEpoch c) * unat (ValidatorsPerSlot c)))"
proof -
  let ?E = "unat (EpochsPerEra c)" and ?sv = "unat (cfg_SlotsPerEpoch c) * unat (ValidatorsPerSlot c)"
  let ?P = "?E * unat (cfg_SlotsPerEpoch c) * unat (ValidatorsPerSlot c)" and ?T = "er_To (ei_currentEra ei)"
  let ?k = "if StartEpochsPerEra c \<le> er_Number (ei_currentEra ei) + 1 then 1 else roundUp_div (unat n) ?P"
  have f: "unat n < 2 ^ 53" "?P < 2 ^ 53" "0 < ?E" "0 < ?sv" "0 < ?P"
    using assms(1) by (simp_all add: float_exact_def word_less_nat_alt)
  have EP: "x * ?E \<le> x * ?P" for x using f(4) by (simp add: mult.assoc)
  have k: "unat n \<le> roundUp_div (unat n) ?P * ?P" "roundUp_div (unat n) ?P * ?P < unat n + ?P"
    using roundUp_div_mult[OF f(5)] by blast+
  have "?k * ?E < 2 ^ 54"
  proof (cases "StartEpochsPerEra c \<le> er_Number (ei_currentEra ei) + 1")
    case True
    have "?E \<le> ?P" using EP[of 1] unfolding mult_1 .
    then have "?E < 2 ^ 53" using f(2) by (rule le_less_trans)
    then show ?thesis using True by simp
  next
    case False
    have "roundUp_div (unat n) ?P * ?E < unat n + ?P" using EP k(2) by (rule le_less_trans)
    then show ?thesis using False f(1,2) by simp
  qed
  moreover have T: "unat ?T < 2 ^ 62" using assms(2) by (simp add: word_less_nat_alt)
  moreover have len: "EstimateEraLength c n (er_Number (ei_currentEra ei) + 1) = word_of_nat (?k * ?E)"
    by (simp add: EstimateEraLength_def ei_Number_def)
  ultimately have "unat (?T + EstimateEraLength c n (er_Number (ei_currentEra ei) + 1)) = unat ?T + ?k * ?E"
    by (simp only: unat_word_ariths(1) unat_of_nat len) (simp del: unat_of_nat)
  moreover have "unat (?T + 1) = unat ?T + 1" using T by (simp add: unat_word_ariths(1))
  ultimately show ?thesis using k
    by (auto simp: assms(3) NextEra_def NewEra_def Let_def ei_Number_def ei_ToEpoch_def simp del: unat_of_nat intro!: exI[of _ ?k])
qed

definition sample_config :: ChainConfig where
  "sample_config = \<lparr>cfg_SlotsPerEpoch = 32, EpochsPerEra = 16, TransitionPeriod = 2,
     ValidatorsStateAddress = replicate 20 9, ValidatorsPerSlot = 4, EffectiveBalance = 32000,
     ValidatorOpExpireSlots = 14400, ForkSlotSubNet1 = - 1, ForkSlotDelegate = 100, ForkSlotPrefixFin = 0,
     ForkSlotValOpTracking = 200, ForkSlotReduceBaseFee = 300, ForkSlotValSyncProc = 400, StartEpochsPerEra = 1000\<rparr>"

definition sample_era :: Era where
  "sample_era = NewEra 5 64 79 (replicate 32 1) (replicate 32 2)"

theorem NextEra_adjacent_witness:
  "float_exact sample_config 5000 \<and> er_From (NextEra sample_config (NewEraInfo sample_era) [] [] 5000) = 80"
proof -
  have "float_exact sample_config 5000" by (simp add: float_exact_def sample_config_def)
  moreover from NextEra_adjacent[OF this _ refl, of "NewEraInfo sample_era" "[]" "[]"]
  have "unat (er_From (NextEra sample_config (NewEraInfo sample_era) [] [] 5000)) = 80"
    by (simp add: NewEraInfo_def sample_era_def NewEra_def)
  ultimately show ?thesis by (simp add: word_unat_eq_iff)
qed

end
