(* ===== verification/Chain_Db.thy ===== *)
theory Chain_Db
  imports Schema Dag_Types Era
begin

text \<open>
  The accessors of the chain database (\<^verbatim>\<open>src/core/rawdb/accessors_chain.go\<close>) over the key-value
  store. The freezer, which holds old blocks outside the store, enters as the lookup \<open>ancient\<close>
  that the interface \<^verbatim>\<open>ethdb.AncientReader\<close> offers. \<^verbatim>\<open>log.Crit\<close> ends the process and is a panic here.
  Accessors that decode headers, bodies, receipts or JSON are not modelled.
\<close>

section \<open>The code\<close>

definition crit :: "('s, 'a) call \<Rightarrow> ('s, 'a) call" where
  "crit m s = (case m s of (Err e, s') \<Rightarrow> (Panic, s') | r \<Rightarrow> r)"

text \<open>A call that only logs a failure.\<close>

definition logged :: "('s, unit) call \<Rightarrow> ('s, unit) call" where
  "logged m s = (case m s of (Err e, s') \<Rightarrow> (Ok (), s') | r \<Rightarrow> r)"

text \<open>\<^verbatim>\<open>data, _ := db.Get(key)\<close>\<close>

definition get_data :: "Database \<Rightarrow> bytes \<Rightarrow> bytes" where
  "get_data db key = (case mdb_Get db key of Ok data \<Rightarrow> data | _ \<Rightarrow> [])"

definition ReadLastCanonicalHash :: "Database \<Rightarrow> hash" where
  "ReadLastCanonicalHash db =
     (let data = get_data db lastCanonicalHashKey in
      if length data = 0 then zero_array 32 else BytesToHash data)"

definition WriteLastCanonicalHash :: "hash \<Rightarrow> (Database, unit) call" where
  "WriteLastCanonicalHash hash = crit (mdb_Put lastCanonicalHashKey hash)"

definition ReadHeadFastBlockHash :: "Database \<Rightarrow> hash" where
  "ReadHeadFastBlockHash db =
     (let data = get_data db headFastBlockKey in
      if length data = 0 then zero_array 32 else BytesToHash data)"

definition WriteHeadFastBlockHash :: "hash \<Rightarrow> (Database, unit) call" where
  "WriteHeadFastBlockHash hash = crit (mdb_Put headFastBlockKey hash)"

definition ReadLastPivotNumber :: "Database \<Rightarrow> u64 option" where
  "ReadLastPivotNumber db =
     (let data = get_data db lastPivotKey in
      if length data = 0 then None
      else (case DecodeBytes (TUint 64) data of Ok (VUint pivot) \<Rightarrow> Some pivot | _ \<Rightarrow> None))"

definition WriteLastPivotNumber :: "u64 \<Rightarrow> (Database, unit) call" where
  "WriteLastPivotNumber pivot =
     sbind (crit (slift (EncodeToBytes (TUint 64) (VUint pivot)))) (\<lambda>enc.
     crit (mdb_Put lastPivotKey enc))"

definition ReadFastTrieProgress :: "Database \<Rightarrow> u64" where
  "ReadFastTrieProgress db =
     (let data = get_data db fastTrieProgressKey in
      if length data = 0 then 0 else word_of_nat (of_be data))"

definition WriteFastTrieProgress :: "u64 \<Rightarrow> (Database, unit) call" where
  "WriteFastTrieProgress n = crit (mdb_Put fastTrieProgressKey (min_be (unat n)))"

definition read_number :: "Database \<Rightarrow> bytes \<Rightarrow> u64 option" where
  "read_number db key =
     (let data = get_data db key in
      if length data \<noteq> 8 then None else Some (word_of_nat (of_be data)))"

definition ReadTxIndexTail :: "Database \<Rightarrow> u64 option" where
  "ReadTxIndexTail db = read_number db txIndexTailKey"

definition WriteTxIndexTail :: "u64 \<Rightarrow> (Database, unit) call" where
  "WriteTxIndexTail number = crit (mdb_Put txIndexTailKey (encodeBlockNumber number))"

definition ReadFastTxLookupLimit :: "Database \<Rightarrow> u64 option" where
  "ReadFastTxLookupLimit db = read_number db fastTxLookupLimitKey"

definition WriteFastTxLookupLimit :: "u64 \<Rightarrow> (Database, unit) call" where
  "WriteFastTxLookupLimit number = crit (mdb_Put fastTxLookupLimitKey (encodeBlockNumber number))"

text \<open>Finalised blocks.\<close>

definition ReadFinalizedNumberByHash :: "Database \<Rightarrow> hash \<Rightarrow> u64 option" where
  "ReadFinalizedNumberByHash db hash = read_number db (finNumberByHashKey hash)"

definition writeFinalizedNumberByHash :: "hash \<Rightarrow> u64 \<Rightarrow> (Database, unit) call" where
  "writeFinalizedNumberByHash hash height = crit (mdb_Put (finNumberByHashKey hash) (encodeBlockNumber height))"

definition deleteFinalizedNumberByHash :: "hash \<Rightarrow> (Database, unit) call" where
  "deleteFinalizedNumberByHash hash = crit (mdb_Delete (finNumberByHashKey hash))"

definition ReadFinalizedHashByNumber :: "Database \<Rightarrow> u64 \<Rightarrow> hash" where
  "ReadFinalizedHashByNumber db number = BytesToHash (get_data db (finHashByNumberKey number))"

definition writeFinalizedHashByNumber :: "u64 \<Rightarrow> hash \<Rightarrow> (Database, unit) call" where
  "writeFinalizedHashByNumber number hash = crit (mdb_Put (finHashByNumberKey number) hash)"

definition deleteFinalizedHashByNumber :: "u64 \<Rightarrow> (Database, unit) call" where
  "deleteFinalizedHashByNumber number = crit (mdb_Delete (finHashByNumberKey number))"

definition WriteFinalizedHashNumber :: "hash \<Rightarrow> u64 \<Rightarrow> (Database, unit) call" where
  "WriteFinalizedHashNumber hash number =
     sbind (writeFinalizedNumberByHash hash number) (\<lambda>_. writeFinalizedHashByNumber number hash)"

definition DeleteFinalizedHashNumber :: "hash \<Rightarrow> u64 \<Rightarrow> (Database, unit) call" where
  "DeleteFinalizedHashNumber hash number =
     sbind (deleteFinalizedNumberByHash hash) (\<lambda>_. deleteFinalizedHashByNumber number)"

definition ReadLastFinalizedHash :: "Database \<Rightarrow> hash" where
  "ReadLastFinalizedHash db = BytesToHash (get_data db lastFinalizedHashKey)"

definition WriteLastFinalizedHash :: "hash \<Rightarrow> (Database, unit) call" where
  "WriteLastFinalizedHash hash = crit (mdb_Put lastFinalizedHashKey hash)"

definition ReadLastFinalizedNumber :: "Database \<Rightarrow> u64" where
  "ReadLastFinalizedNumber db =
     (let hash = ReadLastFinalizedHash db in
      if hash = zero_array 32 then 0
      else (case ReadFinalizedNumberByHash db hash of None \<Rightarrow> 0 | Some nr \<Rightarrow> nr))"

text \<open>Headers, bodies and receipts in their stored form.\<close>

definition ancient_data :: "(string \<Rightarrow> u64 \<Rightarrow> bytes res) \<Rightarrow> string \<Rightarrow> u64 \<Rightarrow> bytes" where
  "ancient_data ancient kind number = (case ancient kind number of Ok data \<Rightarrow> data | _ \<Rightarrow> [])"

text \<open>A database without a freezer (\<^verbatim>\<open>nofreezedb\<close>) has no old blocks.\<close>

definition nofreezedb_Ancient :: "string \<Rightarrow> u64 \<Rightarrow> bytes res" where
  "nofreezedb_Ancient kind number = Err (Msg ''this operation is not supported'')"

definition ReadHeaderRLP :: "(bytes \<Rightarrow> hash) \<Rightarrow> (string \<Rightarrow> u64 \<Rightarrow> bytes res) \<Rightarrow> Database \<Rightarrow> hash \<Rightarrow> bytes" where
  "ReadHeaderRLP keccak ancient db hash =
     (let number = ReadFinalizedNumberByHash db hash;
          old = (case number of None \<Rightarrow> [] | Some n \<Rightarrow> ancient_data ancient ''headers'' n)
      in if length old > 0 then old
         else let data = get_data db (headerKey hash) in
              if length data > 0 then data
              else if length old > 0 \<and> keccak old = hash then old
              else [])"

text \<open>The freezer's bodies and receipts are used when the hash stored for the number is the one asked for.\<close>

definition ancient_checked :: "(string \<Rightarrow> u64 \<Rightarrow> bytes res) \<Rightarrow> string \<Rightarrow> u64 option \<Rightarrow> hash \<Rightarrow> bytes option" where
  "ancient_checked ancient kind number hash =
     (case number of
        None \<Rightarrow> None
      | Some n \<Rightarrow>
          let data = ancient_data ancient kind n in
          if length data > 0 \<and> BytesToHash (ancient_data ancient ''hashes'' n) = hash then Some data else None)"

definition read_rlp :: "(string \<Rightarrow> u64 \<Rightarrow> bytes res) \<Rightarrow> string \<Rightarrow> bytes \<Rightarrow> Database \<Rightarrow> hash \<Rightarrow> bytes" where
  "read_rlp ancient kind key db hash =
     (let number = ReadFinalizedNumberByHash db hash in
      case ancient_checked ancient kind number hash of
        Some data \<Rightarrow> data
      | None \<Rightarrow>
          let data = get_data db key in
          if length data > 0 then data
          else (case ancient_checked ancient kind number hash of Some data \<Rightarrow> data | None \<Rightarrow> []))"

definition ReadBodyRLP :: "(string \<Rightarrow> u64 \<Rightarrow> bytes res) \<Rightarrow> Database \<Rightarrow> hash \<Rightarrow> bytes" where
  "ReadBodyRLP ancient db hash = read_rlp ancient ''bodies'' (blockBodyKey hash) db hash"

definition ReadReceiptsRLP :: "(string \<Rightarrow> u64 \<Rightarrow> bytes res) \<Rightarrow> Database \<Rightarrow> hash \<Rightarrow> bytes" where
  "ReadReceiptsRLP ancient db hash = read_rlp ancient ''receipts'' (blockReceiptsKey hash) db hash"

definition ReadCanonicalBodyRLP :: "(string \<Rightarrow> u64 \<Rightarrow> bytes res) \<Rightarrow> Database \<Rightarrow> u64 \<Rightarrow> bytes" where
  "ReadCanonicalBodyRLP ancient db number =
     (let data = ancient_data ancient ''bodies'' number in
      if length data = 0 then
        let data = get_data db (blockBodyKey (ReadFinalizedHashByNumber db number)) in
        if length data = 0 then ancient_data ancient ''bodies'' number else data
      else data)"

definition has_entry :: "(string \<Rightarrow> u64 \<Rightarrow> bytes res) \<Rightarrow> bytes \<Rightarrow> Database \<Rightarrow> hash \<Rightarrow> bool" where
  "has_entry ancient key db hash =
     ((case ReadFinalizedNumberByHash db hash of
         None \<Rightarrow> False
       | Some n \<Rightarrow> (case ancient ''hashes'' n of Ok h \<Rightarrow> BytesToHash h = hash | _ \<Rightarrow> False)) \<or>
      mdb_Has db key = Ok True)"

definition HasHeader :: "(string \<Rightarrow> u64 \<Rightarrow> bytes res) \<Rightarrow> Database \<Rightarrow> hash \<Rightarrow> bool" where
  "HasHeader ancient db hash = has_entry ancient (headerKey hash) db hash"

definition HasBody :: "(string \<Rightarrow> u64 \<Rightarrow> bytes res) \<Rightarrow> Database \<Rightarrow> hash \<Rightarrow> bool" where
  "HasBody ancient db hash = has_entry ancient (blockBodyKey hash) db hash"

definition HasReceipts :: "(string \<Rightarrow> u64 \<Rightarrow> bytes res) \<Rightarrow> Database \<Rightarrow> hash \<Rightarrow> bool" where
  "HasReceipts ancient db hash = has_entry ancient (blockReceiptsKey hash) db hash"

definition WriteBodyRLP :: "hash \<Rightarrow> bytes \<Rightarrow> (Database, unit) call" where
  "WriteBodyRLP hash rlp = crit (mdb_Put (blockBodyKey hash) rlp)"

text \<open>\<^verbatim>\<open>WriteHeader\<close> clears the number of the header it is given.\<close>

definition WriteHeader :: "(bytes \<Rightarrow> hash) \<Rightarrow> Header \<Rightarrow> (Database, Header) call" where
  "WriteHeader keccak header =
     sbind (slift (Header_Hash keccak (Some header))) (\<lambda>hash.
     let header = header\<lparr>hd_Number := None\<rparr> in
     sbind (crit (slift (Header_encode (Some header)))) (\<lambda>data.
     sbind (crit (mdb_Put (headerKey hash) data)) (\<lambda>_. sret header)))"

definition deleteHeaderWithoutNumber :: "hash \<Rightarrow> (Database, unit) call" where
  "deleteHeaderWithoutNumber hash = crit (mdb_Delete (headerKey hash))"

definition DeleteHeader :: "hash \<Rightarrow> u64 option \<Rightarrow> (Database, unit) call" where
  "DeleteHeader hash finNr =
     sbind (deleteHeaderWithoutNumber hash) (\<lambda>_.
     case finNr of None \<Rightarrow> sret () | Some n \<Rightarrow> DeleteFinalizedHashNumber hash n)"

definition DeleteBody :: "hash \<Rightarrow> (Database, unit) call" where
  "DeleteBody hash = crit (mdb_Delete (blockBodyKey hash))"

definition DeleteReceipts :: "hash \<Rightarrow> (Database, unit) call" where
  "DeleteReceipts hash = crit (mdb_Delete (blockReceiptsKey hash))"

text \<open>Coordinated checkpoints and epochs. Storing no checkpoint deletes the entry and then
  reads the checkpoint through a nil pointer.\<close>

definition ReadLastCoordinatedCheckpoint :: "Database \<Rightarrow> Checkpoint option" where
  "ReadLastCoordinatedCheckpoint db =
     (case mdb_Get db lastCoordCpKey of
        Ok data \<Rightarrow> (case BytesToCheckpoint data of Ok cp \<Rightarrow> Some cp | _ \<Rightarrow> None)
      | _ \<Rightarrow> None)"

definition DeleteLastCoordinatedCheckpoint :: "(Database, unit) call" where
  "DeleteLastCoordinatedCheckpoint = logged (mdb_Delete lastCoordCpKey)"

definition WriteLastCoordinatedCheckpoint :: "Checkpoint option \<Rightarrow> (Database, unit) call" where
  "WriteLastCoordinatedCheckpoint checkpoint =
     sbind (if checkpoint = None then DeleteLastCoordinatedCheckpoint else sret ()) (\<lambda>_.
     case checkpoint of
       None \<Rightarrow> slift Panic
     | Some cp \<Rightarrow> crit (mdb_Put lastCoordCpKey (Checkpoint_Bytes cp)))"

definition ReadCoordinatedCheckpoint :: "Database \<Rightarrow> hash \<Rightarrow> Checkpoint option" where
  "ReadCoordinatedCheckpoint db cpSpine =
     (case mdb_Get db (coordCpKey cpSpine) of
        Ok data \<Rightarrow> (case BytesToCheckpoint data of Ok cp \<Rightarrow> Some cp | _ \<Rightarrow> None)
      | _ \<Rightarrow> None)"

definition WriteCoordinatedCheckpoint :: "Checkpoint \<Rightarrow> (Database, unit) call" where
  "WriteCoordinatedCheckpoint checkpoint =
     crit (mdb_Put (coordCpKey (cp_Spine checkpoint)) (Checkpoint_Bytes checkpoint))"

definition DeleteCoordinatedCheckpoint :: "hash \<Rightarrow> (Database, unit) call" where
  "DeleteCoordinatedCheckpoint cpSpine = crit (mdb_Delete (coordCpKey cpSpine))"

definition ReadEpoch :: "Database \<Rightarrow> u64 \<Rightarrow> hash" where
  "ReadEpoch db epoch = BytesToHash (get_data db (epochCpKey epoch))"

definition WriteEpoch :: "u64 \<Rightarrow> hash \<Rightarrow> (Database, unit) call" where
  "WriteEpoch epoch cpSpine = crit (mdb_Put (epochCpKey epoch) cpSpine)"

definition DeleteEpoch :: "u64 \<Rightarrow> (Database, unit) call" where
  "DeleteEpoch epoch = crit (mdb_Delete (epochCpKey epoch))"

text \<open>The block graph: its entries, tips and children.\<close>

definition ReadBlockDag :: "Database \<Rightarrow> hash \<Rightarrow> BlockDAG option res" where
  "ReadBlockDag db hash =
     (let data = get_data db (blockDagKey hash); minSize = 32 + 32 + 8 in
      if length data < minSize then Ok None
      else rbind (BlockDAG_SetBytes data) (\<lambda>b. Ok (Some b)))"

definition WriteBlockDag :: "BlockDAG \<Rightarrow> (Database, unit) call" where
  "WriteBlockDag blockDag = crit (mdb_Put (blockDagKey (bd_Hash blockDag)) (BlockDAG_ToBytes blockDag))"

definition DeleteBlockDag :: "hash \<Rightarrow> (Database, unit) call" where
  "DeleteBlockDag hash = crit (mdb_Delete (blockDagKey hash))"

definition ReadAllBlockDagHashes :: "Database \<Rightarrow> hash list" where
  "ReadAllBlockDagHashes db =
     it_collect (\<lambda>key _. if length key = length blockDagPrefix + 32
                         then [BytesToHash (drop (length key - 32) key)] else [])
       (mdb_NewIterator db blockDagPrefix [])"

definition ReadTipsHashes :: "Database \<Rightarrow> hash list" where
  "ReadTipsHashes db = HashArrayFromBytes (get_data db tipsHashesKey)"

definition WriteTipsHashes :: "hash list \<Rightarrow> (Database, unit) call" where
  "WriteTipsHashes hashes = crit (mdb_Put tipsHashesKey (ha_ToBytes (ha_Sort (ha_Uniq hashes))))"

definition ReadChildren :: "Database \<Rightarrow> hash \<Rightarrow> hash list" where
  "ReadChildren db parent = HashArrayFromBytes (get_data db (childrenKey parent))"

definition WriteChildren :: "hash \<Rightarrow> hash list \<Rightarrow> (Database, unit) call" where
  "WriteChildren parent children =
     crit (mdb_Put (childrenKey parent) (ha_ToBytes (ha_Sort (ha_Uniq children))))"

definition DeleteChildren :: "hash \<Rightarrow> (Database, unit) call" where
  "DeleteChildren parent = crit (mdb_Delete (childrenKey parent))"

definition DeleteBlock :: "hash \<Rightarrow> u64 option \<Rightarrow> (Database, unit) call" where
  "DeleteBlock hash finNr =
     sbind (DeleteReceipts hash) (\<lambda>_. sbind (DeleteHeader hash finNr) (\<lambda>_.
     sbind (DeleteBody hash) (\<lambda>_. sbind (DeleteChildren hash) (\<lambda>_. DeleteBlockDag hash))))"

definition DeleteBlockWithoutNumber :: "hash \<Rightarrow> (Database, unit) call" where
  "DeleteBlockWithoutNumber hash =
     sbind (DeleteReceipts hash) (\<lambda>_. sbind (deleteHeaderWithoutNumber hash) (\<lambda>_.
     sbind (DeleteBody hash) (\<lambda>_. sbind (DeleteChildren hash) (\<lambda>_. DeleteBlockDag hash))))"

text \<open>Eras. A failed encoding is only logged, and the era is then stored as no bytes. A failed
  decoding leaves the fields read before the failure, and the era is still returned.\<close>

definition era_type :: rtype where
  "era_type = TStruct [TUint 64, TUint 64, TUint 64, TByteArray 32, TByteArray 32]"

definition era_val :: "Era \<Rightarrow> rval" where
  "era_val e = VList [VUint (er_Number e), VUint (er_From e), VUint (er_To e), VBytes (er_Root e), VBytes (er_BlockHash e)]"

definition WriteEra :: "u64 \<Rightarrow> Era \<Rightarrow> (Database, unit) call" where
  "WriteEra number era =
     (let encoded = (case EncodeToBytes era_type (era_val era) of Ok b \<Rightarrow> b | _ \<Rightarrow> []) in
      logged (mdb_Put (eraKey number) encoded))"

primrec decodePartial :: "((Stream, rval) call \<times> rval) list \<Rightarrow> Stream \<Rightarrow> rval list" where
  "decodePartial [] s = []"
| "decodePartial (f # fs) s =
     (case fst f s of (Ok v, s1) \<Rightarrow> v # decodePartial fs s1 | _ \<Rightarrow> map snd (f # fs))"

definition era_fields :: "((Stream, rval) call \<times> rval) list" where
  "era_fields =
     [(decodeVal (TUint 64), VUint 0), (decodeVal (TUint 64), VUint 0), (decodeVal (TUint 64), VUint 0),
      (decodeVal (TByteArray 32), VBytes (zero_array 32)), (decodeVal (TByteArray 32), VBytes (zero_array 32))]"

definition decode_era :: "bytes \<Rightarrow> rval list" where
  "decode_era encoded =
     (case Stream_List (Stream_Reset encoded (word_of_nat (length encoded))) of
        (Ok _, s) \<Rightarrow> decodePartial era_fields s
      | _ \<Rightarrow> map snd era_fields)"

fun era_of :: "rval list \<Rightarrow> Era" where
  "era_of [VUint nr, VUint f, VUint t, VBytes r, VBytes b] = NewEra nr f t r b"
| "era_of _ = NewEra 0 0 0 (zero_array 32) (zero_array 32)"

definition ReadEra :: "Database \<Rightarrow> u64 \<Rightarrow> Era option" where
  "ReadEra db number =
     (case mdb_Get db (eraKey number) of Ok encoded \<Rightarrow> Some (era_of (decode_era encoded)) | _ \<Rightarrow> None)"

definition DeleteEra :: "u64 \<Rightarrow> (Database, unit) call" where
  "DeleteEra number = crit (mdb_Delete (eraKey number))"

definition ReadCurrentEra :: "Database \<Rightarrow> u64 res" where
  "ReadCurrentEra db = (case mdb_Get db currentEraPrefix of Ok valueBytes \<Rightarrow> beUint64 valueBytes | _ \<Rightarrow> Panic)"

definition WriteCurrentEra :: "u64 \<Rightarrow> (Database, unit) call" where
  "WriteCurrentEra number = logged (mdb_Put currentEraPrefix (bePut64 number))"

definition DeleteCurrentEra :: "(Database, unit) call" where
  "DeleteCurrentEra = logged (mdb_Delete currentEraPrefix)"

function FindEra :: "Database \<Rightarrow> u64 \<Rightarrow> Era option" where
  "FindEra db curEra =
     (if curEra > 0 then
        (case ReadEra db curEra of Some dbEra \<Rightarrow> Some dbEra | None \<Rightarrow> FindEra db (curEra - 1))
      else None)"
  by pat_completeness auto
termination
  by (relation "measure (\<lambda>(_, n). unat n)") (auto simp: unat_minus_one word_gt_0 unat_gt_0)

text \<open>Blocks by slot. The deletion loop goes on to the next index after removing an entry.\<close>

definition WriteSlotBlocksHashes :: "u64 \<Rightarrow> hash list \<Rightarrow> (Database, unit) call" where
  "WriteSlotBlocksHashes slot hashes = crit (mdb_Put (slotBlocksKey slot) (ha_ToBytes hashes))"

definition ReadSlotBlocksHashes :: "Database \<Rightarrow> u64 \<Rightarrow> hash list" where
  "ReadSlotBlocksHashes db slot = HashArrayFromBytes (get_data db (slotBlocksKey slot))"

function delete_slot_loop :: "hash \<Rightarrow> nat \<Rightarrow> hash list \<Rightarrow> hash list" where
  "delete_slot_loop hash i hashes =
     (if i < length hashes then
        if hashes ! i = hash then delete_slot_loop hash (Suc i) (take i hashes @ drop (Suc i) hashes)
        else delete_slot_loop hash (Suc i) hashes
      else hashes)"
  by pat_completeness auto
termination
  by (relation "measure (\<lambda>(_, i, hashes). length hashes - i)") auto

definition DeleteSlotBlockHash :: "u64 \<Rightarrow> hash \<Rightarrow> (Database, unit) call" where
  "DeleteSlotBlockHash slot hash db =
     WriteSlotBlocksHashes slot (delete_slot_loop hash 0 (ReadSlotBlocksHashes db slot)) db"

definition AddSlotBlockHash :: "u64 \<Rightarrow> hash \<Rightarrow> (Database, unit) call" where
  "AddSlotBlockHash slot blockHash db =
     (let hashes = ReadSlotBlocksHashes db slot in
      if list_ex (\<lambda>hash. hash = blockHash) hashes then (Ok (), db)
      else WriteSlotBlocksHashes slot (hashes @ [blockHash]) db)"

declare FindEra.simps [simp del] delete_slot_loop.simps [simp del]

end
