(* ===== verification/Chain_Db_Correct.thy ===== *)
theory Chain_Db_Correct
  imports Chain_Db Operation_Correct
begin

text \<open>
  What the chain database promises: an abstract view, with one map for every kind of entry that
  \<open>Chain_Db\<close> reads, headers, bodies and receipts among them, and for every writing accessor of
  \<open>Chain_Db\<close> its effect on the view, panics included. The laws of the key-value store and the
  injectivity of the keys give the refinement; the codecs of the entries give the values read
  back. The store has no freezer, so that what is read is what was written.
\<close>

section \<open>Reading and writing cells\<close>

definition data_of :: "bytes option \<Rightarrow> bytes" where
  "data_of vo = (case vo of None \<Rightarrow> [] | Some d \<Rightarrow> d)"

lemma get_data_content: "mdb_opened db \<Longrightarrow> get_data db key = data_of (mdb_content db key)"
  by (simp add: get_data_def data_of_def mdb.Get_content split: option.splits)

text \<open>A call that sets one cell.\<close>

definition sets :: "(Database, unit) call \<Rightarrow> dbkey \<Rightarrow> bytes option \<Rightarrow> Database \<Rightarrow> bool" where
  "sets m k vo db \<longleftrightarrow>
     (\<exists>db'. m db = (Ok (), db') \<and> mdb_opened db' \<and> mdb_content db' = (mdb_content db)(key_bytes k := vo))"

lemma crit_Ok: "m s = (Ok a, s') \<Longrightarrow> crit m s = (Ok a, s')"
  by (simp add: crit_def)

lemma logged_Ok: "m s = (Ok (), s') \<Longrightarrow> logged m s = (Ok (), s')"
  by (simp add: logged_def)

lemma sets_Put:
  assumes "mdb_opened db" "key = key_bytes k"
  shows "sets (crit (mdb_Put key v)) k (Some v) db" "sets (logged (mdb_Put key v)) k (Some v) db"
  using mdb.Put_content[OF assms(1), of key v] assms(2) by (auto simp: sets_def dest: crit_Ok logged_Ok)

lemma sets_Delete:
  assumes "mdb_opened db" "key = key_bytes k"
  shows "sets (crit (mdb_Delete key)) k None db" "sets (logged (mdb_Delete key)) k None db"
  using mdb.Delete_content[OF assms(1), of key] assms(2) by (auto simp: sets_def dest: crit_Ok logged_Ok)

section \<open>The view\<close>

record chain_view =
  cv_finNumber :: "hash \<Rightarrow> u64 option"
  cv_finHash :: "u64 \<Rightarrow> hash"
  cv_lastFin :: hash
  cv_canonical :: hash
  cv_children :: "hash \<Rightarrow> hash list"
  cv_dag :: "hash \<Rightarrow> BlockDAG option res"
  cv_tips :: "hash list"
  cv_slots :: "u64 \<Rightarrow> hash list"
  cv_epochs :: "u64 \<Rightarrow> hash"
  cv_checkpoints :: "hash \<Rightarrow> Checkpoint option"
  cv_lastCp :: "Checkpoint option"
  cv_eras :: "u64 \<Rightarrow> Era option"
  cv_currentEra :: "u64 res"
  cv_headers :: "hash \<Rightarrow> bytes option"
  cv_bodies :: "hash \<Rightarrow> bytes option"
  cv_receipts :: "hash \<Rightarrow> bytes option"
  cv_headFast :: hash
  cv_pivot :: "u64 option"
  cv_trieProgress :: u64
  cv_txTail :: "u64 option"
  cv_txLimit :: "u64 option"

text \<open>Hashes are arrays of 32 bytes; maps from hashes are fixed elsewhere.\<close>

definition on32 :: "'a \<Rightarrow> (hash \<Rightarrow> 'a) \<Rightarrow> hash \<Rightarrow> 'a" where
  "on32 d f h = (if length h = 32 then f h else d)"

text \<open>Stored bytes as the presence test and the reader of the database without freezer show them. Its
  header reader compares no hashes, so the hash function it is given does not matter.\<close>

definition stored :: "bool \<Rightarrow> bytes \<Rightarrow> bytes option" where
  "stored has data = (if has then Some data else None)"

lemma ReadHeaderRLP_nofreezedb: "ReadHeaderRLP keccak nofreezedb_Ancient db h = get_data db (headerKey h)"
  by (simp add: ReadHeaderRLP_def nofreezedb_Ancient_def ancient_data_def Let_def split: option.splits)

definition view :: "Database \<Rightarrow> chain_view" where
  "view db =
     \<lparr>cv_finNumber = on32 None (ReadFinalizedNumberByHash db), cv_finHash = ReadFinalizedHashByNumber db,
      cv_lastFin = ReadLastFinalizedHash db, cv_canonical = ReadLastCanonicalHash db,
      cv_children = on32 [] (ReadChildren db), cv_dag = on32 Panic (ReadBlockDag db),
      cv_tips = ReadTipsHashes db, cv_slots = ReadSlotBlocksHashes db, cv_epochs = ReadEpoch db,
      cv_checkpoints = on32 None (ReadCoordinatedCheckpoint db), cv_lastCp = ReadLastCoordinatedCheckpoint db,
      cv_eras = ReadEra db, cv_currentEra = ReadCurrentEra db,
      cv_headers = on32 None (\<lambda>h. stored (HasHeader nofreezedb_Ancient db h) (ReadHeaderRLP BytesToHash nofreezedb_Ancient db h)),
      cv_bodies = on32 None (\<lambda>h. stored (HasBody nofreezedb_Ancient db h) (ReadBodyRLP nofreezedb_Ancient db h)),
      cv_receipts = on32 None (\<lambda>h. stored (HasReceipts nofreezedb_Ancient db h) (ReadReceiptsRLP nofreezedb_Ancient db h)),
      cv_headFast = ReadHeadFastBlockHash db, cv_pivot = ReadLastPivotNumber db,
      cv_trieProgress = ReadFastTrieProgress db, cv_txTail = ReadTxIndexTail db,
      cv_txLimit = ReadFastTxLookupLimit db\<rparr>"

definition number_of :: "bytes \<Rightarrow> u64 option" where
  "number_of d = (if length d \<noteq> 8 then None else Some (word_of_nat (of_be d)))"

definition dag_of :: "bytes \<Rightarrow> BlockDAG option res" where
  "dag_of d = (if length d < 72 then Ok None else rbind (BlockDAG_SetBytes d) (\<lambda>b. Ok (Some b)))"

definition checkpoint_of :: "bytes option \<Rightarrow> Checkpoint option" where
  "checkpoint_of vo =
     (case vo of None \<Rightarrow> None | Some d \<Rightarrow> (case BytesToCheckpoint d of Ok cp \<Rightarrow> Some cp | _ \<Rightarrow> None))"

definition pivot_of :: "bytes \<Rightarrow> u64 option" where
  "pivot_of d =
     (if length d = 0 then None else (case DecodeBytes (TUint 64) d of Ok (VUint pivot) \<Rightarrow> Some pivot | _ \<Rightarrow> None))"

definition current_era_of :: "bytes option \<Rightarrow> u64 res" where
  "current_era_of vo = (case vo of None \<Rightarrow> Panic | Some d \<Rightarrow> beUint64 d)"

fun upd_view :: "dbkey \<Rightarrow> bytes option \<Rightarrow> chain_view \<Rightarrow> chain_view" where
  "upd_view (FinNumberByHashKey h) vo v = v\<lparr>cv_finNumber := (cv_finNumber v)(h := number_of (data_of vo))\<rparr>"
| "upd_view (FinHashByNumberKey n) vo v = v\<lparr>cv_finHash := (cv_finHash v)(n := BytesToHash (data_of vo))\<rparr>"
| "upd_view LastFinalizedHashKey vo v = v\<lparr>cv_lastFin := BytesToHash (data_of vo)\<rparr>"
| "upd_view LastCanonicalHashKey vo v = v\<lparr>cv_canonical := BytesToHash (data_of vo)\<rparr>"
| "upd_view (ChildrenKey h) vo v = v\<lparr>cv_children := (cv_children v)(h := HashArrayFromBytes (data_of vo))\<rparr>"
| "upd_view (BlockDagKey h) vo v = v\<lparr>cv_dag := (cv_dag v)(h := dag_of (data_of vo))\<rparr>"
| "upd_view TipsHashesKey vo v = v\<lparr>cv_tips := HashArrayFromBytes (data_of vo)\<rparr>"
| "upd_view (SlotBlocksKey n) vo v = v\<lparr>cv_slots := (cv_slots v)(n := HashArrayFromBytes (data_of vo))\<rparr>"
| "upd_view (EpochCpKey n) vo v = v\<lparr>cv_epochs := (cv_epochs v)(n := BytesToHash (data_of vo))\<rparr>"
| "upd_view (CoordCpKey h) vo v = v\<lparr>cv_checkpoints := (cv_checkpoints v)(h := checkpoint_of vo)\<rparr>"
| "upd_view LastCoordCpKey vo v = v\<lparr>cv_lastCp := checkpoint_of vo\<rparr>"
| "upd_view (EraKey n) vo v = v\<lparr>cv_eras := (cv_eras v)(n := map_option (\<lambda>d. era_of (decode_era d)) vo)\<rparr>"
| "upd_view CurrentEraPrefix vo v = v\<lparr>cv_currentEra := current_era_of vo\<rparr>"
| "upd_view (HeaderKey h) vo v = v\<lparr>cv_headers := (cv_headers v)(h := vo)\<rparr>"
| "upd_view (BlockBodyKey h) vo v = v\<lparr>cv_bodies := (cv_bodies v)(h := vo)\<rparr>"
| "upd_view (BlockReceiptsKey h) vo v = v\<lparr>cv_receipts := (cv_receipts v)(h := vo)\<rparr>"
| "upd_view HeadFastBlockKey vo v = v\<lparr>cv_headFast := BytesToHash (data_of vo)\<rparr>"
| "upd_view LastPivotKey vo v = v\<lparr>cv_pivot := pivot_of (data_of vo)\<rparr>"
| "upd_view FastTrieProgressKey vo v = v\<lparr>cv_trieProgress := word_of_nat (of_be (data_of vo))\<rparr>"
| "upd_view TxIndexTailKey vo v = v\<lparr>cv_txTail := number_of (data_of vo)\<rparr>"
| "upd_view FastTxLookupLimitKey vo v = v\<lparr>cv_txLimit := number_of (data_of vo)\<rparr>"
| "upd_view _ vo v = v"

text \<open>The view in terms of cells.\<close>

lemma stored_nofreezedb:
  assumes "mdb_opened db"
  shows "stored (has_entry nofreezedb_Ancient key db h) (get_data db key) = mdb_content db key"
    "read_rlp nofreezedb_Ancient kind key db h = get_data db key"
proof -
  have a: "ancient_checked nofreezedb_Ancient kind nr h = None" for nr kind
    by (simp add: ancient_checked_def nofreezedb_Ancient_def ancient_data_def split: option.splits)
  show "read_rlp nofreezedb_Ancient kind key db h = get_data db key" by (simp add: read_rlp_def a Let_def)
  have "has_entry nofreezedb_Ancient key db h \<longleftrightarrow> mdb_content db key \<noteq> None"
    using mdb.Has_content[OF assms, of key]
    by (simp add: has_entry_def nofreezedb_Ancient_def split: option.splits)
  then show "stored (has_entry nofreezedb_Ancient key db h) (get_data db key) = mdb_content db key"
    using get_data_content[OF assms, of key] by (auto simp: stored_def data_of_def)
qed

lemma view_cells:
  assumes "mdb_opened db"
  shows "view db =
    \<lparr>cv_finNumber = on32 None (\<lambda>h. number_of (data_of (mdb_content db (key_bytes (FinNumberByHashKey h))))),
     cv_finHash = (\<lambda>n. BytesToHash (data_of (mdb_content db (key_bytes (FinHashByNumberKey n))))),
     cv_lastFin = BytesToHash (data_of (mdb_content db (key_bytes LastFinalizedHashKey))),
     cv_canonical = BytesToHash (data_of (mdb_content db (key_bytes LastCanonicalHashKey))),
     cv_children = on32 [] (\<lambda>h. HashArrayFromBytes (data_of (mdb_content db (key_bytes (ChildrenKey h))))),
     cv_dag = on32 Panic (\<lambda>h. dag_of (data_of (mdb_content db (key_bytes (BlockDagKey h))))),
     cv_tips = HashArrayFromBytes (data_of (mdb_content db (key_bytes TipsHashesKey))),
     cv_slots = (\<lambda>n. HashArrayFromBytes (data_of (mdb_content db (key_bytes (SlotBlocksKey n))))),
     cv_epochs = (\<lambda>n. BytesToHash (data_of (mdb_content db (key_bytes (EpochCpKey n))))),
     cv_checkpoints = on32 None (\<lambda>h. checkpoint_of (mdb_content db (key_bytes (CoordCpKey h)))),
     cv_lastCp = checkpoint_of (mdb_content db (key_bytes LastCoordCpKey)),
     cv_eras = (\<lambda>n. map_option (\<lambda>d. era_of (decode_era d)) (mdb_content db (key_bytes (EraKey n)))),
     cv_currentEra = current_era_of (mdb_content db (key_bytes CurrentEraPrefix)),
     cv_headers = on32 None (\<lambda>h. mdb_content db (key_bytes (HeaderKey h))),
     cv_bodies = on32 None (\<lambda>h. mdb_content db (key_bytes (BlockBodyKey h))),
     cv_receipts = on32 None (\<lambda>h. mdb_content db (key_bytes (BlockReceiptsKey h))),
     cv_headFast = BytesToHash (data_of (mdb_content db (key_bytes HeadFastBlockKey))),
     cv_pivot = pivot_of (data_of (mdb_content db (key_bytes LastPivotKey))),
     cv_trieProgress = word_of_nat (of_be (data_of (mdb_content db (key_bytes FastTrieProgressKey)))),
     cv_txTail = number_of (data_of (mdb_content db (key_bytes TxIndexTailKey))),
     cv_txLimit = number_of (data_of (mdb_content db (key_bytes FastTxLookupLimitKey)))\<rparr>"
proof -
  have z: "(if length d = 0 then zero_array 32 else BytesToHash d) = BytesToHash d" for d
    by (cases d) (simp_all add: BytesToHash_def setBytes_def)
  note get = get_data_content[OF assms] mdb.Get_content[OF assms]
  have "ReadFinalizedNumberByHash db = (\<lambda>h. number_of (data_of (mdb_content db (key_bytes (FinNumberByHashKey h)))))"
    by (simp add: fun_eq_iff ReadFinalizedNumberByHash_def read_number_def number_of_def Let_def get)
  moreover have "ReadFinalizedHashByNumber db = (\<lambda>n. BytesToHash (data_of (mdb_content db (key_bytes (FinHashByNumberKey n)))))"
    "ReadEpoch db = (\<lambda>n. BytesToHash (data_of (mdb_content db (key_bytes (EpochCpKey n)))))"
    by (simp_all add: fun_eq_iff ReadFinalizedHashByNumber_def ReadEpoch_def get)
  moreover have "ReadLastCanonicalHash db = BytesToHash (data_of (mdb_content db (key_bytes LastCanonicalHashKey)))"
    unfolding ReadLastCanonicalHash_def Let_def z by (simp add: get)
  moreover have "ReadChildren db = (\<lambda>h. HashArrayFromBytes (data_of (mdb_content db (key_bytes (ChildrenKey h)))))"
    "ReadSlotBlocksHashes db = (\<lambda>n. HashArrayFromBytes (data_of (mdb_content db (key_bytes (SlotBlocksKey n)))))"
    by (simp_all add: fun_eq_iff ReadChildren_def ReadSlotBlocksHashes_def get)
  moreover have "ReadBlockDag db = (\<lambda>h. dag_of (data_of (mdb_content db (key_bytes (BlockDagKey h)))))"
    by (simp add: fun_eq_iff ReadBlockDag_def dag_of_def Let_def get)
  moreover have "ReadCoordinatedCheckpoint db = (\<lambda>h. checkpoint_of (mdb_content db (key_bytes (CoordCpKey h))))"
    "ReadLastCoordinatedCheckpoint db = checkpoint_of (mdb_content db (key_bytes LastCoordCpKey))"
    by (simp_all add: fun_eq_iff ReadCoordinatedCheckpoint_def ReadLastCoordinatedCheckpoint_def checkpoint_of_def get
        split: option.splits)
  moreover have "ReadEra db = (\<lambda>n. map_option (\<lambda>d. era_of (decode_era d)) (mdb_content db (key_bytes (EraKey n))))"
    by (simp add: fun_eq_iff ReadEra_def get split: option.splits)
  moreover have "ReadCurrentEra db = current_era_of (mdb_content db (key_bytes CurrentEraPrefix))"
    by (simp add: ReadCurrentEra_def current_era_of_def get split: option.splits)
  moreover have "ReadHeadFastBlockHash db = BytesToHash (data_of (mdb_content db (key_bytes HeadFastBlockKey)))"
    unfolding ReadHeadFastBlockHash_def Let_def z by (simp add: get)
  moreover have "ReadLastPivotNumber db = pivot_of (data_of (mdb_content db (key_bytes LastPivotKey)))"
    "ReadFastTrieProgress db = word_of_nat (of_be (data_of (mdb_content db (key_bytes FastTrieProgressKey))))"
    "ReadTxIndexTail db = number_of (data_of (mdb_content db (key_bytes TxIndexTailKey)))"
    "ReadFastTxLookupLimit db = number_of (data_of (mdb_content db (key_bytes FastTxLookupLimitKey)))"
    by (simp_all add: ReadLastPivotNumber_def pivot_of_def ReadFastTrieProgress_def ReadTxIndexTail_def
        ReadFastTxLookupLimit_def read_number_def number_of_def Let_def get)
  moreover have "(\<lambda>h. stored (HasHeader nofreezedb_Ancient db h) (ReadHeaderRLP BytesToHash nofreezedb_Ancient db h)) =
      (\<lambda>h. mdb_content db (key_bytes (HeaderKey h)))"
    "(\<lambda>h. stored (HasBody nofreezedb_Ancient db h) (ReadBodyRLP nofreezedb_Ancient db h)) =
      (\<lambda>h. mdb_content db (key_bytes (BlockBodyKey h)))"
    "(\<lambda>h. stored (HasReceipts nofreezedb_Ancient db h) (ReadReceiptsRLP nofreezedb_Ancient db h)) =
      (\<lambda>h. mdb_content db (key_bytes (BlockReceiptsKey h)))"
    by (simp_all add: fun_eq_iff stored_nofreezedb[OF assms] HasHeader_def HasBody_def HasReceipts_def ReadHeaderRLP_nofreezedb
        ReadBodyRLP_def ReadReceiptsRLP_def)
  ultimately show ?thesis unfolding view_def by (simp add: ReadLastFinalizedHash_def ReadTipsHashes_def get)
qed

lemma on32_cong: "(\<And>h. length h = 32 \<Longrightarrow> f h = g h) \<Longrightarrow> on32 d f = on32 d g"
  by (auto simp: on32_def)

lemma on32_upd: "length h = 32 \<Longrightarrow> (on32 d f)(h := x) = on32 d (f(h := x))"
  by (auto simp: on32_def)

lemma view_sets:
  assumes "mdb_opened db" "mdb_opened db'" "wf_key k" "mdb_content db' = (mdb_content db)(key_bytes k := vo)"
  shows "view db' = upd_view k vo (view db)"
proof -
  have c: "mdb_content db' (key_bytes k') = (if k' = k then vo else mdb_content db (key_bytes k'))" if "wf_key k'" for k'
    using assms(3,4) that by simp
  note v = view_cells[OF assms(1)] view_cells[OF assms(2)]
  show ?thesis
    using assms(3)
    by (cases k) (simp_all add: v c on32_def fun_eq_iff del: key_bytes.simps cong: if_cong)
qed

section \<open>Values read back\<close>

lemma number_of_put [simp]: "number_of (bePut64 n) = Some n" "number_of [] = None"
  by (simp_all add: number_of_def bePut64_def)

lemma hashes_32: "list_all (\<lambda>h. length h = 32) (HashArrayFromBytes d)"
proof -
  have "list_all (\<lambda>h. length h = 32) (HashArrayFromBytes_loop n d)" for n d
    by (induction n d rule: HashArrayFromBytes_loop.induct) auto
  then show ?thesis by (simp add: HashArrayFromBytes_def)
qed

lemma sorted_hashes:
  assumes "list_all (\<lambda>h. length h = 32) hs"
  shows "HashArrayFromBytes (ha_ToBytes (ha_Sort (ha_Uniq hs))) = sorted_list_of_set (set hs)"
proof -
  have u: "\<forall>h \<in> set (ha_Uniq hs). length h = 32" using assms by (simp add: uniq_distinct(2) list_all_iff)
  have "sort (ha_Uniq hs) = sorted_list_of_set (set hs)"
    by (rule sorted_distinct_set_unique) (simp_all add: uniq_distinct)
  moreover have "HashArrayFromBytes (ha_ToBytes (sort (ha_Uniq hs))) = sort (ha_Uniq hs)"
    by (rule HashArrayFromBytes_inverse) (use u in \<open>simp add: list_all_iff\<close>)
  ultimately show ?thesis using ha_Sort_sort[OF u] by simp
qed

lemma dag_read_back: "blockdag_ok b \<Longrightarrow> dag_of (BlockDAG_ToBytes b) = Ok (Some b)"
  using BlockDAG_inverse[of b "[]"] by (simp add: dag_of_def BlockDAG_ToBytes_def blockdag_ok_def)

definition era_ok :: "Era \<Rightarrow> bool" where
  "era_ok e \<longleftrightarrow> length (er_Root e) = 32 \<and> length (er_BlockHash e) = 32"

lemma decodePartial_Ok: "decodeFields (map fst fs) s = (Ok vs, s') \<Longrightarrow> decodePartial fs s = vs"
  by (induction fs arbitrary: s vs s') (auto simp: sbind_eq_Ok split: prod.splits res.splits)

lemma era_read_back:
  assumes "era_ok e"
  shows "\<exists>b. EncodeToBytes era_type (era_val e) = Ok b \<and> era_of (decode_era b) = e"
proof -
  let ?u = "\<lambda>n :: u64. Str (min_be (unat n))"
  let ?items = "[?u (er_Number e), ?u (er_From e), ?u (er_To e), Str (er_Root e), Str (er_BlockHash e)]"
  let ?b = "enc (to_item era_type (era_val e))"
  have it: "to_item era_type (era_val e) = Lst ?items" by (simp add: era_type_def era_val_def)
  have u: "length (enc (?u n)) \<le> 41" for n
    using length_enc_Str[of "min_be (unat n)"] length_min_be_le[of "unat n" 8] unat_u64_less[of n] by simp
  have h: "length (enc (Str b)) \<le> 41" if "length b = 32" for b
    using length_enc_Str[of b] that by simp
  have "length (concat (map enc ?items)) \<le> 41 * length ?items"
    by (rule length_items_le) (use u h assms in \<open>auto simp: era_ok_def\<close>)
  then have l: "length ?b < 2 ^ 63" unfolding it using length_enc_Lst[of ?items] by simp
  have w: "wf_rtype era_type" "full era_type (era_val e)"
    using assms unat_u64_less by (simp_all add: era_type_def era_val_def uint_width_def era_ok_def)
  note r = rlp_roundtrip[OF w l]
  obtain s where "decodeVal era_type (Stream_Reset ?b (word_of_nat (length ?b))) = (Ok (era_val e), s)"
    using r(2) by (auto simp: DecodeBytes_def split: prod.splits res.splits if_splits)
  then have "decodeStruct (map decodeVal [TUint 64, TUint 64, TUint 64, TByteArray 32, TByteArray 32])
      (Stream_Reset ?b (word_of_nat (length ?b))) = (Ok [VUint (er_Number e), VUint (er_From e), VUint (er_To e),
        VBytes (er_Root e), VBytes (er_BlockHash e)], s)"
    unfolding era_type_def era_val_def decodeVal.simps(9) by (auto simp: sbind_eq_Ok)
  moreover have "map decodeVal [TUint 64, TUint 64, TUint 64, TByteArray 32, TByteArray 32] = map fst era_fields"
    by (simp add: era_fields_def)
  ultimately obtain z s1 s2 where "Stream_List (Stream_Reset ?b (word_of_nat (length ?b))) = (Ok z, s1)"
    "decodeFields (map fst era_fields) s1 = (Ok [VUint (er_Number e), VUint (er_From e), VUint (er_To e),
        VBytes (er_Root e), VBytes (er_BlockHash e)], s2)"
    unfolding decodeStruct_def by (auto simp only: sbind_eq_Ok sret_eq)
  then have "era_of (decode_era ?b) = e"
    using decodePartial_Ok[of era_fields s1] by (simp add: decode_era_def NewEra_def)
  then show ?thesis using r(1) by blast
qed

text \<open>What the deletion loop of a slot leaves: the entry after a removed one is not looked at.\<close>

fun drop_skip :: "hash \<Rightarrow> hash list \<Rightarrow> hash list" where
  "drop_skip h [] = []"
| "drop_skip h [x] = (if x = h then [] else [x])"
| "drop_skip h (x # y # xs) = (if x = h then y # drop_skip h xs else x # drop_skip h (y # xs))"

lemma drop_skip_absent: "h \<notin> set hs \<Longrightarrow> drop_skip h hs = hs"
  by (induction h hs rule: drop_skip.induct) auto

lemma drop_skip_distinct: "distinct hs \<Longrightarrow> drop_skip h hs = removeAll h hs"
  by (induction h hs rule: drop_skip.induct) (auto simp: drop_skip_absent removeAll_id)

lemma drop_skip_subset: "set (drop_skip h hs) \<subseteq> set hs"
  by (induction h hs rule: drop_skip.induct) auto

lemma delete_slot_loop_drop: "length p = i \<Longrightarrow> delete_slot_loop h i (p @ hs) = p @ drop_skip h hs"
proof (induction h hs arbitrary: i p rule: drop_skip.induct)
  case (1 h)
  then show ?case by (subst delete_slot_loop.simps) simp
next
  case (2 h x)
  then show ?case by (auto simp: delete_slot_loop.simps)
next
  case (3 h x y xs)
  show ?case
  proof (cases "x = h")
    case True
    have "delete_slot_loop h (Suc i) ((p @ [y]) @ xs) = (p @ [y]) @ drop_skip h xs"
      using True 3(3) by (intro 3(1)) simp_all
    then show ?thesis using True 3(3) by (subst delete_slot_loop.simps) auto
  next
    case False
    have "delete_slot_loop h (Suc i) ((p @ [x]) @ y # xs) = (p @ [x]) @ drop_skip h (y # xs)"
      using False 3(3) by (intro 3(2)) simp_all
    then show ?thesis using False 3(3) by (subst delete_slot_loop.simps) auto
  qed
qed

subsection \<open>Headers can be written\<close>

lemma writeFields_Ok:
  "list_all2 (\<lambda>t v. \<forall>w. \<exists>w'. writeVal t v w = Ok w') ts vs \<Longrightarrow> \<exists>w'. writeFields (map writeVal ts) vs w = Ok w'"
proof (induction ts vs arbitrary: w rule: list_all2_induct)
  case (Cons t ts v vs)
  obtain w1 where "writeVal t v w = Ok w1" using Cons(1) by blast
  then show ?case using Cons(3)[of w1] by simp
qed simp

lemma writeElems_Ok: "\<forall>v \<in> set vs. \<forall>w. \<exists>w'. wr v w = Ok w' \<Longrightarrow> \<exists>w'. writeElems wr vs w = Ok w'"
proof (induction vs arbitrary: w)
  case (Cons v vs)
  obtain w1 where "wr v w = Ok w1" using Cons(2) by fastforce
  then show ?case using Cons(1)[of w1] Cons(2) by simp
qed simp

lemma writeVal_Ok: "wt t v \<Longrightarrow> \<exists>w'. writeVal t v w = Ok w'"
proof (induction t arbitrary: v w)
  case (TSlice t)
  then obtain vs where v: "v = VList vs" by (cases v) auto
  then have "\<forall>x \<in> set vs. \<forall>w. \<exists>w'. writeVal t x w = Ok w'" using TSlice by (auto simp: list_all_iff)
  note e = writeElems_Ok[OF this]
  obtain lh w1 where "eb_list w = (lh, w1)" by fastforce
  then show ?case using e[of w1] v by (auto simp: Let_def)
next
  case (TStruct ts)
  then obtain vs where v: "v = VList vs" by (cases v) auto
  have a: "list_all2 wt ts vs" using TStruct.prems v by (simp add: list_all2_map1)
  then have "list_all2 (\<lambda>t v. \<forall>w. \<exists>w'. writeVal t v w = Ok w') ts vs"
    using TStruct.IH by (auto simp: list_all2_conv_all_nth)
  note f = writeFields_Ok[OF this]
  obtain lh w1 where "eb_list w = (lh, w1)" by fastforce
  then show ?case using f[of w1] v by auto
next
  case (TPtr t)
  then show ?case by (cases v) (auto split: option.splits)
next
  case TBigInt
  then show ?case by (cases v) (auto simp: writeBigInt_def Let_def split: option.splits)
next
  case TBigIntVal
  then show ?case by (cases v) (auto simp: writeBigInt_def Let_def split: option.splits)
qed (auto split: rval.splits)

lemma Header_encode_Ok:
  assumes "list_all2 wt header_types (header_vals h)"
  shows "\<exists>b. Header_encode (Some h) = Ok b"
proof -
  define n where "n = fieldCount 17 header_types (header_vals h) (length header_types)"
  have "list_all2 wt (take n header_types) (take n (header_vals h))" using assms by (rule list_all2_takeI)
  then have "list_all2 (\<lambda>t v. \<forall>w. \<exists>w'. writeVal t v w = Ok w') (take n header_types) (take n (header_vals h))"
    by (rule list_all2_mono) (simp add: writeVal_Ok)
  note f = writeFields_Ok[OF this]
  obtain lh w1 where "eb_list reset = (lh, w1)" by fastforce
  then show ?thesis using f[of w1]
    unfolding Header_encode_def option.case writeOptStruct_def n_def[symmetric] Let_def by auto
qed

lemma header_vals_wt:
  assumes "header_ok h"
  shows "list_all2 wt header_types (header_vals (h\<lparr>hd_Number := None\<rparr>))"
    "list_all2 wt header_types (header_vals (clearState h))"
  using assms by (simp_all add: header_types_def header_vals_def clearState_def header_ok_def nonneg_wt list_all_iff)

section \<open>The operations refine updates of the view\<close>

datatype chain_op =
    Finalize hash u64
  | Unfinalize hash u64
  | SetLastFinalized hash
  | SetCanonical hash
  | SetChildren hash "hash list"
  | PutDag BlockDAG
  | SetTips "hash list"
  | SetSlot u64 "hash list"
  | AddToSlot u64 hash
  | DropFromSlot u64 hash
  | SetEpoch u64 hash
  | DropEpoch u64
  | PutCheckpoint Checkpoint
  | DropCheckpoint hash
  | SetLastCheckpoint "Checkpoint option"
  | DropLastCheckpoint
  | PutEra u64 Era
  | DropEra u64
  | SetCurrentEra u64
  | DropCurrentEra
  | DropBlock hash "u64 option"
  | DropBlockOnly hash
  | PutHeader Header
  | DropHeader hash "u64 option"
  | PutBody hash bytes
  | DropBody hash
  | DropReceipts hash
  | DropChildren hash
  | DropDag hash
  | SetHeadFast hash
  | SetPivot u64
  | SetTrieProgress u64
  | SetTxTail u64
  | SetTxLimit u64

primrec run_op :: "(bytes \<Rightarrow> hash) \<Rightarrow> chain_op \<Rightarrow> (Database, unit) call" where
  "run_op keccak (Finalize h n) = WriteFinalizedHashNumber h n"
| "run_op keccak (Unfinalize h n) = DeleteFinalizedHashNumber h n"
| "run_op keccak (SetLastFinalized h) = WriteLastFinalizedHash h"
| "run_op keccak (SetCanonical h) = WriteLastCanonicalHash h"
| "run_op keccak (SetChildren p hs) = WriteChildren p hs"
| "run_op keccak (PutDag b) = WriteBlockDag b"
| "run_op keccak (SetTips hs) = WriteTipsHashes hs"
| "run_op keccak (SetSlot s hs) = WriteSlotBlocksHashes s hs"
| "run_op keccak (AddToSlot s h) = AddSlotBlockHash s h"
| "run_op keccak (DropFromSlot s h) = DeleteSlotBlockHash s h"
| "run_op keccak (SetEpoch e h) = WriteEpoch e h"
| "run_op keccak (DropEpoch e) = DeleteEpoch e"
| "run_op keccak (PutCheckpoint cp) = WriteCoordinatedCheckpoint cp"
| "run_op keccak (DropCheckpoint h) = DeleteCoordinatedCheckpoint h"
| "run_op keccak (SetLastCheckpoint cp) = WriteLastCoordinatedCheckpoint cp"
| "run_op keccak (PutEra n e) = WriteEra n e"
| "run_op keccak (DropEra n) = DeleteEra n"
| "run_op keccak (SetCurrentEra n) = WriteCurrentEra n"
| "run_op keccak DropCurrentEra = DeleteCurrentEra"
| "run_op keccak (DropBlock h nr) = DeleteBlock h nr"
| "run_op keccak DropLastCheckpoint = DeleteLastCoordinatedCheckpoint"
| "run_op keccak (DropBlockOnly h) = DeleteBlockWithoutNumber h"
| "run_op keccak (PutHeader header) = sbind (WriteHeader keccak header) (\<lambda>_. sret ())"
| "run_op keccak (DropHeader h nr) = DeleteHeader h nr"
| "run_op keccak (PutBody h b) = WriteBodyRLP h b"
| "run_op keccak (DropBody h) = DeleteBody h"
| "run_op keccak (DropReceipts h) = DeleteReceipts h"
| "run_op keccak (DropChildren h) = DeleteChildren h"
| "run_op keccak (DropDag h) = DeleteBlockDag h"
| "run_op keccak (SetHeadFast h) = WriteHeadFastBlockHash h"
| "run_op keccak (SetPivot n) = WriteLastPivotNumber n"
| "run_op keccak (SetTrieProgress n) = WriteFastTrieProgress n"
| "run_op keccak (SetTxTail n) = WriteTxIndexTail n"
| "run_op keccak (SetTxLimit n) = WriteFastTxLookupLimit n"

text \<open>Arguments of the types that the code gives them: arrays have their lengths, and a graph entry
  lists fewer than two to the 32 ancestors.\<close>

primrec op_ok :: "chain_op \<Rightarrow> bool" where
  "op_ok (Finalize h n) \<longleftrightarrow> length h = 32"
| "op_ok (Unfinalize h n) \<longleftrightarrow> length h = 32"
| "op_ok (SetLastFinalized h) \<longleftrightarrow> length h = 32"
| "op_ok (SetCanonical h) \<longleftrightarrow> length h = 32"
| "op_ok (SetChildren p hs) \<longleftrightarrow> length p = 32 \<and> list_all (\<lambda>h. length h = 32) hs"
| "op_ok (PutDag b) \<longleftrightarrow> blockdag_ok b"
| "op_ok (SetTips hs) \<longleftrightarrow> list_all (\<lambda>h. length h = 32) hs"
| "op_ok (SetSlot s hs) \<longleftrightarrow> list_all (\<lambda>h. length h = 32) hs"
| "op_ok (AddToSlot s h) \<longleftrightarrow> length h = 32"
| "op_ok (DropFromSlot s h) \<longleftrightarrow> length h = 32"
| "op_ok (SetEpoch e h) \<longleftrightarrow> length h = 32"
| "op_ok (DropEpoch e) \<longleftrightarrow> True"
| "op_ok (PutCheckpoint cp) \<longleftrightarrow> checkpoint_ok cp"
| "op_ok (DropCheckpoint h) \<longleftrightarrow> length h = 32"
| "op_ok (SetLastCheckpoint cp) \<longleftrightarrow> (case cp of None \<Rightarrow> True | Some c \<Rightarrow> checkpoint_ok c)"
| "op_ok DropLastCheckpoint \<longleftrightarrow> True"
| "op_ok (PutEra n e) \<longleftrightarrow> era_ok e"
| "op_ok (DropEra n) \<longleftrightarrow> True"
| "op_ok (SetCurrentEra n) \<longleftrightarrow> True"
| "op_ok DropCurrentEra \<longleftrightarrow> True"
| "op_ok (DropBlock h nr) \<longleftrightarrow> length h = 32"
| "op_ok (DropBlockOnly h) \<longleftrightarrow> length h = 32"
| "op_ok (PutHeader header) \<longleftrightarrow> True"
| "op_ok (DropHeader h nr) \<longleftrightarrow> length h = 32"
| "op_ok (PutBody h b) \<longleftrightarrow> length h = 32"
| "op_ok (DropBody h) \<longleftrightarrow> length h = 32"
| "op_ok (DropReceipts h) \<longleftrightarrow> length h = 32"
| "op_ok (DropChildren h) \<longleftrightarrow> length h = 32"
| "op_ok (DropDag h) \<longleftrightarrow> length h = 32"
| "op_ok (SetHeadFast h) \<longleftrightarrow> length h = 32"
| "op_ok (SetPivot n) \<longleftrightarrow> True"
| "op_ok (SetTrieProgress n) \<longleftrightarrow> True"
| "op_ok (SetTxTail n) \<longleftrightarrow> True"
| "op_ok (SetTxLimit n) \<longleftrightarrow> True"

text \<open>Two calls can fail on an open store: storing a missing checkpoint, and storing a header that
  does not encode.\<close>

primrec op_returns :: "chain_op \<Rightarrow> bool" where
  "op_returns (Finalize h n) \<longleftrightarrow> True"
| "op_returns (Unfinalize h n) \<longleftrightarrow> True"
| "op_returns (SetLastFinalized h) \<longleftrightarrow> True"
| "op_returns (SetCanonical h) \<longleftrightarrow> True"
| "op_returns (SetChildren p hs) \<longleftrightarrow> True"
| "op_returns (PutDag b) \<longleftrightarrow> True"
| "op_returns (SetTips hs) \<longleftrightarrow> True"
| "op_returns (SetSlot s hs) \<longleftrightarrow> True"
| "op_returns (AddToSlot s h) \<longleftrightarrow> True"
| "op_returns (DropFromSlot s h) \<longleftrightarrow> True"
| "op_returns (SetEpoch e h) \<longleftrightarrow> True"
| "op_returns (DropEpoch e) \<longleftrightarrow> True"
| "op_returns (PutCheckpoint cp) \<longleftrightarrow> True"
| "op_returns (DropCheckpoint h) \<longleftrightarrow> True"
| "op_returns (SetLastCheckpoint cp) \<longleftrightarrow> cp \<noteq> None"
| "op_returns DropLastCheckpoint \<longleftrightarrow> True"
| "op_returns (PutEra n e) \<longleftrightarrow> True"
| "op_returns (DropEra n) \<longleftrightarrow> True"
| "op_returns (SetCurrentEra n) \<longleftrightarrow> True"
| "op_returns DropCurrentEra \<longleftrightarrow> True"
| "op_returns (DropBlock h nr) \<longleftrightarrow> True"
| "op_returns (DropBlockOnly h) \<longleftrightarrow> True"
| "op_returns (PutHeader header) \<longleftrightarrow> header_ok header"
| "op_returns (DropHeader h nr) \<longleftrightarrow> True"
| "op_returns (PutBody h b) \<longleftrightarrow> True"
| "op_returns (DropBody h) \<longleftrightarrow> True"
| "op_returns (DropReceipts h) \<longleftrightarrow> True"
| "op_returns (DropChildren h) \<longleftrightarrow> True"
| "op_returns (DropDag h) \<longleftrightarrow> True"
| "op_returns (SetHeadFast h) \<longleftrightarrow> True"
| "op_returns (SetPivot n) \<longleftrightarrow> True"
| "op_returns (SetTrieProgress n) \<longleftrightarrow> True"
| "op_returns (SetTxTail n) \<longleftrightarrow> True"
| "op_returns (SetTxLimit n) \<longleftrightarrow> True"

definition drop_final :: "hash \<Rightarrow> u64 \<Rightarrow> chain_view \<Rightarrow> chain_view" where
  "drop_final h n v =
     v\<lparr>cv_finNumber := (cv_finNumber v)(h := None), cv_finHash := (cv_finHash v)(n := zero_array 32)\<rparr>"

definition drop_block :: "hash \<Rightarrow> chain_view \<Rightarrow> chain_view" where
  "drop_block h v =
     v\<lparr>cv_headers := (cv_headers v)(h := None), cv_bodies := (cv_bodies v)(h := None),
       cv_receipts := (cv_receipts v)(h := None), cv_children := (cv_children v)(h := []),
       cv_dag := (cv_dag v)(h := Ok None)\<rparr>"

text \<open>The hash of a header and its stored bytes; the number is not stored.\<close>

definition header_entry :: "(bytes \<Rightarrow> hash) \<Rightarrow> Header \<Rightarrow> (hash \<times> bytes) res" where
  "header_entry keccak header =
     rbind (Header_Hash keccak (Some header)) (\<lambda>h.
     case Header_encode (Some (header\<lparr>hd_Number := None\<rparr>)) of Ok b \<Rightarrow> Ok (h, b) | _ \<Rightarrow> Panic)"

text \<open>The abstract calls: what the view becomes, and the outcome.\<close>

primrec spec_view :: "(bytes \<Rightarrow> hash) \<Rightarrow> chain_op \<Rightarrow> chain_view \<Rightarrow> chain_view" where
  "spec_view keccak (Finalize h n) v = v\<lparr>cv_finNumber := (cv_finNumber v)(h := Some n), cv_finHash := (cv_finHash v)(n := h)\<rparr>"
| "spec_view keccak (Unfinalize h n) v = drop_final h n v"
| "spec_view keccak (SetLastFinalized h) v = v\<lparr>cv_lastFin := h\<rparr>"
| "spec_view keccak (SetCanonical h) v = v\<lparr>cv_canonical := h\<rparr>"
| "spec_view keccak (SetChildren p hs) v = v\<lparr>cv_children := (cv_children v)(p := sorted_list_of_set (set hs))\<rparr>"
| "spec_view keccak (PutDag b) v = v\<lparr>cv_dag := (cv_dag v)(bd_Hash b := Ok (Some b))\<rparr>"
| "spec_view keccak (SetTips hs) v = v\<lparr>cv_tips := sorted_list_of_set (set hs)\<rparr>"
| "spec_view keccak (SetSlot s hs) v = v\<lparr>cv_slots := (cv_slots v)(s := hs)\<rparr>"
| "spec_view keccak (AddToSlot s h) v =
     (if h \<in> set (cv_slots v s) then v else v\<lparr>cv_slots := (cv_slots v)(s := cv_slots v s @ [h])\<rparr>)"
| "spec_view keccak (DropFromSlot s h) v = v\<lparr>cv_slots := (cv_slots v)(s := drop_skip h (cv_slots v s))\<rparr>"
| "spec_view keccak (SetEpoch e h) v = v\<lparr>cv_epochs := (cv_epochs v)(e := h)\<rparr>"
| "spec_view keccak (DropEpoch e) v = v\<lparr>cv_epochs := (cv_epochs v)(e := zero_array 32)\<rparr>"
| "spec_view keccak (PutCheckpoint cp) v = v\<lparr>cv_checkpoints := (cv_checkpoints v)(cp_Spine cp := Some cp)\<rparr>"
| "spec_view keccak (DropCheckpoint h) v = v\<lparr>cv_checkpoints := (cv_checkpoints v)(h := None)\<rparr>"
| "spec_view keccak (SetLastCheckpoint cp) v = v\<lparr>cv_lastCp := cp\<rparr>"
| "spec_view keccak (PutEra n e) v = v\<lparr>cv_eras := (cv_eras v)(n := Some e)\<rparr>"
| "spec_view keccak (DropEra n) v = v\<lparr>cv_eras := (cv_eras v)(n := None)\<rparr>"
| "spec_view keccak (SetCurrentEra n) v = v\<lparr>cv_currentEra := Ok n\<rparr>"
| "spec_view keccak DropCurrentEra v = v\<lparr>cv_currentEra := Panic\<rparr>"
| "spec_view keccak (DropBlock h nr) v = drop_block h (case nr of None \<Rightarrow> v | Some n \<Rightarrow> drop_final h n v)"
| "spec_view keccak (DropBlockOnly h) v = drop_block h v"
| "spec_view keccak (PutHeader header) v =
     (case header_entry keccak header of
        Ok (h, b) \<Rightarrow> v\<lparr>cv_headers := (cv_headers v)(h := Some b)\<rparr> | _ \<Rightarrow> v)"
| "spec_view keccak (DropHeader h nr) v =
     (let v' = (case nr of None \<Rightarrow> v | Some n \<Rightarrow> drop_final h n v)
      in v'\<lparr>cv_headers := (cv_headers v')(h := None)\<rparr>)"
| "spec_view keccak (PutBody h b) v = v\<lparr>cv_bodies := (cv_bodies v)(h := Some b)\<rparr>"
| "spec_view keccak (DropBody h) v = v\<lparr>cv_bodies := (cv_bodies v)(h := None)\<rparr>"
| "spec_view keccak (DropReceipts h) v = v\<lparr>cv_receipts := (cv_receipts v)(h := None)\<rparr>"
| "spec_view keccak (DropChildren h) v = v\<lparr>cv_children := (cv_children v)(h := [])\<rparr>"
| "spec_view keccak (DropDag h) v = v\<lparr>cv_dag := (cv_dag v)(h := Ok None)\<rparr>"
| "spec_view keccak (SetHeadFast h) v = v\<lparr>cv_headFast := h\<rparr>"
| "spec_view keccak (SetPivot n) v = v\<lparr>cv_pivot := Some n\<rparr>"
| "spec_view keccak (SetTrieProgress n) v = v\<lparr>cv_trieProgress := n\<rparr>"
| "spec_view keccak (SetTxTail n) v = v\<lparr>cv_txTail := Some n\<rparr>"
| "spec_view keccak (SetTxLimit n) v = v\<lparr>cv_txLimit := Some n\<rparr>"
| "spec_view keccak DropLastCheckpoint v = v\<lparr>cv_lastCp := None\<rparr>"

definition spec_res :: "(bytes \<Rightarrow> hash) \<Rightarrow> chain_op \<Rightarrow> unit res" where
  "spec_res keccak op =
     (case op of
        SetLastCheckpoint None \<Rightarrow> Panic
      | PutHeader header \<Rightarrow> rbind (header_entry keccak header) (\<lambda>_. Ok ())
      | _ \<Rightarrow> Ok ())"

definition spec_op :: "(bytes \<Rightarrow> hash) \<Rightarrow> chain_op \<Rightarrow> (chain_view, unit) call" where
  "spec_op keccak op v = (spec_res keccak op, spec_view keccak op v)"

text \<open>A call that returns and updates the view.\<close>

definition performs :: "(Database, unit) call \<Rightarrow> (chain_view \<Rightarrow> chain_view) \<Rightarrow> Database \<Rightarrow> bool" where
  "performs m f db \<longleftrightarrow> (\<exists>db'. m db = (Ok (), db') \<and> mdb_opened db' \<and> view db' = f (view db))"

lemma performs_put:
  assumes "mdb_opened db" "wf_key k" "key = key_bytes k"
  shows "performs (crit (mdb_Put key v)) (upd_view k (Some v)) db" "performs (logged (mdb_Put key v)) (upd_view k (Some v)) db"
    "performs (crit (mdb_Delete key)) (upd_view k None) db" "performs (logged (mdb_Delete key)) (upd_view k None) db"
  using sets_Put[OF assms(1,3)] sets_Delete[OF assms(1,3)] view_sets[OF assms(1) _ assms(2)]
  unfolding sets_def performs_def by metis+

lemma performs_seq:
  assumes "performs m f db" "\<And>db'. mdb_opened db' \<Longrightarrow> performs m' g db'"
  shows "performs (sbind m (\<lambda>_. m')) (\<lambda>v. g (f v)) db"
proof -
  obtain db1 where 1: "m db = (Ok (), db1)" "mdb_opened db1" "view db1 = f (view db)"
    using assms(1) by (auto simp: performs_def)
  then show ?thesis using assms(2)[OF 1(2)] by (simp add: performs_def sbind_def)
qed

lemma performs_cong: "performs m f db \<Longrightarrow> f (view db) = g (view db) \<Longrightarrow> performs m g db"
  by (simp add: performs_def)

lemmas op_defs = WriteFinalizedHashNumber_def writeFinalizedNumberByHash_def writeFinalizedHashByNumber_def
  DeleteFinalizedHashNumber_def deleteFinalizedNumberByHash_def deleteFinalizedHashByNumber_def
  WriteLastFinalizedHash_def WriteLastCanonicalHash_def WriteChildren_def WriteBlockDag_def WriteTipsHashes_def
  WriteSlotBlocksHashes_def WriteEpoch_def DeleteEpoch_def WriteCoordinatedCheckpoint_def
  DeleteCoordinatedCheckpoint_def DeleteEra_def WriteCurrentEra_def DeleteCurrentEra_def encodeBlockNumber_def
  DeleteLastCoordinatedCheckpoint_def WriteBodyRLP_def DeleteBody_def DeleteReceipts_def DeleteChildren_def
  DeleteBlockDag_def WriteHeadFastBlockHash_def WriteFastTrieProgress_def WriteTxIndexTail_def
  WriteFastTxLookupLimit_def

lemma zero_hash: "BytesToHash [] = zero_array 32"
  by (simp add: BytesToHash_def setBytes_def)

lemma put_as:
  assumes "mdb_opened db" "key = key_bytes k" "wf_key k"
  shows "upd_view k (Some v) (view db) = f (view db) \<Longrightarrow> performs (crit (mdb_Put key v)) f db"
    "upd_view k (Some v) (view db) = f (view db) \<Longrightarrow> performs (logged (mdb_Put key v)) f db"
    "upd_view k None (view db) = f (view db) \<Longrightarrow> performs (crit (mdb_Delete key)) f db"
    "upd_view k None (view db) = f (view db) \<Longrightarrow> performs (logged (mdb_Delete key)) f db"
  using performs_put[OF assms(1,3,2)] performs_cong by blast+

lemma drop_final_performs:
  assumes "mdb_opened db" "length h = 32"
  shows "performs (DeleteFinalizedHashNumber h n) (drop_final h n) db"
proof -
  have "performs (DeleteFinalizedHashNumber h n)
      (\<lambda>v. upd_view (FinHashByNumberKey n) None (upd_view (FinNumberByHashKey h) None v)) db"
    unfolding op_defs by (intro performs_seq performs_put(3)) (use assms in simp_all)
  then show ?thesis by (rule performs_cong) (simp add: drop_final_def data_of_def zero_hash)
qed

lemma drop_header_performs:
  assumes "mdb_opened db" "length h = 32"
  shows "performs (DeleteHeader h nr) (\<lambda>v. (case nr of None \<Rightarrow> id | Some n \<Rightarrow> drop_final h n) (upd_view (HeaderKey h) None v)) db"
  unfolding DeleteHeader_def deleteHeaderWithoutNumber_def
proof (rule performs_seq[where f = "upd_view (HeaderKey h) None" and g = "case nr of None \<Rightarrow> id | Some n \<Rightarrow> drop_final h n"])
  show "performs (crit (mdb_Delete (headerKey h))) (upd_view (HeaderKey h) None) db"
    by (rule performs_put) (use assms in simp_all)
  show "performs (case nr of None \<Rightarrow> sret () | Some n \<Rightarrow> DeleteFinalizedHashNumber h n)
      (case nr of None \<Rightarrow> id | Some n \<Rightarrow> drop_final h n) db'" if "mdb_opened db'" for db'
    using that drop_final_performs[OF that assms(2)] by (cases nr) (simp_all add: performs_def sret_def)
qed

lemma drop_block_performs:
  assumes "mdb_opened db" "length h = 32"
  shows "performs (DeleteBlock h nr) (spec_view keccak (DropBlock h nr)) db"
    "performs (DeleteBlockWithoutNumber h) (spec_view keccak (DropBlockOnly h)) db"
proof -
  have "performs (DeleteBlock h nr) (\<lambda>v. upd_view (BlockDagKey h) None (upd_view (ChildrenKey h) None
      (upd_view (BlockBodyKey h) None ((case nr of None \<Rightarrow> id | Some n \<Rightarrow> drop_final h n)
        (upd_view (HeaderKey h) None (upd_view (BlockReceiptsKey h) None v)))))) db"
    unfolding DeleteBlock_def DeleteReceipts_def DeleteBody_def DeleteChildren_def DeleteBlockDag_def
  proof (rule performs_seq[where f = "upd_view (BlockReceiptsKey h) None"])
    show "performs (crit (mdb_Delete (blockReceiptsKey h))) (upd_view (BlockReceiptsKey h) None) db"
      by (rule performs_put) (use assms in simp_all)
    fix db1 :: Database
    assume 1: "mdb_opened db1"
    show "performs (sbind (DeleteHeader h nr) (\<lambda>_. sbind (crit (mdb_Delete (blockBodyKey h)))
        (\<lambda>_. sbind (crit (mdb_Delete (childrenKey h))) (\<lambda>_. crit (mdb_Delete (blockDagKey h))))))
      (\<lambda>v. upd_view (BlockDagKey h) None (upd_view (ChildrenKey h) None (upd_view (BlockBodyKey h) None
        ((case nr of None \<Rightarrow> id | Some n \<Rightarrow> drop_final h n) (upd_view (HeaderKey h) None v))))) db1"
    proof (rule performs_seq[OF drop_header_performs[OF 1 assms(2)]])
      fix db2 :: Database
      assume 2: "mdb_opened db2"
      show "performs (sbind (crit (mdb_Delete (blockBodyKey h)))
          (\<lambda>_. sbind (crit (mdb_Delete (childrenKey h))) (\<lambda>_. crit (mdb_Delete (blockDagKey h)))))
        (\<lambda>v. upd_view (BlockDagKey h) None (upd_view (ChildrenKey h) None (upd_view (BlockBodyKey h) None v))) db2"
        by (intro performs_seq performs_put(3)) (use assms 2 in simp_all)
    qed
  qed
  then show "performs (DeleteBlock h nr) (spec_view keccak (DropBlock h nr)) db"
    by (rule performs_cong)
      (simp add: drop_block_def drop_final_def data_of_def HashArrayFromBytes_def dag_of_def split: option.splits)
  have "performs (DeleteBlockWithoutNumber h) (\<lambda>v. upd_view (BlockDagKey h) None (upd_view (ChildrenKey h) None
      (upd_view (BlockBodyKey h) None (upd_view (HeaderKey h) None (upd_view (BlockReceiptsKey h) None v))))) db"
    unfolding DeleteBlockWithoutNumber_def DeleteReceipts_def deleteHeaderWithoutNumber_def DeleteBody_def
      DeleteChildren_def DeleteBlockDag_def
    by (intro performs_seq performs_put(3)) (use assms in simp_all)
  then show "performs (DeleteBlockWithoutNumber h) (spec_view keccak (DropBlockOnly h)) db"
    by (rule performs_cong) (simp add: drop_block_def data_of_def HashArrayFromBytes_def dag_of_def)
qed

text \<open>Slots without duplicates stay so, if they are written so.\<close>

definition slots_distinct :: "chain_view \<Rightarrow> bool" where
  "slots_distinct v \<longleftrightarrow> (\<forall>s. distinct (cv_slots v s))"

lemma slot_ops:
  assumes "mdb_opened db" "length h = 32"
  shows "performs (AddSlotBlockHash s h) (spec_view keccak (AddToSlot s h)) db"
    "performs (DeleteSlotBlockHash s h) (spec_view keccak (DropFromSlot s h)) db"
proof -
  let ?hs = "cv_slots (view db) s"
  have r: "ReadSlotBlocksHashes db s = ?hs" by (simp add: view_def)
  have ok: "list_all (\<lambda>h. length h = 32) ?hs" unfolding r[symmetric] ReadSlotBlocksHashes_def by (rule hashes_32)
  have w: "performs (WriteSlotBlocksHashes s hs) (spec_view keccak (SetSlot s hs)) db" if "list_all (\<lambda>h. length h = 32) hs" for hs
    unfolding op_defs
    by (rule put_as(1)[of db _ "SlotBlocksKey s"]) (use assms that in \<open>simp_all add: data_of_def HashArrayFromBytes_inverse\<close>)
  show "performs (AddSlotBlockHash s h) (spec_view keccak (AddToSlot s h)) db"
  proof (cases "h \<in> set ?hs")
    case True
    then have "list_ex (\<lambda>x. x = h) (ReadSlotBlocksHashes db s)" unfolding r by (auto simp: list_ex_iff)
    then show ?thesis using True assms(1) by (simp add: performs_def AddSlotBlockHash_def)
  next
    case False
    then have "\<not> list_ex (\<lambda>x. x = h) (ReadSlotBlocksHashes db s)" unfolding r by (auto simp: list_ex_iff)
    then show ?thesis using w[of "?hs @ [h]"] ok assms(2) False
      by (simp add: performs_def AddSlotBlockHash_def r)
  qed
  have "delete_slot_loop h 0 ?hs = drop_skip h ?hs" using delete_slot_loop_drop[of "[]" 0 h ?hs] by simp
  moreover have "list_all (\<lambda>h. length h = 32) (drop_skip h ?hs)"
    using ok drop_skip_subset[of h ?hs] by (auto simp: list_all_iff)
  ultimately show "performs (DeleteSlotBlockHash s h) (spec_view keccak (DropFromSlot s h)) db"
    using w[of "drop_skip h ?hs"] by (simp add: performs_def DeleteSlotBlockHash_def r)
qed

lemma finalize_performs:
  assumes "mdb_opened db" "length h = 32"
  shows "performs (WriteFinalizedHashNumber h n) (spec_view keccak (Finalize h n)) db"
proof -
  have "performs (WriteFinalizedHashNumber h n) (\<lambda>v. upd_view (FinHashByNumberKey n) (Some h)
      (upd_view (FinNumberByHashKey h) (Some (bePut64 n)) v)) db"
    unfolding op_defs by (intro performs_seq performs_put(1)) (use assms in simp_all)
  then show ?thesis by (rule performs_cong) (use assms(2) in \<open>simp add: data_of_def\<close>)
qed

lemma pivot_performs:
  assumes "mdb_opened db"
  shows "performs (WriteLastPivotNumber n) (spec_view keccak (SetPivot n)) db"
proof -
  let ?b = "enc (to_item (TUint 64) (VUint n))"
  have f: "wf_rtype (TUint 64)" "full (TUint 64) (VUint n)" using unat_u64_less[of n] by (simp_all add: uint_width_def)
  have "length ?b \<le> 41"
    using length_enc_Str[of "min_be (unat n)"] length_min_be_le[of "unat n" 8] unat_u64_less[of n] by simp
  then have l: "length ?b < 2 ^ 63" by simp
  note rt = rlp_roundtrip[OF f l]
  have "?b \<noteq> []" by (rule enc_nonempty)
  then have "pivot_of ?b = Some n" using rt(2) by (simp add: pivot_of_def del: enc.simps)
  then have "performs (crit (mdb_Put lastPivotKey ?b)) (spec_view keccak (SetPivot n)) db"
    by (intro put_as(1)[of db _ LastPivotKey]) (use assms in \<open>simp_all add: data_of_def del: enc.simps\<close>)
  then show ?thesis using rt(1) by (simp add: WriteLastPivotNumber_def sbind_def slift_def crit_def performs_def del: enc.simps)
qed

lemma run_op_performs:
  assumes "mdb_opened db" "op_ok op" "op \<noteq> SetLastCheckpoint None" "\<And>header. op \<noteq> PutHeader header"
  shows "performs (run_op keccak op) (spec_view keccak op) db"
proof (cases op)
  case (Finalize h n)
  then show ?thesis using finalize_performs[OF assms(1)] assms(2) by (simp add: performs_def)
next
  case (Unfinalize h n)
  then show ?thesis using drop_final_performs[OF assms(1)] assms(2) by (simp add: performs_def)
next
  case (PutEra n e)
  then obtain b where b: "EncodeToBytes era_type (era_val e) = Ok b" "era_of (decode_era b) = e"
    using era_read_back[of e] assms(2) by auto
  show ?thesis unfolding PutEra run_op.simps WriteEra_def b(1) Let_def res.case
    by (rule put_as(2)[of db _ "EraKey n"]) (use assms b in simp_all)
next
  case (SetLastCheckpoint cpo)
  then obtain cp where cp: "cpo = Some cp" "checkpoint_ok cp" using assms(2,3) by (cases cpo) auto
  have "performs (crit (mdb_Put lastCoordCpKey (Checkpoint_Bytes cp))) (spec_view keccak op) db"
    by (rule put_as(1)[of db _ LastCoordCpKey])
      (use assms SetLastCheckpoint cp in \<open>simp_all add: checkpoint_of_def Checkpoint_inverse\<close>)
  then show ?thesis
    by (simp add: SetLastCheckpoint cp(1) WriteLastCoordinatedCheckpoint_def sbind_def sret_def performs_def)
next
  case (AddToSlot s h)
  then show ?thesis using slot_ops(1)[OF assms(1), of h s] assms(2) by (simp add: performs_def)
next
  case (DropFromSlot s h)
  then show ?thesis using slot_ops(2)[OF assms(1), of h s] assms(2) by (simp add: performs_def)
next
  case (DropBlock h nr)
  then show ?thesis using drop_block_performs(1)[OF assms(1), of h nr] assms(2) by (simp add: performs_def)
next
  case (DropBlockOnly h)
  then show ?thesis using drop_block_performs(2)[OF assms(1), of h] assms(2) by (simp add: performs_def)
next
  case (DropHeader h nr)
  then have "performs (DeleteHeader h nr) (spec_view keccak op) db"
    by (intro performs_cong[OF drop_header_performs[OF assms(1), of h nr]])
      (use assms(2) in \<open>auto simp: Let_def drop_final_def split: option.splits\<close>)
  then show ?thesis by (simp add: DropHeader)
next
  case (PutHeader header)
  then show ?thesis using assms(4) by blast
next
  case (SetPivot n)
  show ?thesis unfolding SetPivot run_op.simps by (rule pivot_performs[OF assms(1)])
next
  case (SetChildren p hs)
  show ?thesis unfolding SetChildren run_op.simps op_defs
    by (rule put_as(1)[of db _ "ChildrenKey p"]) (use assms SetChildren in \<open>simp_all add: data_of_def sorted_hashes\<close>)
next
  case (SetTips hs)
  show ?thesis unfolding SetTips run_op.simps op_defs
    by (rule put_as(1)[of db _ TipsHashesKey]) (use assms SetTips in \<open>simp_all add: data_of_def sorted_hashes\<close>)
next
  case (SetSlot s hs)
  show ?thesis unfolding SetSlot run_op.simps op_defs
    by (rule put_as(1)[of db _ "SlotBlocksKey s"])
      (use assms SetSlot in \<open>simp_all add: data_of_def HashArrayFromBytes_inverse\<close>)
next
  case (PutDag b)
  show ?thesis unfolding PutDag run_op.simps op_defs
    by (rule put_as(1)[of db _ "BlockDagKey (bd_Hash b)"])
      (use assms PutDag in \<open>simp_all add: data_of_def dag_read_back blockdag_ok_def[of b]\<close>)
next
  case (PutCheckpoint cp)
  show ?thesis unfolding PutCheckpoint run_op.simps op_defs
    by (rule put_as(1)[of db _ "CoordCpKey (cp_Spine cp)"])
      (use assms PutCheckpoint in \<open>simp_all add: checkpoint_of_def Checkpoint_inverse checkpoint_ok_def[of cp]\<close>)
next
  case (SetLastFinalized h)
  show ?thesis unfolding SetLastFinalized run_op.simps op_defs
    by (rule put_as(1)[of db _ LastFinalizedHashKey]) (use assms SetLastFinalized in \<open>simp_all add: data_of_def\<close>)
next
  case (SetCanonical h)
  show ?thesis unfolding SetCanonical run_op.simps op_defs
    by (rule put_as(1)[of db _ LastCanonicalHashKey]) (use assms SetCanonical in \<open>simp_all add: data_of_def\<close>)
next
  case (SetEpoch e h)
  show ?thesis unfolding SetEpoch run_op.simps op_defs
    by (rule put_as(1)[of db _ "EpochCpKey e"]) (use assms SetEpoch in \<open>simp_all add: data_of_def\<close>)
next
  case (DropEpoch e)
  show ?thesis unfolding DropEpoch run_op.simps op_defs
    by (rule put_as(3)[of db _ "EpochCpKey e"]) (use assms in \<open>simp_all add: data_of_def zero_hash\<close>)
next
  case (DropCheckpoint h)
  show ?thesis unfolding DropCheckpoint run_op.simps op_defs
    by (rule put_as(3)[of db _ "CoordCpKey h"]) (use assms DropCheckpoint in \<open>simp_all add: checkpoint_of_def\<close>)
next
  case (DropEra n)
  show ?thesis unfolding DropEra run_op.simps op_defs
    by (rule put_as(3)[of db _ "EraKey n"]) (use assms in simp_all)
next
  case (SetCurrentEra n)
  show ?thesis unfolding SetCurrentEra run_op.simps op_defs
    by (rule put_as(2)[of db _ CurrentEraPrefix]) (use assms in \<open>simp_all add: current_era_of_def\<close>)
next
  case DropCurrentEra
  show ?thesis unfolding DropCurrentEra run_op.simps op_defs
    by (rule put_as(4)[of db _ CurrentEraPrefix]) (use assms in \<open>simp_all add: current_era_of_def\<close>)
next
  case DropLastCheckpoint
  show ?thesis unfolding DropLastCheckpoint run_op.simps op_defs
    by (rule put_as(4)[of db _ LastCoordCpKey]) (use assms DropLastCheckpoint in \<open>simp_all add: checkpoint_of_def\<close>)
next
  case (PutBody h b)
  show ?thesis unfolding PutBody run_op.simps op_defs
    by (rule put_as(1)[of db _ "BlockBodyKey h"]) (use assms PutBody in \<open>simp_all\<close>)
next
  case (DropBody h)
  show ?thesis unfolding DropBody run_op.simps op_defs
    by (rule put_as(3)[of db _ "BlockBodyKey h"]) (use assms DropBody in \<open>simp_all\<close>)
next
  case (DropReceipts h)
  show ?thesis unfolding DropReceipts run_op.simps op_defs
    by (rule put_as(3)[of db _ "BlockReceiptsKey h"]) (use assms DropReceipts in \<open>simp_all\<close>)
next
  case (DropChildren h)
  show ?thesis unfolding DropChildren run_op.simps op_defs
    by (rule put_as(3)[of db _ "ChildrenKey h"]) (use assms DropChildren in \<open>simp_all add: data_of_def HashArrayFromBytes_def\<close>)
next
  case (DropDag h)
  show ?thesis unfolding DropDag run_op.simps op_defs
    by (rule put_as(3)[of db _ "BlockDagKey h"]) (use assms DropDag in \<open>simp_all add: data_of_def dag_of_def\<close>)
next
  case (SetHeadFast h)
  show ?thesis unfolding SetHeadFast run_op.simps op_defs
    by (rule put_as(1)[of db _ HeadFastBlockKey]) (use assms SetHeadFast in \<open>simp_all add: data_of_def\<close>)
next
  case (SetTrieProgress n)
  show ?thesis unfolding SetTrieProgress run_op.simps op_defs
    by (rule put_as(1)[of db _ FastTrieProgressKey]) (use assms SetTrieProgress in \<open>simp_all add: data_of_def\<close>)
next
  case (SetTxTail n)
  show ?thesis unfolding SetTxTail run_op.simps op_defs
    by (rule put_as(1)[of db _ TxIndexTailKey]) (use assms SetTxTail in \<open>simp_all add: data_of_def\<close>)
next
  case (SetTxLimit n)
  show ?thesis unfolding SetTxLimit run_op.simps op_defs
    by (rule put_as(1)[of db _ FastTxLookupLimitKey]) (use assms SetTxLimit in \<open>simp_all add: data_of_def\<close>)
qed

primrec writes_distinct :: "chain_op \<Rightarrow> bool" where
  "writes_distinct (Finalize h n) \<longleftrightarrow> True"
| "writes_distinct (Unfinalize h n) \<longleftrightarrow> True"
| "writes_distinct (SetLastFinalized h) \<longleftrightarrow> True"
| "writes_distinct (SetCanonical h) \<longleftrightarrow> True"
| "writes_distinct (SetChildren p hs) \<longleftrightarrow> True"
| "writes_distinct (PutDag b) \<longleftrightarrow> True"
| "writes_distinct (SetTips hs) \<longleftrightarrow> True"
| "writes_distinct (SetSlot s hs) \<longleftrightarrow> distinct hs"
| "writes_distinct (AddToSlot s h) \<longleftrightarrow> True"
| "writes_distinct (DropFromSlot s h) \<longleftrightarrow> True"
| "writes_distinct (SetEpoch e h) \<longleftrightarrow> True"
| "writes_distinct (DropEpoch e) \<longleftrightarrow> True"
| "writes_distinct (PutCheckpoint cp) \<longleftrightarrow> True"
| "writes_distinct (DropCheckpoint h) \<longleftrightarrow> True"
| "writes_distinct (SetLastCheckpoint cp) \<longleftrightarrow> True"
| "writes_distinct DropLastCheckpoint \<longleftrightarrow> True"
| "writes_distinct (PutEra n e) \<longleftrightarrow> True"
| "writes_distinct (DropEra n) \<longleftrightarrow> True"
| "writes_distinct (SetCurrentEra n) \<longleftrightarrow> True"
| "writes_distinct DropCurrentEra \<longleftrightarrow> True"
| "writes_distinct (DropBlock h nr) \<longleftrightarrow> True"
| "writes_distinct (DropBlockOnly h) \<longleftrightarrow> True"
| "writes_distinct (PutHeader header) \<longleftrightarrow> True"
| "writes_distinct (DropHeader h nr) \<longleftrightarrow> True"
| "writes_distinct (PutBody h b) \<longleftrightarrow> True"
| "writes_distinct (DropBody h) \<longleftrightarrow> True"
| "writes_distinct (DropReceipts h) \<longleftrightarrow> True"
| "writes_distinct (DropChildren h) \<longleftrightarrow> True"
| "writes_distinct (DropDag h) \<longleftrightarrow> True"
| "writes_distinct (SetHeadFast h) \<longleftrightarrow> True"
| "writes_distinct (SetPivot n) \<longleftrightarrow> True"
| "writes_distinct (SetTrieProgress n) \<longleftrightarrow> True"
| "writes_distinct (SetTxTail n) \<longleftrightarrow> True"
| "writes_distinct (SetTxLimit n) \<longleftrightarrow> True"

lemma spec_view_slots:
  "writes_distinct op \<Longrightarrow> slots_distinct v \<Longrightarrow> slots_distinct (spec_view keccak op v)"
  by (cases op)
    (auto simp: slots_distinct_def drop_final_def drop_block_def Let_def drop_skip_distinct distinct_removeAll
      split: option.splits res.splits)

lemma header_performs:
  assumes "mdb_opened db" "\<forall>b. length (keccak b) = 32"
  shows "\<exists>db'. run_op keccak (PutHeader header) db = (spec_res keccak (PutHeader header), db') \<and> mdb_opened db' \<and>
    view db' = spec_view keccak (PutHeader header) (view db)"
proof (cases "header_entry keccak header")
  case (Ok hb)
  obtain h b where hb: "hb = (h, b)" by (cases hb)
  then have e: "Header_Hash keccak (Some header) = Ok h" "Header_encode (Some (header\<lparr>hd_Number := None\<rparr>)) = Ok b"
    using Ok by (cases "Header_Hash keccak (Some header)"; cases "Header_encode (Some (header\<lparr>hd_Number := None\<rparr>))";
        simp add: header_entry_def)+
  have "length h = 32" using e(1) assms(2) by (auto simp: Header_Hash_def rlpHash_def rbind_def split: res.splits)
  then have "performs (crit (mdb_Put (headerKey h) b)) (spec_view keccak (PutHeader header)) db"
    by (intro put_as(1)[of db _ "HeaderKey h"]) (use assms Ok hb in simp_all)
  then show ?thesis
    using Ok hb e by (auto simp: performs_def spec_res_def WriteHeader_def sbind_def slift_def sret_def crit_def Let_def)
next
  case (Err e)
  then have "Header_Hash keccak (Some header) = Err e"
    by (auto simp: header_entry_def rbind_def split: res.splits)
  then show ?thesis using Err assms(1) by (simp add: spec_res_def WriteHeader_def sbind_def slift_def)
next
  case Panic
  then consider "Header_Hash keccak (Some header) = Panic"
    | h where "Header_Hash keccak (Some header) = Ok h" "\<nexists>b. Header_encode (Some (header\<lparr>hd_Number := None\<rparr>)) = Ok b"
    by (auto simp: header_entry_def rbind_def split: res.splits)
  then show ?thesis
  proof cases
    case 1
    then show ?thesis using Panic assms(1) by (simp add: spec_res_def WriteHeader_def sbind_def slift_def)
  next
    case (2 h)
    then show ?thesis using Panic assms(1)
      by (cases "Header_encode (Some (header\<lparr>hd_Number := None\<rparr>))")
        (simp_all add: spec_res_def WriteHeader_def sbind_def slift_def crit_def Let_def)
  qed
qed

lemma run_op_refines:
  assumes "mdb_opened db" "op_ok op" "\<forall>b. length (keccak b) = 32"
  shows "\<exists>db'. run_op keccak op db = (spec_res keccak op, db') \<and> mdb_opened db' \<and> view db' = spec_view keccak op (view db)"
proof (cases "op = SetLastCheckpoint None")
  case True
  have "performs (logged (mdb_Delete lastCoordCpKey)) (spec_view keccak op) db"
    by (rule put_as(4)[of db _ LastCoordCpKey]) (use assms True in \<open>simp_all add: checkpoint_of_def\<close>)
  then show ?thesis
    by (auto simp: True performs_def spec_res_def WriteLastCoordinatedCheckpoint_def DeleteLastCoordinatedCheckpoint_def
        sbind_def slift_def)
next
  case False
  show ?thesis
  proof (cases "\<exists>header. op = PutHeader header")
    case True
    then show ?thesis using header_performs[OF assms(1,3)] by blast
  next
    case no: False
    have "spec_res keccak op = Ok ()"
      using False no by (auto simp: spec_res_def split: chain_op.splits option.splits)
    then show ?thesis using run_op_performs[OF assms(1,2) False] no unfolding performs_def by metis
  qed
qed

lemma op_returns_Ok:
  assumes "op_returns op"
  shows "spec_res keccak op = Ok ()"
proof (cases "\<exists>header. op = PutHeader header")
  case True
  then obtain header where op: "op = PutHeader header" "header_ok header" using assms by auto
  obtain b c where e: "Header_encode (Some (header\<lparr>hd_Number := None\<rparr>)) = Ok b" "Header_encode (Some (clearState header)) = Ok c"
    using Header_encode_Ok[OF header_vals_wt(1)[OF op(2)]] Header_encode_Ok[OF header_vals_wt(2)[OF op(2)]] by blast
  then have "Header_Hash keccak (Some header) = Ok (keccak c)"
    using Header_Hash_encode(1)[OF op(2)] by (simp add: rlpHash_def)
  then show ?thesis using e(1) by (simp add: op(1) spec_res_def header_entry_def)
next
  case False
  then show ?thesis using assms by (auto simp: spec_res_def split: chain_op.splits option.splits)
qed

primrec run_ops :: "(bytes \<Rightarrow> hash) \<Rightarrow> chain_op list \<Rightarrow> (Database, unit) call" where
  "run_ops keccak [] = sret ()"
| "run_ops keccak (op # ops) = sbind (run_op keccak op) (\<lambda>_. run_ops keccak ops)"

primrec spec_ops :: "(bytes \<Rightarrow> hash) \<Rightarrow> chain_op list \<Rightarrow> (chain_view, unit) call" where
  "spec_ops keccak [] = sret ()"
| "spec_ops keccak (op # ops) = sbind (spec_op keccak op) (\<lambda>_. spec_ops keccak ops)"

text \<open>C7. The writing accessors of the chain database refine updates of its abstract view. For any
  sequence of these calls with arguments of their Go types, on an open store without freezer, what
  the readers see afterwards and the outcome are those of the abstract calls: finalisation writes
  both directions, tips and children come back as sorted sets, checkpoints, graph entries, eras,
  headers, bodies and progress markers as written, a removal from a slot skips the entry after a
  removed one, deleting a block clears its header, body, receipts, children and graph entry, and
  every other entry is untouched. Storing a missing checkpoint deletes the stored one and panics,
  and so ends the sequence; when no checkpoint is missing and the headers are well-formed, every
  call returns. Slots keep their lists free of duplicates if they are written so.\<close>

theorem chain_db_refines_view:
  assumes "mdb_opened db" "list_all op_ok ops" "\<forall>b. length (keccak b) = 32"
  shows "\<exists>res db'. run_ops keccak ops db = (res, db') \<and> mdb_opened db' \<and> spec_ops keccak ops (view db) = (res, view db') \<and>
    (list_all op_returns ops \<longrightarrow> res = Ok ()) \<and>
    (list_all writes_distinct ops \<and> slots_distinct (view db) \<longrightarrow> slots_distinct (view db'))"
  using assms(1,2)
proof (induction ops arbitrary: db)
  case (Cons op ops)
  obtain db1 where 1: "run_op keccak op db = (spec_res keccak op, db1)" "mdb_opened db1"
      "view db1 = spec_view keccak op (view db)"
    using run_op_refines[OF Cons.prems(1) _ assms(3), of op] Cons.prems(2) by auto
  have d: "slots_distinct (view db1)" if "writes_distinct op" "slots_distinct (view db)"
    unfolding 1(3) using that by (rule spec_view_slots)
  show ?case
  proof (cases "spec_res keccak op")
    case (Ok u)
    obtain res db' where 2: "run_ops keccak ops db1 = (res, db')" "mdb_opened db'" "spec_ops keccak ops (view db1) = (res, view db')"
        "list_all op_returns ops \<longrightarrow> res = Ok ()"
        "list_all writes_distinct ops \<and> slots_distinct (view db1) \<longrightarrow> slots_distinct (view db')"
      using Cons.IH[OF 1(2)] Cons.prems(2) by auto
    then show ?thesis using 1(1,3) Ok d by (auto simp: sbind_def spec_op_def)
  next
    case (Err e)
    then show ?thesis using 1 d op_returns_Ok[of op keccak] by (auto simp: sbind_def spec_op_def)
  next
    case Panic
    then show ?thesis using 1 d op_returns_Ok[of op keccak] by (auto simp: sbind_def spec_op_def)
  qed
qed (simp add: sret_def)

theorem chain_db_refines_view_witness:
  "\<exists>db'. run_ops BytesToHash [Finalize (replicate 32 7) 5, PutBody (replicate 32 7) [1, 2], AddToSlot 3 (replicate 32 7),
      SetCurrentEra 2, DropBlock (replicate 32 7) (Some 5), PutBody (replicate 32 8) [3]] mdb_New = (Ok (), db') \<and>
     ReadFinalizedNumberByHash db' (replicate 32 7) = None \<and> HasBody nofreezedb_Ancient db' (replicate 32 7) = False \<and>
     cv_bodies (view db') (replicate 32 8) = Some [3] \<and>
     ReadSlotBlocksHashes db' 3 = [replicate 32 7] \<and> ReadCurrentEra db' = Ok 2"
proof -
  let ?h = "replicate 32 7 :: hash"
  let ?ops = "[Finalize ?h 5, PutBody ?h [1, 2], AddToSlot 3 ?h, SetCurrentEra 2, DropBlock ?h (Some 5), PutBody (replicate 32 8) [3]]"
  have o: "mdb_opened mdb_New" by (simp add: mdb_opened_def mdb_New_def)
  have e: "cv_slots (view mdb_New) s = []" for s
    unfolding view_cells[OF o] by (simp add: mdb_content_def mdb_New_def data_of_def HashArrayFromBytes_def)
  obtain res db' where db': "run_ops BytesToHash ?ops mdb_New = (res, db')" "spec_ops BytesToHash ?ops (view mdb_New) = (res, view db')"
      "res = Ok ()"
    using chain_db_refines_view[of mdb_New ?ops BytesToHash] o by auto
  have ne: "replicate 32 8 \<noteq> ?h" by simp
  have "ReadFinalizedNumberByHash db' ?h = cv_finNumber (view db') ?h" "ReadSlotBlocksHashes db' 3 = cv_slots (view db') 3"
    "ReadCurrentEra db' = cv_currentEra (view db')" "HasBody nofreezedb_Ancient db' ?h = (cv_bodies (view db') ?h \<noteq> None)"
    by (simp_all add: view_def on32_def stored_def)
  moreover have "spec_ops BytesToHash ?ops (view mdb_New) = (Ok (), fold (spec_view BytesToHash) ?ops (view mdb_New))"
    by (simp add: sbind_def spec_op_def spec_res_def sret_def del: spec_view.simps)
  then have "view db' = fold (spec_view BytesToHash) ?ops (view mdb_New)" unfolding db'(2) prod.inject by (rule conjunct2)
  ultimately have "ReadFinalizedNumberByHash db' ?h = None \<and> \<not> HasBody nofreezedb_Ancient db' ?h \<and>
      cv_bodies (view db') (replicate 32 8) = Some [3] \<and> ReadSlotBlocksHashes db' 3 = [?h] \<and> ReadCurrentEra db' = Ok 2"
    using ne by (simp add: e drop_final_def drop_block_def)
  then show ?thesis using db'(1,3) by blast
qed

section \<open>Finalised numbers\<close>

text \<open>The two directions of the finalisation index are inverse to each other.\<close>

definition fin_inverse :: "Database \<Rightarrow> bool" where
  "fin_inverse db \<longleftrightarrow>
     (\<forall>h n. length h = 32 \<and> h \<noteq> zero_array 32 \<longrightarrow>
        (ReadFinalizedNumberByHash db h = Some n \<longleftrightarrow> ReadFinalizedHashByNumber db n = h))"

lemma fin_reads: "length h = 32 \<Longrightarrow> ReadFinalizedNumberByHash db h = cv_finNumber (view db) h"
  "ReadFinalizedHashByNumber db n = cv_finHash (view db) n"
  by (simp_all add: view_def on32_def)

text \<open>C38. Finalising a block that has no number under a number that has no block, and removing the
  entries of a finalised block, keep the two directions of the finalisation index inverse to each
  other; afterwards the block is found under its number, or neither is found.\<close>

theorem finalized_index_inverse:
  assumes "mdb_opened db" "fin_inverse db" "length h = 32" "h \<noteq> zero_array 32"
  shows "(ReadFinalizedNumberByHash db h = None \<longrightarrow> ReadFinalizedHashByNumber db n = zero_array 32 \<longrightarrow>
      (\<exists>db'. WriteFinalizedHashNumber h n db = (Ok (), db') \<and> fin_inverse db' \<and>
         ReadFinalizedNumberByHash db' h = Some n \<and> ReadFinalizedHashByNumber db' n = h)) \<and>
    (ReadFinalizedNumberByHash db h = Some n \<longrightarrow>
      (\<exists>db'. DeleteFinalizedHashNumber h n db = (Ok (), db') \<and> fin_inverse db' \<and>
         ReadFinalizedNumberByHash db' h = None \<and> ReadFinalizedHashByNumber db' n = zero_array 32))"
proof (intro conjI impI)
  have inv: "cv_finNumber (view db) k = Some m \<longleftrightarrow> cv_finHash (view db) m = k"
    if "length k = 32" "k \<noteq> zero_array 32" for k m
    using assms(2) that by (simp add: fin_inverse_def fin_reads)
  note inv_h = inv[OF assms(3,4)]
  {
  assume a: "ReadFinalizedNumberByHash db h = None" "ReadFinalizedHashByNumber db n = zero_array 32"
  obtain db' where db': "WriteFinalizedHashNumber h n db = (Ok (), db')"
    "view db' = spec_view BytesToHash (Finalize h n) (view db)"
    using finalize_performs[OF assms(1,3), of n] by (auto simp: performs_def)
  have "cv_finHash (view db) m \<noteq> h" for m using inv_h[of m] a(1) assms(3) by (simp add: fin_reads)
  moreover have "cv_finHash (view db) n = zero_array 32" using a(2) by (simp add: fin_reads)
  ultimately have "fin_inverse db'"
    unfolding fin_inverse_def by (auto simp: fin_reads db'(2) inv)
  then show "\<exists>db'. WriteFinalizedHashNumber h n db = (Ok (), db') \<and> fin_inverse db' \<and>
      ReadFinalizedNumberByHash db' h = Some n \<and> ReadFinalizedHashByNumber db' n = h"
    using db' assms(3) by (simp add: fin_reads)
  }
  assume a: "ReadFinalizedNumberByHash db h = Some n"
  obtain db' where db': "DeleteFinalizedHashNumber h n db = (Ok (), db')" "view db' = drop_final h n (view db)"
    using drop_final_performs[OF assms(1,3), of n] by (auto simp: performs_def)
  have "cv_finHash (view db) m = h \<longleftrightarrow> m = n" for m
    using inv_h[of m] inv_h[of n] a assms(3) by (auto simp: fin_reads)
  then have "fin_inverse db'"
    unfolding fin_inverse_def by (auto simp: fin_reads db'(2) drop_final_def inv)
  then show "\<exists>db'. DeleteFinalizedHashNumber h n db = (Ok (), db') \<and> fin_inverse db' \<and>
      ReadFinalizedNumberByHash db' h = None \<and> ReadFinalizedHashByNumber db' n = zero_array 32"
    using db' assms(3) by (simp add: fin_reads drop_final_def)
qed

lemma new_db: "mdb_opened mdb_New" "fin_inverse mdb_New" "ReadFinalizedNumberByHash mdb_New h = None"
  "ReadFinalizedHashByNumber mdb_New n = zero_array 32"
  by (auto simp: mdb_opened_def mdb_New_def fin_inverse_def ReadFinalizedNumberByHash_def ReadFinalizedHashByNumber_def
      read_number_def get_data_def mdb_Get_def zero_hash)

theorem finalized_index_inverse_witness:
  "\<exists>db'. WriteFinalizedHashNumber (replicate 32 7) 5 mdb_New = (Ok (), db') \<and> fin_inverse db' \<and>
     ReadFinalizedNumberByHash db' (replicate 32 7) = Some 5 \<and> ReadFinalizedHashByNumber db' 5 = replicate 32 7"
proof -
  have "(replicate 32 7 :: hash) \<noteq> zero_array 32" by simp
  then show ?thesis
    using finalized_index_inverse[of mdb_New "replicate 32 7" 5] new_db by simp
qed

section \<open>Looking for an era\<close>

lemma FindEra_search:
  "(FindEra db n = None \<longleftrightarrow> (\<forall>m. 0 < m \<longrightarrow> m \<le> n \<longrightarrow> ReadEra db m = None)) \<and>
   (FindEra db n = Some e \<longrightarrow>
     (\<exists>m. 0 < m \<and> m \<le> n \<and> ReadEra db m = Some e \<and> (\<forall>k. m < k \<longrightarrow> k \<le> n \<longrightarrow> ReadEra db k = None)))"
proof (induction db n rule: FindEra.induct)
  case (1 db n)
  show ?case
  proof (cases "0 < n")
    case True
    have le: "k \<le> n \<longleftrightarrow> k = n \<or> k \<le> n - 1" for k
      using True by (auto simp: word_le_nat_alt unat_minus_one word_unat_eq_iff word_less_nat_alt)
    show ?thesis
    proof (cases "ReadEra db n")
      case None
      then show ?thesis using 1[OF True None] True by (subst (1 2) FindEra.simps) (auto simp: le)
    next
      case (Some e')
      then show ?thesis using True by (subst (1 2) FindEra.simps) (auto intro!: exI[of _ n])
    qed
  next
    case False
    then show ?thesis by (subst (1 2) FindEra.simps) (auto simp: word_gt_0)
  qed
qed

lemma FindEra_cong: "(\<And>m. 0 < m \<Longrightarrow> ReadEra db' m = ReadEra db m) \<Longrightarrow> FindEra db' n = FindEra db n"
proof (induction db n rule: FindEra.induct)
  case (1 db n)
  show ?case
  proof (cases "0 < n \<and> ReadEra db n = None")
    case True
    then show ?thesis using 1(1)[OF _ _ 1(2)] 1(2)[of n] by (subst (1 2) FindEra.simps) simp
  next
    case False
    then show ?thesis using 1(2)[of n] by (subst (1 2) FindEra.simps) (auto split: option.splits)
  qed
qed

lemma ReadEra_WriteEra_other:
  assumes "mdb_opened db" "WriteEra n e db = (res, db')" "m \<noteq> n"
  shows "ReadEra db' m = ReadEra db m"
proof -
  define b where "b = (case EncodeToBytes era_type (era_val e) of Ok b \<Rightarrow> b | _ \<Rightarrow> [])"
  have "performs (logged (mdb_Put (eraKey n) b)) (upd_view (EraKey n) (Some b)) db"
    by (rule performs_put(2)) (use assms(1) in simp_all)
  then have "view db' = upd_view (EraKey n) (Some b) (view db)"
    using assms(2) by (simp add: performs_def WriteEra_def b_def Let_def)
  moreover have "ReadEra x = cv_eras (view x)" for x by (simp add: view_def)
  ultimately show ?thesis using assms(3) by simp
qed

text \<open>C13. The search for an era ends. Among the eras from one up to the number asked for it returns
  the stored one of the highest number, and it returns none exactly when no era in that range is
  stored. Era zero is never found: with the number zero the search returns none, and storing an
  era zero, as the genesis block does, changes the result for no number.\<close>

theorem FindEra_latest:
  assumes "mdb_opened db"
  shows "(FindEra db n = None \<longleftrightarrow> (\<forall>m. 0 < m \<longrightarrow> m \<le> n \<longrightarrow> ReadEra db m = None)) \<and>
   (FindEra db n = Some e \<longrightarrow>
     (\<exists>m. 0 < m \<and> m \<le> n \<and> ReadEra db m = Some e \<and> (\<forall>k. m < k \<longrightarrow> k \<le> n \<longrightarrow> ReadEra db k = None))) \<and>
   FindEra db 0 = None \<and> FindEra (snd (WriteEra 0 g db)) n = FindEra db n"
proof -
  obtain res db' where w: "WriteEra 0 g db = (res, db')" by fastforce
  have "FindEra db' n = FindEra db n"
    by (rule FindEra_cong) (use ReadEra_WriteEra_other[OF assms w] in \<open>simp add: word_gt_0\<close>)
  moreover have "FindEra db 0 = None" by (subst FindEra.simps) simp
  ultimately show ?thesis using FindEra_search[of db n e] w by simp
qed

theorem FindEra_latest_witness:
  "\<exists>db db' e. WriteEra 2 (NewEra 2 10 19 (replicate 32 1) (replicate 32 2)) mdb_New = (Ok (), db) \<and>
     FindEra db 4 = Some e \<and> er_From e = 10 \<and>
     WriteEra 0 (NewEra 0 0 9 (replicate 32 1) (replicate 32 2)) mdb_New = (Ok (), db') \<and>
     ReadEra db' 0 \<noteq> None \<and> FindEra db' 1 = None"
proof -
  let ?e = "NewEra 2 10 19 (replicate 32 1) (replicate 32 2)" and ?g = "NewEra 0 0 9 (replicate 32 1) (replicate 32 2)"
  have n: "ReadEra mdb_New m = None" for m by (simp add: ReadEra_def mdb_Get_def mdb_New_def)
  have v: "ReadEra x = cv_eras (view x)" for x by (simp add: view_def)
  obtain db where db: "WriteEra 2 ?e mdb_New = (Ok (), db)" "view db = spec_view BytesToHash (PutEra 2 ?e) (view mdb_New)" "mdb_opened db"
    using run_op_performs[OF new_db(1), of "PutEra 2 ?e"] by (auto simp: performs_def era_ok_def NewEra_def)
  obtain db' where db': "WriteEra 0 ?g mdb_New = (Ok (), db')" "view db' = spec_view BytesToHash (PutEra 0 ?g) (view mdb_New)"
    using run_op_performs[OF new_db(1), of "PutEra 0 ?g"] by (auto simp: performs_def era_ok_def NewEra_def)
  have r: "ReadEra db m = (if m = 2 then Some ?e else None)" for m using n unfolding v db(2) by simp
  have "FindEra mdb_New 1 = None" using FindEra_latest[OF new_db(1), of 1 ?e ?g] n by simp
  then have g: "FindEra db' 1 = None" using FindEra_latest[OF new_db(1), of 1 ?e ?g] db'(1) by simp
  have g0: "ReadEra db' 0 \<noteq> None" unfolding v db'(2) by simp
  have "FindEra db 4 \<noteq> None" using FindEra_latest[OF db(3), of 4 ?e ?g] r[of 2] by auto
  then obtain e where e: "FindEra db 4 = Some e" by blast
  then have "er_From e = 10"
    using FindEra_latest[OF db(3), of 4 e ?g] r by (auto simp: NewEra_def split: if_splits)
  then show ?thesis using db(1) db'(1) e g g0 by blast
qed

section \<open>Edge cases of the accessors\<close>

text \<open>Storing a missing checkpoint removes the stored one and then panics.\<close>

lemma WriteLastCoordinatedCheckpoint_nil:
  "mdb_opened db \<Longrightarrow> fst (WriteLastCoordinatedCheckpoint None db) = Panic"
  using sets_Delete(2)[of db lastCoordCpKey LastCoordCpKey]
  by (auto simp: WriteLastCoordinatedCheckpoint_def DeleteLastCoordinatedCheckpoint_def sets_def sbind_def slift_def)

text \<open>A graph entry of 72 to 91 bytes passes the size check and panics in the decoder.\<close>

lemma ReadBlockDag_short:
  "get_data db (blockDagKey h) = d \<Longrightarrow> 72 \<le> length d \<Longrightarrow> length d < 92 \<Longrightarrow> ReadBlockDag db h = Panic"
  by (simp add: ReadBlockDag_def Let_def BlockDAG_SetBytes_def go_slice_def beUint64_def)

text \<open>The freezer's header is returned without comparing its hash to the one asked for.\<close>

lemma ReadHeaderRLP_unchecked:
  "ReadFinalizedNumberByHash db h = Some n \<Longrightarrow> ancient ''headers'' n = Ok data \<Longrightarrow> data \<noteq> [] \<Longrightarrow>
   ReadHeaderRLP keccak ancient db h = data"
  by (simp add: ReadHeaderRLP_def ancient_data_def)

end
