(* ===== verification/Val_Storage.thy ===== *)
theory Val_Storage
  imports Statedb_Props Era
begin

text \<open>
  The validator registry (\<^verbatim>\<open>src/validator/storage/storage.go\<close>), kept in the code of accounts: every
  validator's record is the code of its address, and the code of one reserved address holds the
  number of deposits in eight bytes followed by the addresses of the validators. The operations
  run on the state database; \<^verbatim>\<open>GetCode\<close> returns the live slice, which one of them writes in place.
\<close>

section \<open>The code\<close>

definition SetValidator :: "backend \<Rightarrow> Validator \<Rightarrow> (StateDB, unit) call" where
  "SetValidator be val st =
     (case val_MarshalBinary val of
        Ok valData \<Rightarrow> (case new_slice valData st of (r, st1) \<Rightarrow> (Ok (), SetCode be (v_Address val) r st1))
      | Err e \<Rightarrow> (Err e, st)
      | Panic \<Rightarrow> (Panic, st))"

definition GetValidator :: "backend \<Rightarrow> address \<Rightarrow> (StateDB, Validator) call" where
  "GetValidator be a st =
     (case GetCode be a st of (r, st1) \<Rightarrow>
        (if r = None then Err (StoreErr ErrNoStateValidatorInfo) else val_UnmarshalBinary (deref st1 r), st1))"

text \<open>\<^verbatim>\<open>copy(buf[i:], b)\<close> for a copy that fits.\<close>

definition copy_at :: "nat \<Rightarrow> bytes \<Rightarrow> bytes \<Rightarrow> bytes" where
  "copy_at i b buf = take i buf @ b @ drop (i + length b) buf"

primrec write_list :: "nat \<Rightarrow> address list \<Rightarrow> bytes \<Rightarrow> bytes" where
  "write_list i [] newList = newList"
| "write_list i (v # vs) newList = write_list (Suc i) vs (copy_at (i * 20 + 8) v newList)"

definition SetValidatorsList :: "backend \<Rightarrow> ChainConfig \<Rightarrow> address list \<Rightarrow> (StateDB, unit) call" where
  "SetValidatorsList be c list st =
     (let newList = zero_array (length list * 20 + 8) in
      case GetCode be (ValidatorsStateAddress c) st of (r, st1) \<Rightarrow>
        let currentList = deref st1 r in
        case (if length currentList > 0
              then rbind (go_slice currentList 0 8) (\<lambda>b. rbind (beUint64 b) (\<lambda>n. Ok (copy_at 0 (bePut64 n) newList)))
              else Ok newList) of
          Ok newList \<Rightarrow>
            (case new_slice (write_list 0 list newList) st1 of
               (q, st2) \<Rightarrow> (Ok (), SetCode be (ValidatorsStateAddress c) q st2))
        | Err e \<Rightarrow> (Err e, st1)
        | Panic \<Rightarrow> (Panic, st1))"

function addresses_from :: "nat \<Rightarrow> bytes \<Rightarrow> address list" where
  "addresses_from i buf =
     (if i + 20 \<le> length buf then
        let a = BytesToAddress (take 20 (drop i buf)) in
        (if a \<noteq> zero_array 20 then [a] else []) @ addresses_from (i + 20) buf
      else [])"
  by pat_completeness auto
termination
  by (relation "measure (\<lambda>(i, buf). length buf - i)") auto

declare addresses_from.simps [simp del]

definition GetValidatorsList :: "backend \<Rightarrow> ChainConfig \<Rightarrow> StateDB \<Rightarrow> address list \<times> StateDB" where
  "GetValidatorsList be c st =
     (case GetCode be (ValidatorsStateAddress c) st of (r, st1) \<Rightarrow> (addresses_from 8 (deref st1 r), st1))"

definition GetDepositCount :: "backend \<Rightarrow> ChainConfig \<Rightarrow> (StateDB, u64) call" where
  "GetDepositCount be c st =
     (case GetCode be (ValidatorsStateAddress c) st of (r, st1) \<Rightarrow>
        (if r = None then Ok 0 else rbind (go_slice (deref st1 r) 0 8) beUint64, st1))"

text \<open>The counter is written into the slice that the state holds as the account's code.\<close>

definition IncrementDepositCount :: "backend \<Rightarrow> ChainConfig \<Rightarrow> (StateDB, unit) call" where
  "IncrementDepositCount be c st =
     (case GetCode be (ValidatorsStateAddress c) st of (r0, st0) \<Rightarrow>
      case (if r0 = None then new_slice (zero_array 8) st0 else (r0, st0)) of (r, st1) \<Rightarrow>
        case rbind (go_slice (deref st1 r) 0 8) beUint64 of
          Ok currentCount \<Rightarrow>
            let st2 = write_slice r (copy_at 0 (bePut64 (currentCount + 1)) (deref st1 r)) st1 in
            (Ok (), SetCode be (ValidatorsStateAddress c) r st2)
        | Err e \<Rightarrow> (Err e, st1)
        | Panic \<Rightarrow> (Panic, st1))"

definition AddValidatorToList :: "backend \<Rightarrow> ChainConfig \<Rightarrow> u64 \<Rightarrow> address \<Rightarrow> (StateDB, unit) call" where
  "AddValidatorToList be c index validator st =
     (case GetValidatorsList be c st of (list, st1) \<Rightarrow>
        if list_ex (\<lambda>address. address = validator) list then (Ok (), st1)
        else
          let list = list @ replicate (Suc (unat index) - length list) (zero_array 20) in
          SetValidatorsList be c (list[unat index := validator]) st1)"

section \<open>The registry as a value\<close>

definition reg_code :: "backend \<Rightarrow> ChainConfig \<Rightarrow> StateDB \<Rightarrow> bytes" where
  "reg_code be c st = (case live be st (ValidatorsStateAddress c) of None \<Rightarrow> [] | Some v \<Rightarrow> a_code v)"

text \<open>The stored form: a counter and addresses, zero addresses being gaps.\<close>

definition reg_bytes :: "u64 \<Rightarrow> address list \<Rightarrow> bytes" where
  "reg_bytes n addrs = bePut64 n @ concat addrs"

definition nonzero :: "address list \<Rightarrow> address list" where
  "nonzero addrs = filter (\<lambda>a. a \<noteq> zero_array 20) addrs"

lemma addresses_from_concat:
  "length p = i \<Longrightarrow> list_all (\<lambda>a. length a = 20) addrs \<Longrightarrow> addresses_from i (p @ concat addrs) = nonzero addrs"
proof (induction addrs arbitrary: i p)
  case Nil
  then show ?case by (subst addresses_from.simps) (simp add: nonzero_def)
next
  case (Cons a addrs)
  have "addresses_from (i + 20) ((p @ a) @ concat addrs) = nonzero addrs" using Cons by (intro Cons.IH) simp_all
  then show ?case using Cons.prems by (subst addresses_from.simps) (simp add: nonzero_def)
qed

lemma write_list_concat:
  "length p = i * 20 + 8 \<Longrightarrow> list_all (\<lambda>a. length a = 20) vs \<Longrightarrow>
   write_list i vs (p @ zero_array (20 * length vs)) = p @ concat vs"
proof (induction vs arbitrary: i p)
  case (Cons v vs)
  have "copy_at (i * 20 + 8) v (p @ zero_array (20 * length (v # vs))) = (p @ v) @ zero_array (20 * length vs)"
    using Cons.prems by (simp add: copy_at_def)
  then show ?case using Cons.IH[of "p @ v" "Suc i"] Cons.prems by simp
qed simp

lemma GetCode_none:
  assumes "sdb_wf be st" "length a = 20" "GetCode be a st = (r, st1)" "live be st a = None"
  shows "r = None"
proof -
  obtain q s0 where g: "getStateObject be a st = (q, s0)" by fastforce
  have "be_ok be" "sdb_inv be st" using assms(1) by (simp_all add: sdb_wf_def)
  then have "q = None" using getStateObject_spec(5)[OF _ _ assms(2) g] assms(4) by simp
  then show ?thesis using assms(3) g by (simp add: GetCode_def)
qed

lemma write_slice_wf:
  assumes "sdb_wf be st"
  shows "sdb_wf be (write_slice r b st)" "length (s_codes (write_slice r b st)) = length (s_codes st)"
    "r = Some i \<Longrightarrow> i < length (s_codes st) \<Longrightarrow> deref (write_slice r b st) r = b"
    "hist (write_slice r b st) = hist st"
proof -
  have "rest (write_slice r b st) = rest st" "s_objs (write_slice r b st) = s_objs st"
    "length (s_codes (write_slice r b st)) = length (s_codes st)"
    by (simp_all add: write_slice_def rest_def split: option.splits)
  then show "sdb_wf be (write_slice r b st)" "length (s_codes (write_slice r b st)) = length (s_codes st)"
    using assms rest_ok_rest[of "write_slice r b st" st] by (simp_all add: sdb_wf_def sdb_inv_def)
  show "r = Some i \<Longrightarrow> i < length (s_codes st) \<Longrightarrow> deref (write_slice r b st) r = b"
    by (simp add: write_slice_def deref_def)
  show "hist (write_slice r b st) = hist st" by (simp add: write_slice_def hist_def split: option.splits)
qed

lemma SetCode_live:
  assumes "sdb_wf be st" "length a = 20" "\<forall>i. r = Some i \<longrightarrow> i < length (s_codes st)"
  shows "sdb_wf be (SetCode be a r st)"
    "\<exists>v. live be (SetCode be a r st) a = Some v \<and> a_code v = deref st r"
    "b \<noteq> a \<Longrightarrow> live be (SetCode be a r st) b = live be st b"
proof -
  from SetCode_effect[OF assms] have e: "sdb_wf be (SetCode be a r st)"
    "acct be (SetCode be a r st) = (acct be st)(a \<mapsto> (base be st a)\<lparr>a_codeHash := be_keccak be (deref st r), a_code := deref st r\<rparr>)"
    by (auto simp: effect_def step_def)
  show "sdb_wf be (SetCode be a r st)" by (rule e(1))
  show "\<exists>v. live be (SetCode be a r st) a = Some v \<and> a_code v = deref st r" by (simp add: live_def e(2))
  show "b \<noteq> a \<Longrightarrow> live be (SetCode be a r st) b = live be st b" by (simp add: live_def e(2))
qed

lemma same_live: "same be st st1 \<Longrightarrow> live be st1 a = live be st a"
  by (simp add: same_def live_def)

definition registry :: "backend \<Rightarrow> ChainConfig \<Rightarrow> StateDB \<Rightarrow> u64 \<Rightarrow> address list \<Rightarrow> bool" where
  "registry be c st n addrs \<longleftrightarrow> sdb_wf be st \<and> length (ValidatorsStateAddress c) = 20 \<and> list_all (\<lambda>a. length a = 20) addrs \<and>
     (reg_code be c st = reg_bytes n addrs \<or> live be st (ValidatorsStateAddress c) = None \<and> n = 0 \<and> addrs = [])"

lemma registry_same: "registry be c st n addrs \<Longrightarrow> same be st st1 \<Longrightarrow> registry be c st1 n addrs"
  using wf_same[of be st st1] by (simp add: registry_def reg_code_def same_live)

lemma reg_code_none: "live be st (ValidatorsStateAddress c) = None \<Longrightarrow> reg_code be c st = []"
  by (simp add: reg_code_def)

lemma registry_list:
  assumes "registry be c st n addrs" "GetValidatorsList be c st = (list, st1)"
  shows "list = nonzero addrs" "same be st st1" "registry be c st1 n addrs"
proof -
  have w: "sdb_wf be st" "length (ValidatorsStateAddress c) = 20" using assms(1) by (simp_all add: registry_def)
  obtain r where g: "GetCode be (ValidatorsStateAddress c) st = (r, st1)" "list = addresses_from 8 (deref st1 r)"
    using assms(2) by (auto simp: GetValidatorsList_def split: prod.splits)
  have d: "deref st1 r = reg_code be c st" using GetCode_spec(3)[OF w g(1)] by (simp add: reg_code_def)
  have "addresses_from 8 (reg_bytes n addrs) = nonzero addrs" if "list_all (\<lambda>a. length a = 20) addrs"
    unfolding reg_bytes_def using that by (intro addresses_from_concat) simp_all
  moreover have "addresses_from 8 [] = []" by (subst addresses_from.simps) simp
  ultimately show "list = nonzero addrs"
    using assms(1) g(2) d reg_code_none[of be st c] by (auto simp: registry_def nonzero_def)
  show "same be st st1" by (rule GetCode_spec(1)[OF w g(1)])
  then show "registry be c st1 n addrs" by (rule registry_same[OF assms(1)])
qed

lemma reg_bytes_ne: "reg_bytes n addrs \<noteq> []"
proof
  assume "reg_bytes n addrs = []"
  then have "length (bePut64 n) = 0" by (simp add: reg_bytes_def)
  then show False by simp
qed

lemma registry_count:
  assumes "registry be c st n addrs"
  shows "\<exists>st1. GetDepositCount be c st = (Ok n, st1) \<and> same be st st1"
proof -
  let ?a = "ValidatorsStateAddress c"
  have w: "sdb_wf be st" "length ?a = 20" using assms by (simp_all add: registry_def)
  obtain r st1 where g: "GetCode be ?a st = (r, st1)" by fastforce
  have d: "deref st1 r = reg_code be c st" using GetCode_spec(3)[OF w g] by (simp add: reg_code_def)
  have "fst (GetDepositCount be c st) = Ok n"
  proof (cases "reg_code be c st = reg_bytes n addrs")
    case True
    then have "r \<noteq> None" using d reg_bytes_ne[of n addrs] by (cases r) (simp_all add: deref_def)
    then show ?thesis using True d by (auto simp: GetDepositCount_def g reg_bytes_def)
  next
    case False
    then have "live be st ?a = None" "n = 0" using assms by (auto simp: registry_def)
    then show ?thesis using GetCode_none[OF w g] by (simp add: GetDepositCount_def g)
  qed
  then show ?thesis using GetCode_spec(1)[OF w g] by (auto simp: GetDepositCount_def g)
qed

lemma SetCode_registry:
  assumes "sdb_wf be st" "length (ValidatorsStateAddress c) = 20" "\<forall>i. r = Some i \<longrightarrow> i < length (s_codes st)"
    and "deref st r = reg_bytes n addrs" "list_all (\<lambda>a. length a = 20) addrs"
  shows "registry be c (SetCode be (ValidatorsStateAddress c) r st) n addrs"
  using SetCode_live[OF assms(1-3)] assms(2,4,5) by (auto simp: registry_def reg_code_def)

lemma registry_set:
  assumes "registry be c st n addrs" "list_all (\<lambda>a. length a = 20) list"
  shows "\<exists>st1. SetValidatorsList be c list st = (Ok (), st1) \<and> registry be c st1 n list \<and>
    (\<forall>b. b \<noteq> ValidatorsStateAddress c \<longrightarrow> live be st1 b = live be st b)"
proof -
  let ?a = "ValidatorsStateAddress c"
  have w: "sdb_wf be st" "length ?a = 20" using assms(1) by (simp_all add: registry_def)
  obtain r st1 where g: "GetCode be ?a st = (r, st1)" by fastforce
  note sp = GetCode_spec[OF w g]
  have d: "deref st1 r = reg_code be c st" using sp(3) by (simp add: reg_code_def)
  let ?new = "zero_array (length list * 20 + 8) :: bytes"
  have z: "?new = zero_array 8 @ zero_array (20 * length list)" by (simp add: mult.commute flip: replicate_add)
  have h: "(if length (deref st1 r) > 0
      then rbind (go_slice (deref st1 r) 0 8) (\<lambda>b. rbind (beUint64 b) (\<lambda>n. Ok (copy_at 0 (bePut64 n) ?new)))
      else Ok ?new) = Ok (bePut64 n @ zero_array (20 * length list))"
  proof (cases "reg_code be c st = reg_bytes n addrs")
    case True
    moreover have "length (bePut64 n) = 8" by simp
    ultimately show ?thesis unfolding d z by (auto simp: reg_bytes_def copy_at_def)
  next
    case False
    then have "reg_code be c st = []" "n = 0" using assms(1) reg_code_none[of be st c] by (auto simp: registry_def)
    then show ?thesis unfolding d z by (simp add: bePut64_def)
  qed
  have wl: "write_list 0 list (bePut64 n @ zero_array (20 * length list)) = reg_bytes n list"
    unfolding reg_bytes_def by (rule write_list_concat) (use assms(2) in simp_all)
  let ?q = "Some (length (s_codes st1))" and ?s = "grow (reg_bytes n list) st1"
  have e: "SetValidatorsList be c list st = (Ok (), SetCode be ?a ?q ?s)"
    unfolding SetValidatorsList_def Let_def g prod.case h res.case wl new_slice_grow ..
  have gs: "same be st1 ?s" by (rule grow_same[OF wf_same[OF w(1) sp(1)]])
  have ws: "sdb_wf be ?s" by (rule wf_same[OF wf_same[OF w(1) sp(1)] gs])
  have v: "\<forall>i. ?q = Some i \<longrightarrow> i < length (s_codes ?s)" "deref ?s ?q = reg_bytes n list" by (simp_all add: deref_def)
  have "live be (SetCode be ?a ?q ?s) b = live be st b" if "b \<noteq> ?a" for b
    using SetCode_live(3)[OF ws w(2) v(1) that] same_live[OF gs] same_live[OF sp(1)] by simp
  then show ?thesis using e SetCode_registry[OF ws w(2) v assms(2)] by blast
qed

lemma increment_slice:
  assumes "registry be c st n addrs"
  obtains r st1 where "sdb_wf be st1" "same be st st1" "hist st1 = hist st" "\<exists>i. r = Some i \<and> i < length (s_codes st1)"
    "IncrementDepositCount be c st =
       (Ok (), SetCode be (ValidatorsStateAddress c) r (write_slice r (reg_bytes (n + 1) addrs) st1))"
    "reg_code be c st = reg_bytes n addrs \<longrightarrow> GetCode be (ValidatorsStateAddress c) st = (r, st1)"
proof -
  let ?a = "ValidatorsStateAddress c"
  have w: "sdb_wf be st" "length ?a = 20" using assms by (simp_all add: registry_def)
  obtain r st1 where g: "GetCode be ?a st = (r, st1)" by fastforce
  note sp = GetCode_spec[OF w g]
  have d: "deref st1 r = reg_code be c st" using sp(3) by (simp add: reg_code_def)
  have w1: "sdb_wf be st1" by (rule wf_same[OF w(1) sp(1)])
  have inc: "rbind (go_slice (reg_bytes n addrs) 0 8) beUint64 = Ok n"
    "copy_at 0 (bePut64 (n + 1)) (reg_bytes n addrs) = reg_bytes (n + 1) addrs"
    by (simp_all add: reg_bytes_def copy_at_def)
  show thesis
  proof (cases "reg_code be c st = reg_bytes n addrs")
    case True
    then have r: "r \<noteq> None" using d reg_bytes_ne[of n addrs] by (cases r) (simp_all add: deref_def)
    show thesis
    proof (rule that[OF w1 sp(1,2)])
      show "\<exists>i. r = Some i \<and> i < length (s_codes st1)" using r sp(4) by auto
      show "IncrementDepositCount be c st = (Ok (), SetCode be ?a r (write_slice r (reg_bytes (n + 1) addrs) st1))"
        unfolding IncrementDepositCount_def g prod.case if_not_P[OF r] d True inc res.case Let_def ..
    qed (simp add: g)
  next
    case False
    then have f: "live be st ?a = None" "n = 0" "addrs = []" using assms by (auto simp: registry_def)
    then have r: "r = None" using GetCode_none[OF w g] by simp
    let ?s = "grow (zero_array 8) st1" and ?q = "Some (length (s_codes st1))"
    have z: "deref ?s ?q = reg_bytes n addrs" by (simp add: deref_def f reg_bytes_def bePut64_def)
    note gs = grow_same[OF w1, of "zero_array 8"]
    have ne: "reg_code be c st \<noteq> reg_bytes n addrs" using False .
    show thesis
    proof (rule that[of ?s ?q])
      show "sdb_wf be ?s" by (rule wf_same[OF w1 gs])
      show "same be st ?s" by (rule same_trans[OF sp(1) gs])
      show "hist ?s = hist st" using sp(2) by (simp add: hist_def grow_def)
      show "IncrementDepositCount be c st = (Ok (), SetCode be ?a ?q (write_slice ?q (reg_bytes (n + 1) addrs) ?s))"
        unfolding IncrementDepositCount_def g prod.case r new_slice_grow by (simp add: z inc)
    qed (use ne in simp_all)
  qed
qed

lemma registry_increment:
  assumes "registry be c st n addrs"
  shows "\<exists>st1. IncrementDepositCount be c st = (Ok (), st1) \<and> registry be c st1 (n + 1) addrs"
proof -
  obtain r st1 where s: "sdb_wf be st1" "\<exists>i. r = Some i \<and> i < length (s_codes st1)" "IncrementDepositCount be c st =
       (Ok (), SetCode be (ValidatorsStateAddress c) r (write_slice r (reg_bytes (n + 1) addrs) st1))"
    by (rule increment_slice[OF assms])
  obtain i where i: "r = Some i" "i < length (s_codes st1)" using s(2) by blast
  let ?s = "write_slice r (reg_bytes (n + 1) addrs) st1"
  have "registry be c (SetCode be (ValidatorsStateAddress c) r ?s) (n + 1) addrs"
    by (rule SetCode_registry)
      (use write_slice_wf[OF s(1), where r = r and b = "reg_bytes (n + 1) addrs"] i assms in \<open>auto simp: registry_def\<close>)
  then show ?thesis using s(3) by blast
qed

text \<open>What adding a validator does to the list of validators.\<close>

definition add_to_list :: "nat \<Rightarrow> address \<Rightarrow> address list \<Rightarrow> address list" where
  "add_to_list i v list = (if v \<in> set list then list else if i < length list then list[i := v] else list @ [v])"

lemma registry_add:
  assumes "registry be c st n addrs" "length v = 20" "v \<noteq> zero_array 20"
  shows "\<exists>st1 addrs'. AddValidatorToList be c index v st = (Ok (), st1) \<and> registry be c st1 n addrs' \<and>
    nonzero addrs' = add_to_list (unat index) v (nonzero addrs)"
proof -
  obtain list st1 where g: "GetValidatorsList be c st = (list, st1)" by fastforce
  note l = registry_list[OF assms(1) g]
  have l20: "list_all (\<lambda>a. length a = 20) addrs" using assms(1) by (simp add: registry_def)
  show ?thesis
  proof (cases "v \<in> set list")
    case True
    then show ?thesis using l by (auto simp: AddValidatorToList_def g list_ex_iff add_to_list_def)
  next
    case False
    let ?ext = "list @ replicate (Suc (unat index) - length list) (zero_array 20)"
    let ?new = "?ext[unat index := v]"
    have "list_all (\<lambda>a. length a = 20) ?ext" using l20 unfolding l(1) by (auto simp: list_all_iff nonzero_def)
    then have ok: "list_all (\<lambda>a. length a = 20) ?new" using assms(2) by (auto simp: list_all_iff dest!: set_update_subset_insert[THEN subsetD])
    from registry_set[OF l(3) ok] obtain st2 where st2: "SetValidatorsList be c ?new st1 = (Ok (), st2)" "registry be c st2 n ?new" by blast
    have nz: "nonzero list = list" unfolding l(1) by (simp add: nonzero_def)
    have "nonzero ?new = add_to_list (unat index) v list"
    proof (cases "unat index < length list")
      case True
      then have e: "?new = list[unat index := v]" by simp
      have "\<forall>x \<in> set (list[unat index := v]). x \<noteq> zero_array 20"
        using assms(3) unfolding l(1) by (auto simp: nonzero_def dest!: set_update_subset_insert[THEN subsetD])
      then show ?thesis unfolding e using False True by (simp add: nonzero_def add_to_list_def)
    next
      case ge: False
      then have "?new = list @ replicate (unat index - length list) (zero_array 20) @ [v]"
        by (simp add: list_update_append Suc_diff_le flip: replicate_append_same)
      then show ?thesis using ge False nz assms(3) by (simp add: nonzero_def add_to_list_def)
    qed
    moreover have "\<not> list_ex (\<lambda>a. a = v) list" using False by (auto simp: list_ex_iff)
    ultimately show ?thesis using st2 l(1) by (auto simp: AddValidatorToList_def g Let_def nz)
  qed
qed

lemma SetValidator_read:
  assumes "sdb_wf be st" "val_wf v"
  shows "\<exists>st1. SetValidator be v st = (Ok (), st1) \<and> sdb_wf be st1 \<and> fst (GetValidator be (v_Address v) st1) = Ok v \<and>
    (\<forall>b. b \<noteq> v_Address v \<longrightarrow> live be st1 b = live be st b)"
proof -
  obtain b where b: "val_MarshalBinary v = Ok b" "val_UnmarshalBinary b = Ok v" by (rule val_roundtrip[OF assms(2)])
  have a: "length (v_Address v) = 20" using assms(2) by (simp add: val_wf_def)
  let ?q = "Some (length (s_codes st))" and ?s = "grow b st"
  let ?t = "SetCode be (v_Address v) ?q ?s"
  note gs = grow_same[OF assms(1), of b]
  have ws: "sdb_wf be ?s" by (rule wf_same[OF assms(1) gs])
  have q: "\<forall>i. ?q = Some i \<longrightarrow> i < length (s_codes ?s)" "deref ?s ?q = b" by (simp_all add: deref_def)
  note sc = SetCode_live[OF ws a q(1)]
  obtain r st2 where g: "GetCode be (v_Address v) ?t = (r, st2)" by fastforce
  have d: "deref st2 r = b" using GetCode_spec(3)[OF sc(1) a g] sc(2) q(2) by auto
  have "b \<noteq> []" using b(2) by (auto simp: val_UnmarshalBinary_def go_slice_def)
  then have "r \<noteq> None" using d by (cases r) (simp_all add: deref_def)
  then have "fst (GetValidator be (v_Address v) ?t) = Ok v" using d b(2) by (auto simp: GetValidator_def g)
  moreover have "SetValidator be v st = (Ok (), ?t)" by (simp add: SetValidator_def b(1) new_slice_grow)
  ultimately show ?thesis using sc(1) sc(3) same_live[OF gs] by auto
qed

section \<open>Properties\<close>

text \<open>C8. The registry keeps what is put into it. In a state whose registry holds a deposit count and
  a list of addresses, reading gives the count and the addresses that are not zero; replacing the
  list keeps the count; incrementing adds one to the count modulo two to the 64 and keeps the list;
  adding a validator leaves a list that has it unchanged, appends it when its index is not below
  the length of the list, and otherwise overwrites the entry at its index. A stored validator is
  read back unchanged, and no other account changes.\<close>

theorem validator_registry:
  assumes "registry be c st n addrs" "list_all (\<lambda>a. length a = 20) list" "length v = 20" "v \<noteq> zero_array 20" "val_wf val"
  shows "fst (GetValidatorsList be c st) = nonzero addrs \<and> fst (GetDepositCount be c st) = Ok n \<and>
    (\<exists>st1. SetValidatorsList be c list st = (Ok (), st1) \<and> registry be c st1 n list) \<and>
    (\<exists>st1. IncrementDepositCount be c st = (Ok (), st1) \<and> registry be c st1 (n + 1) addrs) \<and>
    (\<exists>st1 addrs'. AddValidatorToList be c index v st = (Ok (), st1) \<and> registry be c st1 n addrs' \<and>
       nonzero addrs' = add_to_list (unat index) v (nonzero addrs)) \<and>
    (\<exists>st1. SetValidator be val st = (Ok (), st1) \<and> fst (GetValidator be (v_Address val) st1) = Ok val \<and>
       (\<forall>b. b \<noteq> v_Address val \<longrightarrow> live be st1 b = live be st b))"
proof -
  have "fst (GetValidatorsList be c st) = nonzero addrs"
    using registry_list(1)[OF assms(1), of "fst (GetValidatorsList be c st)" "snd (GetValidatorsList be c st)"] by simp
  moreover have "fst (GetDepositCount be c st) = Ok n" using registry_count[OF assms(1)] by auto
  moreover have "sdb_wf be st" using assms(1) by (simp add: registry_def)
  ultimately show ?thesis
    using registry_set[OF assms(1,2)] registry_increment[OF assms(1)] registry_add[OF assms(1,3,4), of index]
      SetValidator_read[OF _ assms(5)] by blast
qed

definition reg_config :: ChainConfig where
  "reg_config =
     \<lparr>cfg_SlotsPerEpoch = 32, EpochsPerEra = 4, TransitionPeriod = 2, ValidatorsStateAddress = replicate 20 9,
      ValidatorsPerSlot = 2, EffectiveBalance = 3200, ValidatorOpExpireSlots = 100, ForkSlotSubNet1 = 0,
      ForkSlotDelegate = 0, ForkSlotPrefixFin = 0, ForkSlotValOpTracking = 0, ForkSlotReduceBaseFee = 0,
      ForkSlotValSyncProc = 0, StartEpochsPerEra = 0\<rparr>"

lemma sample_registry: "registry sample_backend reg_config statedb_New 0 []"
  using statedb_New_wf(1)[OF sample_backend_ok]
  by (simp add: registry_def reg_config_def sample_live)

theorem validator_registry_witness:
  "fst (GetDepositCount sample_backend reg_config statedb_New) = Ok 0 \<and>
   (\<exists>st1 addrs'. AddValidatorToList sample_backend reg_config 5 (replicate 20 1) statedb_New = (Ok (), st1) \<and>
      registry sample_backend reg_config st1 0 addrs' \<and> nonzero addrs' = [replicate 20 1]) \<and>
   (\<exists>st1. SetValidator sample_backend sample_validator statedb_New = (Ok (), st1) \<and>
      fst (GetValidator sample_backend (replicate 20 1) st1) = Ok sample_validator)"
proof -
  have a: "add_to_list (unat (5 :: u64)) (replicate 20 1) (nonzero []) = [replicate 20 1]" "v_Address sample_validator = replicate 20 1"
    by (simp_all add: add_to_list_def nonzero_def sample_validator_def)
  have n: "(replicate 20 1 :: address) \<noteq> zero_array 20" by simp
  show ?thesis
    using validator_registry[OF sample_registry _ _ n sample_validator_wf, of "[]" 5] unfolding a by auto
qed

section \<open>The deposit count and reverts\<close>

lemma GetCode_obj:
  assumes "sdb_wf be st" "length a = 20" "GetCode be a st = (r, st1)" "r \<noteq> None"
  obtains obj where "s_objs st1 a = Some obj" "so_code obj = r"
proof -
  obtain q s0 where g: "getStateObject be a st = (q, s0)" by fastforce
  have b: "be_ok be" "sdb_inv be st" using assms(1) by (simp_all add: sdb_wf_def)
  note sp = getStateObject_spec[OF b assms(2) g]
  have wf0: "sdb_wf be s0" by (rule wf_same[OF assms(1) sp(1)])
  obtain obj where q: "q = Some obj" using assms(3,4) g by (cases q) (auto simp: GetCode_def)
  obtain obj1 where c: "so_Code be obj s0 = (r, obj1, st1)" using assms(3) g q by (auto simp: GetCode_def split: prod.splits)
  have "s_objs s0 a = Some obj" using sp(6)[OF q] by simp
  from so_Code_spec[OF wf0 this assms(2) c] show thesis using that by blast
qed

lemma write_slice_live:
  assumes "length a = 20" "s_objs st a = Some obj" "so_code obj = Some k" "k < length (s_codes st)"
    and "live be st a = Some v"
  shows "\<exists>v'. live be (write_slice (Some k) b st) a = Some v' \<and> a_code v' = b \<and> a_codeHash v' = a_codeHash v"
  using assms by (auto simp: live_def acct_def view_def write_slice_def code_val_def split: if_splits)

text \<open>C9. Reverting does not undo an increment of the deposit count. When the registry exists, a
  revert to a snapshot taken before the increment succeeds and restores the code hash of the
  registry, but the count read afterwards is still the incremented one, because the counter was
  written into the slice that the journal keeps as the previous code.\<close>

theorem increment_survives_revert:
  assumes "registry be c st n addrs" "reg_code be c st = reg_bytes n addrs" "rev_ok st"
    and "Snapshot st = (i, st1)" "IncrementDepositCount be c st1 = (res, st2)"
  shows "\<exists>st3 v v'. RevertToSnapshot be i st2 = Ok st3 \<and> fst (GetDepositCount be c st) = Ok n \<and>
    fst (GetDepositCount be c st3) = Ok (n + 1) \<and>
    live be st (ValidatorsStateAddress c) = Some v \<and> live be st3 (ValidatorsStateAddress c) = Some v' \<and>
    a_codeHash v' = a_codeHash v"
proof -
  let ?a = "ValidatorsStateAddress c" and ?new = "reg_bytes (n + 1) addrs"
  have w: "sdb_wf be st" "length ?a = 20" using assms(1) by (simp_all add: registry_def)
  note s1 = Snapshot_wf[OF w(1) assms(3,4)]
  have l1: "live be st1 b = live be st b" for b using s1(3) by (simp add: live_def)
  have reg1: "registry be c st1 n addrs" "reg_code be c st1 = ?new \<longleftrightarrow> reg_code be c st = ?new"
    "reg_code be c st1 = reg_bytes n addrs"
    using assms(1,2) s1(1) l1 by (simp_all add: registry_def reg_code_def)
  obtain r u where u: "sdb_wf be u" "same be st1 u" "hist u = hist st1" "\<exists>k. r = Some k \<and> k < length (s_codes u)"
    "IncrementDepositCount be c st1 = (Ok (), SetCode be ?a r (write_slice r ?new u))" "GetCode be ?a st1 = (r, u)"
    using increment_slice[OF reg1(1)] reg1(3) by metis
  obtain k where k: "r = Some k" "k < length (s_codes u)" using u(4) by blast
  let ?s = "write_slice r ?new u"
  let ?b = "?s\<lparr>s_validRevisions := s_validRevisions st, s_nextRevisionId := s_nextRevisionId st\<rparr>"
  note ws = write_slice_wf[OF u(1), where r = r and b = ?new]
  have h: "s_entries ?s = s_entries st" "s_validRevisions ?s = s_validRevisions st @ [(i, length (s_entries st))]"
    "s_nextRevisionId ?s = Suc i" "i = s_nextRevisionId st"
    using ws(4) u(3) assms(4) by (auto simp: hist_def Snapshot_def)
  have bs: "Snapshot ?b = (i, ?s)" using h by (simp add: Snapshot_def)
  have bw: "sdb_wf be ?b" "rev_ok ?b" "acct be ?b = acct be ?s"
    using ws(1) rest_ok_rest[of ?b ?s] assms(3) h(1)
    by (auto simp: sdb_wf_def sdb_inv_def rest_def rev_ok_def intro!: acct_cong)
  have vr: "\<forall>j. r = Some j \<longrightarrow> j < length (s_codes ?s)" using k ws(2) by simp
  obtain es where es: "step be ?s es (SetCode be ?a r ?s)" using SetCode_effect[OF ws(1) w(2) vr] by (auto simp: effect_def)
  have "since be ?s (SetCode be ?a r ?s)"
    by (rule since_step[OF since_refl[OF Snapshot_wf(1,2)[OF bw(1,2) bs]] es])
  then obtain st3 where st3: "RevertToSnapshot be i (SetCode be ?a r ?s) = Ok st3" "acct be st3 = acct be ?s" "sdb_wf be st3"
    using since_snapshot_revert[OF bw(1,2) bs] bw(3) by metis
  obtain obj where obj: "s_objs u ?a = Some obj" "so_code obj = r" using GetCode_obj[OF s1(1) w(2) u(6)] k(1) by blast
  have "reg_code be c st \<noteq> []" unfolding assms(2) by (rule reg_bytes_ne)
  then obtain v where v: "live be st ?a = Some v" by (auto simp: reg_code_def split: option.splits)
  then have "live be u ?a = Some v" using same_live[OF u(2)] l1 by simp
  from write_slice_live[OF w(2) obj(1) _ k(2) this, of ?new]
  obtain v' where v': "live be ?s ?a = Some v'" "a_code v' = ?new" "a_codeHash v' = a_codeHash v"
    using obj(2) k(1) by auto
  have l3: "live be st3 ?a = Some v'" using v'(1) st3(2) by (simp add: live_def)
  then have "registry be c st3 (n + 1) addrs" using assms(1) st3(3) v'(2) by (simp add: registry_def reg_code_def)
  then have "fst (GetDepositCount be c st3) = Ok (n + 1)" "fst (GetDepositCount be c st) = Ok n"
    using registry_count assms(1) by fastforce+
  moreover have "st2 = SetCode be ?a r ?s" using u(5) assms(5) by simp
  ultimately show ?thesis using st3(1) v v'(3) l3 by blast
qed

lemma rev_ok_SetCode:
  assumes "sdb_wf be st" "rev_ok st" "length a = 20" "\<forall>i. r = Some i \<longrightarrow> i < length (s_codes st)"
  shows "rev_ok (SetCode be a r st)"
  using SetCode_effect[OF assms(1,3,4)] assms(2) by (fastforce simp: effect_def step_def rev_ok_def)

theorem increment_survives_revert_witness:
  "\<exists>st st1 st2 st3. Snapshot st = (0, st1) \<and> IncrementDepositCount sample_backend reg_config st1 = (Ok (), st2) \<and>
     RevertToSnapshot sample_backend 0 st2 = Ok st3 \<and> fst (GetDepositCount sample_backend reg_config st) = Ok 7 \<and>
     fst (GetDepositCount sample_backend reg_config st3) = Ok 8"
proof -
  let ?be = sample_backend and ?c = reg_config and ?a = "ValidatorsStateAddress reg_config"
  note n = statedb_New_wf(1)[OF sample_backend_ok] statedb_New_wf(2)
  let ?g = "grow (reg_bytes 7 []) statedb_New" and ?q = "Some (length (s_codes statedb_New))"
  let ?st = "SetCode ?be ?a ?q ?g"
  note gs = grow_same[OF n(1), of "reg_bytes 7 []"]
  have wg: "sdb_wf ?be ?g" "rev_ok ?g" using wf_same[OF n(1) gs] n(2) by (simp_all add: rev_ok_def grow_def)
  have a: "length ?a = 20" by (simp add: reg_config_def)
  have q: "\<forall>i. ?q = Some i \<longrightarrow> i < length (s_codes ?g)" "deref ?g ?q = reg_bytes 7 []" by (simp_all add: deref_def)
  have reg: "registry ?be ?c ?st 7 []" by (rule SetCode_registry[OF wg(1) a q]) simp
  have rc: "reg_code ?be ?c ?st = reg_bytes 7 []" using SetCode_live(2)[OF wg(1) a q(1)] q(2) by (auto simp: reg_code_def)
  have ro: "rev_ok ?st" by (rule rev_ok_SetCode[OF wg a q(1)])
  have "s_nextRevisionId ?st = 0"
    using SetCode_effect[OF wg(1) a q(1)] by (auto simp: effect_def step_def grow_def statedb_New_def)
  then have sn: "Snapshot ?st = (0, snd (Snapshot ?st))" by (simp add: Snapshot_def)
  note s1 = Snapshot_wf[OF _ ro sn]
  have "registry ?be ?c (snd (Snapshot ?st)) 7 []"
    using reg s1 by (simp add: registry_def reg_code_def live_def)
  then obtain st2 where "IncrementDepositCount ?be ?c (snd (Snapshot ?st)) = (Ok (), st2)"
    using registry_increment by blast
  moreover from increment_survives_revert[OF reg rc ro sn this]
  obtain st3 where "RevertToSnapshot ?be 0 st2 = Ok st3" "fst (GetDepositCount ?be ?c ?st) = Ok 7"
    "fst (GetDepositCount ?be ?c st3) = Ok 8" by auto
  ultimately show ?thesis using sn by blast
qed

end
