(* ===== verification/Spec2Isabelle.thy ===== *)
theory Spec2Isabelle
  imports Statedb_Props Shuffle Bloom Dag_Chain Chain_Db_Correct Val_Storage
begin

text \<open>
  A verification development for gwat, the Waterfall execution client: a Go program derived from
  go-ethereum in which blocks form a directed graph. A coordinating network picks spines, one
  block per slot; finalising a spine finalises its unfinalised ancestors in a fixed order;
  transactions then run on the account state, where validators register through operations in
  transaction data. Structures are serialised by RLP, or by fixed binary layouts, and stored under
  prefixed keys of a key-value store. Proposers of blocks are drawn from a shuffled list of
  validators, era by era.

  \<^bold>\<open>Conventions.\<close> A Go call returns a value, an error or a run-time panic (\<open>res\<close> of \<open>Prelude\<close>); a
  call that changes state has type \<open>('s, 'a) call\<close> and returns the changed state also when it
  fails. Go's 64-bit integers are words, with their wrap-around; \<^verbatim>\<open>big.Int\<close> is \<open>int\<close>. Byte
  slices, arrays and strings are byte lists, index and slice expressions keep their bounds checks,
  and a pointer that may be nil is an option. A Go map is a map or an association list; where its
  iteration order is visible the theorems hold for every order. Functions outside the repository
  (Keccak-256, SHA-256, bit lists, tries, the freezer) are arguments, and what is assumed of them is
  a hypothesis of the theorems that need it.

  \<^bold>\<open>Serialisation\<close> (\<^verbatim>\<open>src/rlp\<close>).
  \<^item> \<open>Rlp_Encode\<close> models the size helpers and the writers over \<^verbatim>\<open>encbuf\<close> (\<^verbatim>\<open>encode.go\<close>): \<open>writeVal\<close>
    is the writer that \<^verbatim>\<open>makeWriter\<close> builds for a type. \<open>Rlp_Encode_Correct\<close> shows that merging
    string data and list headers gives the recursive reference encoding.
  \<^item> \<open>Rlp_Decode\<close> models \<^verbatim>\<open>Stream\<close> (\<^verbatim>\<open>decode.go\<close>). In \<open>Rlp_Decode_Correct\<close> the locale \<open>decoder\<close> is
    the contract of an element decoder, and slices and structs of decoders satisfy it (locale
    \<open>list_body\<close>); decoding accepts exactly the canonical encodings, inverts encoding and returns.
  \<^item> \<open>Rlp_Raw\<close> models \<^verbatim>\<open>raw.go\<close>: splitting, counting and appending on buffers.

  \<^bold>\<open>Shared types\<close> (\<^verbatim>\<open>src/common\<close>, \<^verbatim>\<open>src/core/types\<close>, \<^verbatim>\<open>src/params/config.go\<close>).
  \<^item> \<open>Common\<close>: fixed-size arrays, hash arrays, the slot clock, fork slots; epochs and their boundary
    slots, hash arrays as sequences and sets.
  \<^item> \<open>Hex\<close>, \<open>Hash_Order\<close>: \<^verbatim>\<open>hexutil\<close> and the sorts through hexadecimal strings; round trips, agreement
    of text order and byte order, keys of hash arrays.
  \<^item> \<open>Block_Header\<close>, \<open>Bloom\<close>: headers, their hashes and the log filter; the hashed bytes determine the
    header up to the state fields, and the filter has no false negatives.

  \<^bold>\<open>Block graph.\<close>
  \<^item> \<open>Dag_Types\<close>: checkpoints, finalisation requests, tips and header maps (\<^verbatim>\<open>dag.go\<close>,
    \<^verbatim>\<open>block_dag.go\<close>, \<^verbatim>\<open>sorting.go\<close>); stored forms, the finalising order, consistency of the tips.
  \<^item> \<open>Spine\<close>: blocks and block maps (\<^verbatim>\<open>block.go\<close>, \<^verbatim>\<open>block_dag.go\<close>), order of the blocks of a slot, spines
    and optimistic candidates (\<^verbatim>\<open>spine.go\<close>), equal to sorting by one order.
  \<^item> \<open>Dag_Chain\<close>: \<^verbatim>\<open>SpineGetDagChain\<close> and the blocks it reads from a chain; it ends and returns every
    unfinalised ancestor once, parents first.
\<close>

text \<open>
  \<^bold>\<open>Account state\<close> (\<^verbatim>\<open>src/core/state\<close>).
  \<^item> \<open>Access_List\<close>: the access list of a transaction, refining two sets.
  \<^item> \<open>Statedb\<close>: \<^verbatim>\<open>StateDB\<close>, \<^verbatim>\<open>stateObject\<close> and the journal. Live objects are a map from addresses;
    code slices live in an explicit store \<open>s_codes\<close>, because objects and journal entries share them.
  \<^item> \<open>Statedb_Correct\<close>, \<open>Statedb_Ops\<close>, \<open>Statedb_Revert\<close>, \<open>Statedb_Props\<close>: the invariant \<open>sdb_wf\<close>, the
    effect of every operation on the accounts it represents, and undoing. The locale \<open>journaled\<close>
    holds the argument that undoing the entries of a journal in reverse order restores what they
    replaced; it is interpreted on the state of the model.

  \<^bold>\<open>Validators\<close> (\<^verbatim>\<open>src/validator\<close>).
  \<^item> \<open>Operation\<close>, \<open>Operation_Correct\<close>: package \<^verbatim>\<open>operation\<close>; round trips of the binary formats and the
    payloads on which the decoders panic.
  \<^item> \<open>Validator\<close>: the validator record, its ledger of stakes and its binary layout. The ledger holds
    amounts as values; the code changes them in place behind pointers, which is shown to be the
    same while no two stakes share an amount, and to differ when they do.
  \<^item> \<open>Val_Storage\<close>: the registry of \<^verbatim>\<open>storage/storage.go\<close> on the account state: \<^verbatim>\<open>SetValidator\<close>,
    \<^verbatim>\<open>GetValidator\<close>, the list of validators and the deposit count. It refines a count and a list of
    addresses; the counter is written in place into a slice that the journal also holds, and a
    revert is shown not to restore it.
  \<^item> \<open>Era\<close>: eras, their slots and the next era; \<open>Shuffle\<close>: the swap-or-not shuffle, equal to its
    definition by index and inverted by its other direction.

  \<^bold>\<open>Chain database\<close> (\<^verbatim>\<open>src/ethdb/memorydb\<close>, \<^verbatim>\<open>src/core/rawdb\<close>).
  \<^item> \<open>Memorydb\<close>: the store with batches and iterators. The locale \<open>kv_store\<close> is the contract its
    clients use; the memory database is its interpretation.
  \<^item> \<open>Schema\<close>: the keys; no two keys of any kinds collide.
  \<^item> \<open>Chain_Db\<close>, \<open>Chain_Db_Correct\<close>: the accessors. Sequences of the writing ones refine abstract calls
    on one map per kind of entry, with the same outcome, on a store without freezer; the index of
    finalised blocks stays invertible, and the search for an era finds the latest one above era
    zero.

  \<^bold>\<open>Bounds and fuel.\<close> Loops are structural, or terminate by a measure. Three use fuel: the elements
  of a decoded list, with the number of unread bytes plus one, which suffices because an element
  takes a byte; counting values, with the length of the buffer; and \<^verbatim>\<open>SpineGetDagChain\<close>, where any
  fuel above the number of unfinalised ancestors is proved to suffice. Buffers are shorter than
  two to the 63, as every Go slice is.

  \<^bold>\<open>Not modelled.\<close> Tries and the writing of state roots, since the state reads tries only through
  lookups; the virtual machine, gas and transactions, which rest on cryptographic libraries; block
  import, the transaction pool, the wire protocol and the services around them, which are concurrent
  processes over sockets, files and the clock; the processors of validator and token operations;
  the caches of validators and the assignment of proposers to slots; JSON, printing and logging.
\<close>

end
